(* ===== verification/Prelude.thy ===== *)
theory Prelude
  imports Main "HOL-Library.Monad_Syntax" "HOL-Library.Word"
begin

text \<open>
  Shared vocabulary of the development: the C++ container accesses with their definedness
  conditions, the fixed widths of the program's integer types, loops over ranges, the
  error values, and the collections of facts the component proofs use.
\<close>

named_theorems vec_simps \<open>access to vectors inside their bounds\<close>
named_theorems width_simps \<open>values that fit their integer type are unchanged by narrowing\<close>

section \<open>Vectors\<close>

text \<open>
  \<open>std::vector\<close> and raw arrays are lists. \<open>v[i]\<close> with an index outside the
  vector is undefined behaviour: the access returns \<open>None\<close>, and a theorem that an
  operation returns \<open>Some\<close> says that none of its accesses is outside.
\<close>

definition vget :: "'a list \<Rightarrow> int \<Rightarrow> 'a option" where
  "vget xs i = (if 0 \<le> i \<and> i < int (length xs) then Some (xs ! nat i) else None)"

definition vset :: "'a list \<Rightarrow> int \<Rightarrow> 'a \<Rightarrow> 'a list option" where
  "vset xs i v = (if 0 \<le> i \<and> i < int (length xs) then Some (xs[nat i := v]) else None)"

definition vmodify :: "'a list \<Rightarrow> int \<Rightarrow> ('a \<Rightarrow> 'a) \<Rightarrow> 'a list option" where
  "vmodify xs i f = do { x \<leftarrow> vget xs i; vset xs i (f x) }"

lemma vget_in [vec_simps]: "0 \<le> i \<Longrightarrow> i < int (length xs) \<Longrightarrow> vget xs i = Some (xs ! nat i)"
  by (simp add: vget_def)

lemma vset_in [vec_simps]: "0 \<le> i \<Longrightarrow> i < int (length xs) \<Longrightarrow> vset xs i v = Some (xs[nat i := v])"
  by (simp add: vset_def)

lemma vmodify_in [vec_simps]:
  "0 \<le> i \<Longrightarrow> i < int (length xs) \<Longrightarrow> vmodify xs i f = Some (xs[nat i := f (xs ! nat i)])"
  by (simp add: vmodify_def vget_in vset_in)

lemma vget_nat [simp]: "vget xs (int n) = (if n < length xs then Some (xs ! n) else None)"
  by (simp add: vget_def)

lemma vset_nat [simp]: "vset xs (int n) v = (if n < length xs then Some (xs[n := v]) else None)"
  by (simp add: vset_def)

lemma vget_SomeD: "vget xs i = Some x \<Longrightarrow> 0 \<le> i \<and> i < int (length xs) \<and> x = xs ! nat i"
  by (auto simp: vget_def split: if_splits)

lemma vset_SomeD: "vset xs i v = Some ys \<Longrightarrow> 0 \<le> i \<and> i < int (length xs) \<and> ys = xs[nat i := v]"
  by (auto simp: vset_def split: if_splits)

section \<open>Integer widths\<close>

text \<open>
  \<open>int32_t\<close> and \<open>int16_t\<close> values are integers; narrowing a value to the type
  (an assignment, an increment) wraps as two's complement does.
\<close>

definition int32 :: "int \<Rightarrow> int" where
  "int32 x = (x + 2 ^ 31) mod 2 ^ 32 - 2 ^ 31"

definition int16 :: "int \<Rightarrow> int" where
  "int16 x = (x + 2 ^ 15) mod 2 ^ 16 - 2 ^ 15"

lemma int32_id [width_simps]: "- (2 ^ 31) \<le> x \<Longrightarrow> x < 2 ^ 31 \<Longrightarrow> int32 x = x"
  by (simp add: int32_def)

lemma int16_id [width_simps]: "- (2 ^ 15) \<le> x \<Longrightarrow> x < 2 ^ 15 \<Longrightarrow> int16 x = x"
  by (simp add: int16_def)

lemma int32_range: "- (2 ^ 31) \<le> int32 x \<and> int32 x < 2 ^ 31"
  using pos_mod_bound [of "2 ^ 32 :: int" "x + 2 ^ 31"] pos_mod_sign [of "2 ^ 32 :: int" "x + 2 ^ 31"]
  by (simp add: int32_def)

text \<open>Words read as natural numbers.\<close>

lemma vget_word: "vget xs (uint x) = (if unat x < length xs then Some (xs ! unat x) else None)"
  by (subst uint_nat) (rule vget_nat)

lemma unat_u32_less: "unat (x :: 32 word) < 2 ^ 32"
  using unsigned_less [of x, where 'a = nat] by simp

lemma unat_u64_less: "unat (x :: 64 word) < 2 ^ 64"
  using unsigned_less [of x, where 'a = nat] by simp

lemma unat_u32_of_nat [width_simps]: "i < 2 ^ 32 \<Longrightarrow> unat (of_nat i :: 32 word) = i"
  by (simp add: unsigned_of_nat take_bit_nat_eq_self_iff)

lemma unat_narrow [width_simps]: "unat (x :: 64 word) < 2 ^ 32 \<Longrightarrow> unat (ucast x :: 32 word) = unat x"
  by (simp add: unsigned_ucast_eq take_bit_nat_eq_self_iff)

lemma unat_widen [simp]: "unat (ucast (x :: 32 word) :: 64 word) = unat x"
  using unat_u32_less [of x] by (simp add: unsigned_ucast_eq take_bit_nat_eq_self_iff)

lemma unat_u64_add [width_simps]:
  "unat x + unat y < 2 ^ 64 \<Longrightarrow> unat (x + y :: 64 word) = unat x + unat y"
  by (subst unat_add_lem [symmetric]) simp

lemma unat_u32_add [width_simps]:
  "unat x + unat y < 2 ^ 32 \<Longrightarrow> unat (x + y :: 32 word) = unat x + unat y"
  by (subst unat_add_lem [symmetric]) simp

section \<open>Loops\<close>

text \<open>A \<open>for\<close> loop over a range, each iteration of which may be undefined.\<close>

fun foldM :: "('a \<Rightarrow> 's \<Rightarrow> 's option) \<Rightarrow> 'a list \<Rightarrow> 's \<Rightarrow> 's option" where
  "foldM f [] s = Some s"
| "foldM f (x # xs) s = do { s' \<leftarrow> f x s; foldM f xs s' }"

lemma foldM_append: "foldM f (xs @ ys) s = do { s' \<leftarrow> foldM f xs s; foldM f ys s' }"
proof (induction xs arbitrary: s)
  case (Cons x xs)
  then show ?case by (cases "f x s") auto
qed simp

lemma foldM_map: "foldM f (map g xs) s = foldM (\<lambda>x. f (g x)) xs s"
proof (induction xs arbitrary: s)
  case (Cons x xs)
  then show ?case by (cases "f (g x) s") auto
qed simp

lemma foldM_concat: "foldM f (concat xss) s = foldM (foldM f) xss s"
proof (induction xss arbitrary: s)
  case (Cons xs xss)
  then show ?case by (cases "foldM f xs s") (auto simp: foldM_append)
qed simp

text \<open>The invariant rule of these loops, indexed by the part of the range already done.\<close>

lemma foldM_invariant:
  assumes "P [] s"
    and "\<And>ys x zs s. xs = ys @ x # zs \<Longrightarrow> P ys s \<Longrightarrow> \<exists>s'. f x s = Some s' \<and> P (ys @ [x]) s'"
  shows "\<exists>s'. foldM f xs s = Some s' \<and> P xs s'"
proof -
  have "\<exists>s'. foldM f zs s = Some s' \<and> P (ys @ zs) s'" if "xs = ys @ zs" "P ys s" for ys zs s
    using that
  proof (induction zs arbitrary: ys s)
    case (Cons z zs)
    then obtain s' where "f z s = Some s'" "P (ys @ [z]) s'" using assms(2) by blast
    moreover from this Cons obtain s'' where "foldM f zs s' = Some s''" "P ((ys @ [z]) @ zs) s''"
      by (metis append.assoc append_Cons append_Nil)
    ultimately show ?case by auto
  qed simp
  from this [of "[]" xs s] assms(1) show ?thesis by simp
qed

text \<open>Drawing values one after the other from a stateful source.\<close>

fun draws :: "('g \<Rightarrow> 'a \<times> 'g) \<Rightarrow> nat \<Rightarrow> 'g \<Rightarrow> 'a list \<times> 'g" where
  "draws nxt 0 g = ([], g)"
| "draws nxt (Suc n) g =
     (let (xs, g') = draws nxt n g; (x, g'') = nxt g' in (xs @ [x], g''))"

lemma length_draws [simp]: "length (fst (draws nxt n g)) = n"
  by (induction n) (auto simp: split_def Let_def)

lemma upto_int_upt: "[0..int n - 1] = map int [0..<n]"
  by (induction n) (simp_all add: upto_rec2)

lemma upto_nat_upt: "[0..n - 1] = map int [0..<nat n]"
proof (cases "0 \<le> n")
  case True
  then show ?thesis using upto_int_upt [of "nat n"] by simp
qed simp

section \<open>Errors\<close>

text \<open>
  What ends a computation abnormally: the exceptions the program throws (with their text
  where it is not composed from values), a failed \<open>assert\<close> (it stays active in the
  release build, whose flags do not define \<open>NDEBUG\<close>), and undefined behaviour.
\<close>

datatype cpp_error =
    Runtime_error string
  | Out_of_range string
  | Invalid_argument
  | Nested_error nat string cpp_error
  | Assertion_failed
  | Undefined_behaviour

type_synonym 'a result = "cpp_error + 'a"

definition rbind :: "'e + 'a \<Rightarrow> ('a \<Rightarrow> 'e + 'b) \<Rightarrow> 'e + 'b" where
  "rbind m f = (case m of Inl e \<Rightarrow> Inl e | Inr a \<Rightarrow> f a)"

lemma rbind_simps [simp]: "rbind (Inl e) f = Inl e" "rbind (Inr a) f = f a"
  by (simp_all add: rbind_def)

lemma rbind_Inr_iff: "rbind m f = Inr b \<longleftrightarrow> (\<exists>a. m = Inr a \<and> f a = Inr b)"
  by (cases m) auto

lemma rbind_Inl_iff: "rbind m f = Inl e \<longleftrightarrow> m = Inl e \<or> (\<exists>a. m = Inr a \<and> f a = Inl e)"
  by (cases m) auto

text \<open>
  The exceptions the \<open>catch\<close> clauses see; the other errors end the process. Where the code
  goes on after a \<open>catch\<close>, an error comes with the state it left.
\<close>

fun is_exception :: "cpp_error \<Rightarrow> bool" where
  "is_exception Assertion_failed = False"
| "is_exception Undefined_behaviour = False"
| "is_exception _ = True"

definition thrown :: "'s \<Rightarrow> 'a result \<Rightarrow> (cpp_error \<times> 's) + 'a" where
  "thrown w r = (case r of Inl e \<Rightarrow> Inl (e, w) | Inr x \<Rightarrow> Inr x)"

lemma thrown_Inr: "thrown w r = Inr x \<longleftrightarrow> r = Inr x" and
  thrown_Inl: "thrown w r = Inl (e, v) \<longleftrightarrow> r = Inl e \<and> v = w"
  by (auto simp: thrown_def split: sum.splits)

lemma rbind_cong [fundef_cong]:
  "m = m' \<Longrightarrow> (\<And>a. m' = Inr a \<Longrightarrow> f a = g a) \<Longrightarrow> rbind m f = rbind m' g"
  by (cases m') auto

definition defined :: "'a option \<Rightarrow> 'a result" where
  "defined m = (case m of None \<Rightarrow> Inl Undefined_behaviour | Some a \<Rightarrow> Inr a)"

lemma defined_simps [simp]: "defined None = Inl Undefined_behaviour" "defined (Some a) = Inr a"
  by (simp_all add: defined_def)

definition require :: "bool \<Rightarrow> 'e \<Rightarrow> 'e + unit" where
  "require b e = (if b then Inr () else Inl e)"

lemma require_simps [simp]: "require True e = Inr ()" "require False e = Inl e"
  by (simp_all add: require_def)

text \<open>A \<open>for\<close> loop an iteration of which may throw.\<close>

fun foldR :: "('a \<Rightarrow> 's \<Rightarrow> 'e + 's) \<Rightarrow> 'a list \<Rightarrow> 's \<Rightarrow> 'e + 's" where
  "foldR f [] s = Inr s"
| "foldR f (x # xs) s = rbind (f x s) (foldR f xs)"

lemma foldR_append: "foldR f (xs @ ys) s = rbind (foldR f xs s) (foldR f ys)"
proof (induction xs arbitrary: s)
  case (Cons x xs)
  then show ?case by (cases "f x s") auto
qed simp

lemma foldR_map: "foldR f (map g xs) s = foldR (\<lambda>x. f (g x)) xs s"
proof (induction xs arbitrary: s)
  case (Cons x xs)
  then show ?case by (cases "f (g x) s") auto
qed simp

lemma foldR_invariant:
  assumes "P [] s"
    and "\<And>ys x zs s. xs = ys @ x # zs \<Longrightarrow> P ys s \<Longrightarrow> \<exists>s'. f x s = Inr s' \<and> P (ys @ [x]) s'"
  shows "\<exists>s'. foldR f xs s = Inr s' \<and> P xs s'"
proof -
  have "\<exists>s'. foldR f zs s = Inr s' \<and> P (ys @ zs) s'" if "xs = ys @ zs" "P ys s" for ys zs s
    using that
  proof (induction zs arbitrary: ys s)
    case (Cons z zs)
    then obtain s' where "f z s = Inr s'" "P (ys @ [z]) s'" using assms(2) by blast
    moreover from this Cons obtain s'' where "foldR f zs s' = Inr s''" "P ((ys @ [z]) @ zs) s''"
      by (metis append.assoc append_Cons append_Nil)
    ultimately show ?case by auto
  qed simp
  from this [of "[]" xs s] assms(1) show ?thesis by simp
qed

lemma upt_split_nth: "[0..<n] = ys @ x # zs \<Longrightarrow> x = length ys \<and> x < n"
proof -
  assume eq: "[0..<n] = ys @ x # zs"
  have "length ys < length [0..<n]" unfolding eq by simp
  moreover have "[0..<n] ! length ys = x" unfolding eq by simp
  ultimately show ?thesis by simp
qed

text \<open>\<open>std::vector::resize\<close>.\<close>

definition vresize :: "'a list \<Rightarrow> nat \<Rightarrow> 'a \<Rightarrow> 'a list" where
  "vresize xs n d = take n xs @ replicate (n - length xs) d"

lemma length_vresize [simp]: "length (vresize xs n d) = n"
  by (simp add: vresize_def)

end
