(* ===== verification/Strings.thy ===== *)
theory Strings
  imports Prelude "HOL-Library.Sublist" "HOL-Library.Char_ord"
begin

text \<open>
  \<open>util/util.hpp\<close> and what the program uses of the C++ library's strings and streams:
  \<open>std::string::find\<close>, \<open>std::stoll\<close>, \<open>std::getline\<close>, formatted extraction, and the
  state flags of an input stream. The build sets C++17, so \<open>starts_with\<close> and
  \<open>ends_with\<close> are the variants based on \<open>find\<close>.
\<close>

section \<open>Searching\<close>

fun str_find :: "string \<Rightarrow> string \<Rightarrow> nat option" where
  "str_find [] b = (if b = [] then Some 0 else None)"
| "str_find (c # a) b = (if prefix b (c # a) then Some 0 else map_option Suc (str_find a b))"

text \<open>The result as a \<open>std::size_t\<close>, \<open>npos\<close> when there is no occurrence.\<close>

definition npos :: int where "npos = 2 ^ 64 - 1"

definition find_pos :: "string \<Rightarrow> string \<Rightarrow> int" where
  "find_pos a b = (case str_find a b of None \<Rightarrow> npos | Some n \<Rightarrow> int n)"

definition starts_with :: "string \<Rightarrow> string \<Rightarrow> bool" where
  "starts_with a b \<longleftrightarrow> find_pos a b = 0"

definition ends_with :: "string \<Rightarrow> string \<Rightarrow> bool" where
  "ends_with a b \<longleftrightarrow> find_pos a b = (int (length a) - int (length b)) mod 2 ^ 64"

text \<open>\<open>substr(0, n)\<close> with \<open>n\<close> computed in \<open>std::size_t\<close>.\<close>

definition str_prefix :: "string \<Rightarrow> int \<Rightarrow> string" where
  "str_prefix s n = (let k = n mod 2 ^ 64 in if int (length s) \<le> k then s else take (nat k) s)"

section \<open>Numbers\<close>

definition is_space :: "char \<Rightarrow> bool" where
  "is_space c \<longleftrightarrow> c = CHR '' '' \<or> (9 \<le> (of_char c :: nat) \<and> (of_char c :: nat) \<le> 13)"

definition is_digit :: "char \<Rightarrow> bool" where
  "is_digit c \<longleftrightarrow> 48 \<le> (of_char c :: nat) \<and> (of_char c :: nat) \<le> 57"

definition digit_val :: "char \<Rightarrow> int" where
  "digit_val c = int (of_char c) - 48"

definition digits_val :: "string \<Rightarrow> int" where
  "digits_val ds = foldl (\<lambda>a c. 10 * a + digit_val c) 0 ds"

text \<open>Leading white space, a sign, decimal digits: the value and the unread rest.\<close>

definition scan_sign :: "string \<Rightarrow> bool \<times> string" where
  "scan_sign s = (case s of [] \<Rightarrow> (False, [])
     | c # r \<Rightarrow> if c = CHR ''-'' then (True, r) else if c = CHR ''+'' then (False, r) else (False, s))"

definition scan_long :: "string \<Rightarrow> (int \<times> string) option" where
  "scan_long s =
     (let (neg, s1) = scan_sign (dropWhile is_space s); ds = takeWhile is_digit s1 in
      if ds = [] then None
      else Some (if neg then - digits_val ds else digits_val ds, dropWhile is_digit s1))"

definition is_long :: "int \<Rightarrow> bool" where
  "is_long v \<longleftrightarrow> - (2 ^ 63) \<le> v \<and> v < 2 ^ 63"

definition stoll :: "string \<Rightarrow> int result" where
  "stoll s = (case scan_long s of None \<Rightarrow> Inl Invalid_argument
     | Some (v, _) \<Rightarrow> if is_long v then Inr v else Inl (Out_of_range ''stoll''))"

lemma length_dropWhile_le: "length (dropWhile P xs) \<le> length xs"
  by (induction xs) auto

lemma scan_sign_length: "length (snd (scan_sign s)) \<le> length s"
  by (simp add: scan_sign_def split: list.splits)

lemma scan_long_shorter: "scan_long s = Some (v, r) \<Longrightarrow> length r < length s"
proof -
  assume a: "scan_long s = Some (v, r)"
  obtain neg s1 where s1: "scan_sign (dropWhile is_space s) = (neg, s1)" by (cases "scan_sign (dropWhile is_space s)")
  then have "takeWhile is_digit s1 \<noteq> []" "r = dropWhile is_digit s1"
    using a by (auto simp: scan_long_def Let_def split: if_splits)
  then have "length r < length s1"
    by (cases s1) (auto simp: le_imp_less_Suc length_dropWhile_le split: if_splits)
  then show ?thesis
    using s1 scan_sign_length [of "dropWhile is_space s"] length_dropWhile_le [of is_space s] by simp
qed

text \<open>The numbers an \<open>istream_iterator<std::ptrdiff_t>\<close> yields from the rest of a stream.\<close>

function read_longs :: "string \<Rightarrow> int list" where
  "read_longs s = (case scan_long s of None \<Rightarrow> []
     | Some (v, r) \<Rightarrow> if is_long v then v # read_longs r else [])"
  by pat_completeness auto
termination by (relation "measure length") (auto dest: scan_long_shorter)

declare read_longs.simps [simp del]

section \<open>Streams\<close>

record istream =
  is_rest :: string
  is_eof :: bool
  is_fail :: bool

definition istream_of :: "string \<Rightarrow> istream" where
  "istream_of s = \<lparr>is_rest = s, is_eof = False, is_fail = False\<rparr>"

definition getline :: "char \<Rightarrow> istream \<Rightarrow> string \<Rightarrow> string \<times> istream" where
  "getline delim is line =
     (if is_eof is \<or> is_fail is then (line, is\<lparr>is_fail := True\<rparr>)
      else let l = takeWhile (\<lambda>c. c \<noteq> delim) (is_rest is); r = dropWhile (\<lambda>c. c \<noteq> delim) (is_rest is) in
        if r = [] then (l, is\<lparr>is_rest := [], is_eof := True, is_fail := (l = [])\<rparr>)
        else (l, is\<lparr>is_rest := tl r\<rparr>))"

text \<open>\<open>is >> field\<close> for a string: the field keeps its value when no word is left.\<close>

definition extract_word :: "istream \<Rightarrow> string \<Rightarrow> string \<times> istream" where
  "extract_word is field =
     (if is_eof is \<or> is_fail is then (field, is\<lparr>is_fail := True\<rparr>)
      else let s = dropWhile is_space (is_rest is) in
        if s = [] then (field, is\<lparr>is_rest := [], is_eof := True, is_fail := True\<rparr>)
        else let w = takeWhile (\<lambda>c. \<not> is_space c) s; r = dropWhile (\<lambda>c. \<not> is_space c) s in
          (w, is\<lparr>is_rest := r, is_eof := (r = [])\<rparr>))"

text \<open>\<open>split\<close>: the words of a string.\<close>

function split_words :: "string \<Rightarrow> string list" where
  "split_words s = (let t = dropWhile is_space s in
     if t = [] then [] else takeWhile (\<lambda>c. \<not> is_space c) t # split_words (dropWhile (\<lambda>c. \<not> is_space c) t))"
  by pat_completeness auto
termination
proof (relation "measure length")
  fix s t assume t: "t = dropWhile is_space s" "t \<noteq> []"
  then have "\<not> is_space (hd t)" using hd_dropWhile by blast
  then have "length (dropWhile (\<lambda>c. \<not> is_space c) t) < length t"
    using t(2) by (cases t) (auto simp: le_imp_less_Suc length_dropWhile_le)
  then show "(dropWhile (\<lambda>c. \<not> is_space c) t, s) \<in> measure length"
    using length_dropWhile_le [of is_space s] t(1) by simp
qed simp

declare split_words.simps [simp del]

end
