(* ===== verification/Clause.thy ===== *)
theory Clause
  imports Prelude
begin

text \<open>
  \<open>sat/clause.hpp\<close> and \<open>sat/3sat-clause.hpp\<close>: clauses as vectors of literals.
  A literal is a non-zero \<open>int32_t\<close>, \<open>l\<close> for the variable \<open>l\<close> and \<open>-l\<close>
  for its negation; the constructors take the numbers an input iterator yields. Access is by
  an 8-bit index; the copy and swap operations of both types and the output operator follow.
\<close>

type_synonym clause = "int list"

section \<open>Operations\<close>

definition generic_clause_new :: "int list \<Rightarrow> nat \<Rightarrow> clause result" where
  "generic_clause_new its num_vars =
     rbind (require (length its = num_vars) Assertion_failed) (\<lambda>_.
     rbind (require (0 < num_vars) Assertion_failed) (\<lambda>_.
     Inr (map int32 its)))"

text \<open>The index parameter of \<open>operator[]\<close> is a \<open>uint8_t\<close>.\<close>

definition clause_get :: "clause \<Rightarrow> int \<Rightarrow> int option" where
  "clause_get c index = vget c (index mod 256)"

definition clause_num_vars :: "clause \<Rightarrow> int" where
  "clause_num_vars c = int (length c)"

definition static_clause_3sat_new :: "int list \<Rightarrow> nat \<Rightarrow> clause result" where
  "static_clause_3sat_new its num_vars =
     rbind (require (num_vars = 3)
       (Runtime_error ''a 3-sat clause is expected, number of variables doesn't match'')) (\<lambda>_.
     rbind (defined (vget its 0)) (\<lambda>a.
     rbind (defined (vget its 1)) (\<lambda>b.
     rbind (defined (vget its 2)) (\<lambda>c.
     Inr [int32 a, int32 b, int32 c]))))"

text \<open>The loops \<open>for (i = 0; i < clause.num_vars(); i++)\<close> visit these literals.\<close>

definition clause_indices :: "clause \<Rightarrow> int list" where
  "clause_indices c = [0..clause_num_vars c - 1]"

section \<open>Values of the clause types\<close>

text \<open>
  Copying, and the copy-and-swap operations: both arguments of \<open>swap\<close> are results, and moving
  swaps with a default constructed object. The elements of a 3-SAT clause are swapped one by
  one; a default constructed one holds zeros.
\<close>

definition generic_clause_default :: clause where "generic_clause_default = []"

definition generic_clause_copy :: "clause \<Rightarrow> clause" where "generic_clause_copy other = other"

definition generic_clause_swap :: "clause \<times> clause \<Rightarrow> clause \<times> clause" where
  "generic_clause_swap ab = (snd ab, fst ab)"

definition generic_clause_move :: "clause \<Rightarrow> clause \<times> clause" where
  "generic_clause_move other = generic_clause_swap (generic_clause_default, other)"

definition generic_clause_assign :: "clause \<Rightarrow> clause \<Rightarrow> clause" where
  "generic_clause_assign this other = fst (generic_clause_swap (this, generic_clause_copy other))"

definition static_clause_3sat_default :: clause where "static_clause_3sat_default = [0, 0, 0]"

definition static_clause_3sat_copy :: "clause \<Rightarrow> clause option" where
  "static_clause_3sat_copy other = do {
     a \<leftarrow> vget other 0; b \<leftarrow> vget other 1; c \<leftarrow> vget other 2; Some [a, b, c] }"

definition swap_element :: "int \<Rightarrow> clause \<times> clause \<Rightarrow> (clause \<times> clause) option" where
  "swap_element i ab = do {
     x \<leftarrow> vget (fst ab) i; y \<leftarrow> vget (snd ab) i;
     a \<leftarrow> vset (fst ab) i y; b \<leftarrow> vset (snd ab) i x; Some (a, b) }"

definition static_clause_3sat_swap :: "clause \<times> clause \<Rightarrow> (clause \<times> clause) option" where
  "static_clause_3sat_swap ab = foldM swap_element [0, 1, 2] ab"

definition static_clause_3sat_move :: "clause \<Rightarrow> (clause \<times> clause) option" where
  "static_clause_3sat_move other = static_clause_3sat_swap (static_clause_3sat_default, other)"

definition static_clause_3sat_assign :: "clause \<Rightarrow> clause \<Rightarrow> clause option" where
  "static_clause_3sat_assign this other = do {
     other' \<leftarrow> static_clause_3sat_copy other;
     ab \<leftarrow> static_clause_3sat_swap (this, other');
     Some (fst ab) }"

definition static_clause_3sat_num_vars :: int where "static_clause_3sat_num_vars = 3"

definition clause_set :: "clause \<Rightarrow> int \<Rightarrow> int \<Rightarrow> clause option" where
  "clause_set c index x = vset c (index mod 256) x"

text \<open>
  The output operator: the pieces of text and literals it writes, all of them to the standard
  output, none to the stream it was given.
\<close>

definition clause_output :: "clause \<Rightarrow> (string + int) list option" where
  "clause_output c = map_option snd (foldM (\<lambda>i (sep, out). do {
       l \<leftarrow> clause_get c i; Some ('' '', out @ [Inl sep, Inr l]) }) (clause_indices c) ([], []))"

lemma three_elements: "length c = 3 \<Longrightarrow> \<exists>x y z. c = [x, y, z]" for c :: clause
  by (auto simp: numeral_3_eq_3 length_Suc_conv)

lemma static_clause_3sat_swap_ok:
  "length a = 3 \<Longrightarrow> length b = 3 \<Longrightarrow> static_clause_3sat_swap (a, b) = Some (b, a)"
  using three_elements [of a] three_elements [of b]
  by (auto simp: static_clause_3sat_swap_def swap_element_def vget_def vset_def)

lemma clause_values_kept:
  "generic_clause_assign a b = b" "fst (generic_clause_move b) = b"
  "length a = 3 \<Longrightarrow> length b = 3 \<Longrightarrow> static_clause_3sat_assign a b = Some b"
  "length b = 3 \<Longrightarrow> static_clause_3sat_move b = Some (b, [0, 0, 0])"
proof -
  have "static_clause_3sat_copy b = Some b" if "length b = 3"
    using three_elements [OF that] by (auto simp: static_clause_3sat_copy_def vget_def)
  then show "static_clause_3sat_assign a b = Some b" if "length a = 3" "length b = 3"
    using that by (simp add: static_clause_3sat_assign_def static_clause_3sat_swap_ok)
qed (simp_all add: generic_clause_assign_def generic_clause_move_def generic_clause_swap_def
    generic_clause_copy_def static_clause_3sat_move_def static_clause_3sat_default_def static_clause_3sat_swap_ok)

section \<open>Reading a clause\<close>

lemma clause_get_in [vec_simps]:
  "i < length c \<Longrightarrow> length c \<le> 256 \<Longrightarrow> clause_get c (int i) = Some (c ! i)"
  by (simp add: clause_get_def)

lemma clause_indices_nat: "clause_indices c = map int [0..<length c]"
  by (simp add: clause_indices_def clause_num_vars_def upto_int_upt)

text \<open>In a clause of more than 256 literals the index wraps and literals are read twice.\<close>

lemma clause_get_wraps:
  "length c > 256 \<Longrightarrow> clause_get c 256 = Some (c ! 0)"
  by (auto simp: clause_get_def vget_def)

end
