(* ===== verification/Cnf_Formula.thy ===== *)
theory Cnf_Formula
  imports Clause
begin

text \<open>
  \<open>sat/cnf_formula.hpp\<close>: the formula with its occurrence lists, in the variant with
  continuous memory (\<open>USE_CONT_DATASTRUCT\<close>). All occurrence lists lie in one vector
  \<open>clauses_with_vars\<close>; entry \<open>v\<close> of \<open>occurrence_offset\<close> holds where the lists
  of variable \<open>v\<close> start and how many entries belong to its negative literal. Iterators
  into the vector are positions.
\<close>

section \<open>State and queries\<close>

record cnf_formula =
  num_variables :: int
  clauses :: "clause list"
  occurrence_offset :: "(int \<times> int) list"
  clauses_with_vars :: "int list"
  max_num_breaks_possible :: int

definition num_clauses :: "cnf_formula \<Rightarrow> int" where
  "num_clauses F = int32 (int (length (clauses F)))"

definition get_clause :: "cnf_formula \<Rightarrow> int \<Rightarrow> clause option" where
  "get_clause F clause_index = vget (clauses F) clause_index"

definition get_iterators_for_clauses_with_vars ::
    "cnf_formula \<Rightarrow> int \<Rightarrow> (int \<times> int \<times> int \<times> int) option" where
  "get_iterators_for_clauses_with_vars F var_index = do {
     (offset, neg_count) \<leftarrow> vget (occurrence_offset F) var_index;
     let neg_start = offset;
     let neg_end = neg_start + neg_count;
     let pos_start = neg_end;
     (next_offset, _) \<leftarrow> vget (occurrence_offset F) (var_index + 1);
     let pos_end = next_offset;
     Some (neg_start, neg_end, pos_start, pos_end) }"

text \<open>The elements a loop \<open>for (it = a; it != b; it++)\<close> visits; both have to be
  iterators of the vector, with \<open>a\<close> not behind \<open>b\<close>.\<close>

definition iter_elems :: "cnf_formula \<Rightarrow> int \<Rightarrow> int \<Rightarrow> int list option" where
  "iter_elems F a b =
     (if 0 \<le> a \<and> a \<le> b \<and> b \<le> int (length (clauses_with_vars F))
      then Some (take (nat (b - a)) (drop (nat a) (clauses_with_vars F))) else None)"

section \<open>Well-formed formulas\<close>

text \<open>
  The clauses a literal occurs in. A formula is \<open>clean\<close> when its clauses are what the
  reader keeps: non-empty, at most 256 literals (the range of the index type), no variable
  twice, every literal in the range of the variables.
\<close>

definition occurrences :: "clause list \<Rightarrow> int \<Rightarrow> nat list" where
  "occurrences cls l = filter (\<lambda>c. l \<in> set (cls ! c)) [0..<length cls]"

definition clean_clause :: "int \<Rightarrow> clause \<Rightarrow> bool" where
  "clean_clause nv cl \<longleftrightarrow> cl \<noteq> [] \<and> length cl \<le> 256 \<and> distinct (map abs cl) \<and>
     (\<forall>l \<in> set cl. l \<noteq> 0 \<and> \<bar>l\<bar> \<le> nv)"

definition clean_clauses :: "int \<Rightarrow> clause list \<Rightarrow> bool" where
  "clean_clauses nv cls \<longleftrightarrow> (\<forall>cl \<in> set cls. clean_clause nv cl)"

text \<open>
  The occurrence lists a solver sees: the two iterator ranges of a variable are the lists of
  its negative and of its positive literal, each of which fits the counter type and the
  announced bound on the number of breaks.
\<close>

definition occurrences_ok :: "cnf_formula \<Rightarrow> bool" where
  "occurrences_ok F \<longleftrightarrow> (\<forall>v. 0 \<le> v \<and> v < num_variables F \<longrightarrow>
     (\<exists>a b d. get_iterators_for_clauses_with_vars F v = Some (a, b, b, d) \<and>
        iter_elems F a b = Some (map int (occurrences (clauses F) (- (v + 1)))) \<and>
        iter_elems F b d = Some (map int (occurrences (clauses F) (v + 1)))))"

definition formula_ok :: "cnf_formula \<Rightarrow> bool" where
  "formula_ok F \<longleftrightarrow> clean_clauses (num_variables F) (clauses F) \<and> 0 \<le> num_variables F \<and>
     num_variables F + 7 < 2 ^ 31 \<and> int (length (clauses F)) < 2 ^ 31 \<and> occurrences_ok F \<and>
     (\<forall>l. length (occurrences (clauses F) l) < 2 ^ 15 \<and>
          int (length (occurrences (clauses F) l)) \<le> max_num_breaks_possible F)"

lemma set_occurrences: "set (occurrences cls l) = {c. c < length cls \<and> l \<in> set (cls ! c)}"
  by (auto simp: occurrences_def)

lemma distinct_occurrences: "distinct (occurrences cls l)"
  by (simp add: occurrences_def)

lemma occurrences_outside:
  "clean_clauses nv cls \<Longrightarrow> l = 0 \<or> nv < \<bar>l\<bar> \<Longrightarrow> occurrences cls l = []"
proof -
  assume cls: "clean_clauses nv cls" and l: "l = 0 \<or> nv < \<bar>l\<bar>"
  have "l \<notin> set (cls ! c)" if "c < length cls" for c
  proof
    assume "l \<in> set (cls ! c)"
    moreover have "clean_clause nv (cls ! c)" using cls that by (simp add: clean_clauses_def)
    ultimately have "l \<noteq> 0 \<and> \<bar>l\<bar> \<le> nv" by (simp add: clean_clause_def)
    with l show False by simp
  qed
  then show ?thesis by (simp add: occurrences_def filter_empty_conv)
qed

lemma clean_clause_distinct: "clean_clause nv cl \<Longrightarrow> distinct cl"
  by (simp add: clean_clause_def distinct_map)

lemma clean_clause_one_polarity:
  "clean_clause nv cl \<Longrightarrow> l \<in> set cl \<Longrightarrow> l' \<in> set cl \<Longrightarrow> \<bar>l\<bar> = \<bar>l'\<bar> \<Longrightarrow> l = l'"
  by (auto simp: clean_clause_def distinct_map dest: inj_onD)

lemma num_clauses_ok: "formula_ok F \<Longrightarrow> num_clauses F = int (length (clauses F))"
  by (simp add: formula_ok_def num_clauses_def int32_id)

end
