(* ===== verification/Cnf_Constructor.thy ===== *)
theory Cnf_Constructor
  imports Cnf_Formula
begin

text \<open>
  \<open>cnf_formula_constructor_variant_cont_datastruct\<close> of \<open>sat/cnf_formula.hpp\<close>: the
  occurrence lists are laid out by a counting sort. The offsets are the prefix sums of the
  counts the reader made; then every literal is stored at the next free place of its bucket.
\<close>

section \<open>The two loops\<close>

definition offset_step ::
    "(int \<times> int) list \<Rightarrow> int \<Rightarrow> (int \<times> int) list \<times> int \<times> (int \<times> int) list \<Rightarrow> ((int \<times> int) list \<times> int \<times> (int \<times> int) list) result" where
  "offset_step count_clauses_with_vars i st = (case st of (currently_initialized, prefix_sum, offsets) \<Rightarrow>
     rbind (defined (vget count_clauses_with_vars i)) (\<lambda>(neg, pos).
     rbind (defined (vset offsets i (prefix_sum, neg))) (\<lambda>offsets'.
     let s = (neg + pos) mod 2 ^ 64 in
     rbind (require (\<not> prefix_sum mod 2 ^ 64 > (2 ^ 31 - 1 - s) mod 2 ^ 64)
       (Out_of_range ''cnf_formula: sum_t is too small!'')) (\<lambda>_.
     Inr (currently_initialized @ [(0, 0)], int32 (prefix_sum + s), offsets')))))"

definition fill_step ::
    "int \<Rightarrow> int \<Rightarrow> cnf_formula \<times> (int \<times> int) list \<Rightarrow> (cnf_formula \<times> (int \<times> int) list) option" where
  "fill_step clause_index lit st = (case st of (F, currently_initialized) \<Rightarrow> do {
     let var_index = \<bar>lit\<bar> - 1;
     (n0, n1, p0, p1) \<leftarrow> get_iterators_for_clauses_with_vars F var_index;
     (done_neg, done_pos) \<leftarrow> vget currently_initialized var_index;
     if 0 > lit then do {
       cwv \<leftarrow> vset (clauses_with_vars F) (n0 + done_neg) clause_index;
       ci \<leftarrow> vset currently_initialized var_index (int16 (done_neg + 1), done_pos);
       Some (F\<lparr>clauses_with_vars := cwv,
               max_num_breaks_possible := max (max_num_breaks_possible F) (int32 (n1 - n0))\<rparr>, ci) }
     else do {
       cwv \<leftarrow> vset (clauses_with_vars F) (p0 + done_pos) clause_index;
       ci \<leftarrow> vset currently_initialized var_index (done_neg, int16 (done_pos + 1));
       Some (F\<lparr>clauses_with_vars := cwv,
               max_num_breaks_possible := max (max_num_breaks_possible F) (int32 (p1 - p0))\<rparr>, ci) } })"

definition fill_clause ::
    "int \<Rightarrow> cnf_formula \<times> (int \<times> int) list \<Rightarrow> (cnf_formula \<times> (int \<times> int) list) option" where
  "fill_clause clause_index st = do {
     c \<leftarrow> get_clause (fst st) clause_index;
     foldM (\<lambda>i st. do { lit \<leftarrow> clause_get c i; fill_step clause_index lit st }) (clause_indices c) st }"

definition cnf_formula_constructor_variant_cont_datastruct ::
    "(int \<times> int) list \<Rightarrow> cnf_formula \<Rightarrow> cnf_formula result" where
  "cnf_formula_constructor_variant_cont_datastruct count_clauses_with_vars F =
     rbind (foldR (offset_step count_clauses_with_vars) [0..num_variables F - 1]
       ([], 0, vresize (occurrence_offset F) (nat (num_variables F + 1)) (0, 0)))
     (\<lambda>(currently_initialized, prefix_sum, offsets).
     rbind (defined (vset offsets (num_variables F) (prefix_sum, 0))) (\<lambda>offsets'.
     let F' = F\<lparr>occurrence_offset := offsets', clauses_with_vars := vresize (clauses_with_vars F) (nat prefix_sum) 0\<rparr> in
     rbind (defined (foldM fill_clause [0..num_clauses F - 1] (F', currently_initialized)))
     (\<lambda>(F'', _). Inr F'')))"

section \<open>The layout\<close>

text \<open>Where the bucket of a literal starts, and how the counts have to relate to the clauses.\<close>

definition lit_count :: "clause list \<Rightarrow> int \<Rightarrow> nat" where
  "lit_count cls l = length (occurrences cls l)"

definition bucket_offset :: "clause list \<Rightarrow> nat \<Rightarrow> nat" where
  "bucket_offset cls v = (\<Sum>j < v. lit_count cls (- int (Suc j)) + lit_count cls (int (Suc j)))"

definition bucket_start :: "clause list \<Rightarrow> int \<Rightarrow> nat" where
  "bucket_start cls l = bucket_offset cls (nat (\<bar>l\<bar> - 1)) + (if 0 > l then 0 else lit_count cls (- l))"

definition counts_ok :: "int \<Rightarrow> clause list \<Rightarrow> (int \<times> int) list \<Rightarrow> bool" where
  "counts_ok nv cls counts \<longleftrightarrow> int (length counts) = nv \<and>
     (\<forall>v < length counts. counts ! v = (int (lit_count cls (- int (Suc v))), int (lit_count cls (int (Suc v)))))"

lemma bucket_offset_Suc:
  "bucket_offset cls (Suc v) = bucket_offset cls v + lit_count cls (- int (Suc v)) + lit_count cls (int (Suc v))"
  by (simp add: bucket_offset_def)

lemma bucket_offset_mono: "v \<le> w \<Longrightarrow> bucket_offset cls v \<le> bucket_offset cls w"
  unfolding bucket_offset_def by (rule sum_mono2) auto

lemma bucket_inside:
  assumes "l \<noteq> 0" "k < lit_count cls l"
  shows "bucket_offset cls (nat (\<bar>l\<bar> - 1)) \<le> bucket_start cls l + k \<and>
    bucket_start cls l + k < bucket_offset cls (nat \<bar>l\<bar>)"
proof -
  obtain v where v: "nat \<bar>l\<bar> = Suc v" "nat (\<bar>l\<bar> - 1) = v" "l = - int (Suc v) \<or> l = int (Suc v)"
    using assms(1) that [of "nat (\<bar>l\<bar> - 1)"] by (cases "l < 0") (simp_all add: Suc_nat_eq_nat_zadd1)
  then show ?thesis using assms(2) by (auto simp: bucket_start_def bucket_offset_Suc)
qed

lemma buckets_disjoint:
  assumes "l \<noteq> 0" "l' \<noteq> 0" "k < lit_count cls l" "k' < lit_count cls l'"
    and eq: "bucket_start cls l + k = bucket_start cls l' + k'"
  shows "l = l' \<and> k = k'"
proof -
  note b = bucket_inside [OF assms(1,3)] bucket_inside [OF assms(2,4)]
  have "\<not> \<bar>l\<bar> < \<bar>l'\<bar>"
    using b eq bucket_offset_mono [of "nat \<bar>l\<bar>" "nat (\<bar>l'\<bar> - 1)" cls] by linarith
  moreover have "\<not> \<bar>l'\<bar> < \<bar>l\<bar>"
    using b eq bucket_offset_mono [of "nat \<bar>l'\<bar>" "nat (\<bar>l\<bar> - 1)" cls] by linarith
  ultimately have "l' = l \<or> l' = - l" by linarith
  then show ?thesis
    using assms by (auto simp: bucket_start_def split: if_splits)
qed

section \<open>The offsets\<close>

definition offsets_upto :: "clause list \<Rightarrow> nat \<Rightarrow> (int \<times> int) list \<Rightarrow> bool" where
  "offsets_upto cls k offsets \<longleftrightarrow>
     (\<forall>j < k. offsets ! j = (int (bucket_offset cls j), int (lit_count cls (- int (Suc j)))))"

lemma offset_iteration:
  assumes cnt: "counts_ok nv cls counts" and k: "k < nat nv" and room: "bucket_offset cls k < 2 ^ 31"
    and short: "lit_count cls (- int (Suc k)) < 2 ^ 15" "lit_count cls (int (Suc k)) < 2 ^ 15"
    and len: "length offs = Suc (nat nv)"
  shows "offset_step counts (int k) (ci, int (bucket_offset cls k), offs) =
    (if bucket_offset cls (Suc k) < 2 ^ 31
     then Inr (ci @ [(0, 0)], int (bucket_offset cls (Suc k)),
       offs[k := (int (bucket_offset cls k), int (lit_count cls (- int (Suc k))))])
     else Inl (Out_of_range ''cnf_formula: sum_t is too small!''))"
proof -
  let ?n = "int (lit_count cls (- int (Suc k)))" and ?p = "int (lit_count cls (int (Suc k)))"
  have "k < length counts" using cnt k by (auto simp: counts_ok_def)
  then have cv: "vget counts (int k) = Some (?n, ?p)" using cnt by (simp add: counts_ok_def)
  have np: "0 \<le> ?n" "?n < 2 ^ 15" "0 \<le> ?p" "?p < 2 ^ 15"
    using short by (simp_all only: of_nat_0_le_iff zless_nat_eq_int_zless of_nat_less_numeral_iff
      semiring_1_class.of_nat_power of_nat_numeral flip: of_nat_less_iff [where 'a = int])
  have s: "(?n + ?p) mod 2 ^ 64 = ?n + ?p" using np by (intro mod_pos_pos_trivial) simp_all
  have t: "int (bucket_offset cls k) mod 2 ^ 64 = int (bucket_offset cls k)"
    using room by (intro mod_pos_pos_trivial) simp_all
  have u: "(2 ^ 31 - 1 - (?n + ?p)) mod 2 ^ 64 = 2 ^ 31 - 1 - (?n + ?p)"
    using np by (intro mod_pos_pos_trivial) simp_all
  have succ: "int (bucket_offset cls (Suc k)) = int (bucket_offset cls k) + (?n + ?p)"
    by (simp only: bucket_offset_Suc of_nat_add add.assoc)
  have over: "int (bucket_offset cls k) > 2 ^ 31 - 1 - (?n + ?p) \<longleftrightarrow> \<not> bucket_offset cls (Suc k) < 2 ^ 31"
  proof -
    have "bucket_offset cls (Suc k) < 2 ^ 31 \<longleftrightarrow> int (bucket_offset cls (Suc k)) < 2 ^ 31" by simp
    with succ show ?thesis by linarith
  qed
  have narrow: "bucket_offset cls (Suc k) < 2 ^ 31 \<Longrightarrow>
      int32 (int (bucket_offset cls k) + (?n + ?p)) = int (bucket_offset cls (Suc k))"
    unfolding succ [symmetric] by (intro int32_id) simp_all
  have off: "vset offs (int k) (int (bucket_offset cls k), ?n) = Some (offs[k := (int (bucket_offset cls k), ?n)])"
    using len k by simp
  show ?thesis
    unfolding offset_step_def Let_def prod.case cv off defined_simps rbind_simps s t u over
    using narrow by (cases "bucket_offset cls (Suc k) < 2 ^ 31") simp_all
qed

lemma offset_prefix:
  assumes cnt: "counts_ok nv cls counts" and m: "m \<le> nat nv" and small: "bucket_offset cls m < 2 ^ 31"
    and short: "\<And>l. lit_count cls l < 2 ^ 15" and len: "length offs = Suc (nat nv)"
  shows "\<exists>offs'. foldR (\<lambda>i. offset_step counts (int i)) [0..<m] ([], 0, offs) =
      Inr (replicate m (0, 0), int (bucket_offset cls m), offs') \<and>
    length offs' = Suc (nat nv) \<and> offsets_upto cls m offs'"
proof -
  let ?P = "\<lambda>is (ci, sum_t, offs'). ci = replicate (length is) (0 :: int, 0 :: int) \<and>
      sum_t = int (bucket_offset cls (length is)) \<and>
      length offs' = Suc (nat nv) \<and> offsets_upto cls (length is) offs'"
  have "\<exists>st. foldR (\<lambda>i. offset_step counts (int i)) [0..<m] ([], 0, offs) = Inr st \<and> ?P [0..<m] st"
  proof (rule foldR_invariant)
    show "?P [] ([], 0, offs)" using len by (simp add: bucket_offset_def offsets_upto_def)
  next
    fix ys k zs st assume eq: "[0..<m] = ys @ k # zs" and P: "?P ys st"
    obtain ci sum_t offs1 where st: "st = (ci, sum_t, offs1)" by (cases st)
    have k: "k = length ys" "k < m" using upt_split_nth [OF eq] by blast+
    have "bucket_offset cls (Suc k) < 2 ^ 31" "bucket_offset cls k < 2 ^ 31"
      using small bucket_offset_mono [of "Suc k" m cls] bucket_offset_mono [of k m cls] k(2) by linarith+
    then have "offset_step counts (int k) st = Inr (ci @ [(0, 0)], int (bucket_offset cls (Suc k)),
        offs1[k := (int (bucket_offset cls k), int (lit_count cls (- int (Suc k))))])"
      using offset_iteration [OF cnt _ _ short short, of k offs1 ci] P st k m by auto
    moreover have "?P (ys @ [k]) (ci @ [(0, 0)], int (bucket_offset cls (Suc k)),
        offs1[k := (int (bucket_offset cls k), int (lit_count cls (- int (Suc k))))])"
      using P st k m by (auto simp: offsets_upto_def less_Suc_eq replicate_append_same)
    ultimately show "\<exists>st'. offset_step counts (int k) st = Inr st' \<and> ?P (ys @ [k]) st'" by blast
  qed
  then show ?thesis by auto
qed

lemma offset_overflow:
  assumes cnt: "counts_ok nv cls counts" and big: "2 ^ 31 \<le> bucket_offset cls (nat nv)"
    and short: "\<And>l. lit_count cls l < 2 ^ 15" and len: "length offs = Suc (nat nv)"
  shows "foldR (\<lambda>i. offset_step counts (int i)) [0..<nat nv] ([], 0, offs) =
    Inl (Out_of_range ''cnf_formula: sum_t is too small!'')"
proof -
  define m where "m = (LEAST m. 2 ^ 31 \<le> bucket_offset cls m)"
  have m: "2 ^ 31 \<le> bucket_offset cls m" "m \<le> nat nv" unfolding m_def
    by (rule LeastI [of _ "nat nv"], rule big) (rule Least_le, rule big)
  have "m \<noteq> 0" using m(1) by (intro notI) (simp add: bucket_offset_def)
  then obtain k where k: "m = Suc k" by (cases m) auto
  then have "\<not> 2 ^ 31 \<le> bucket_offset cls k" unfolding m_def by (metis lessI not_less_Least)
  then have room: "bucket_offset cls k < 2 ^ 31" by simp
  obtain offs' where pre: "foldR (\<lambda>i. offset_step counts (int i)) [0..<k] ([], 0, offs) =
      Inr (replicate k (0, 0), int (bucket_offset cls k), offs')" "length offs' = Suc (nat nv)"
    using offset_prefix [OF cnt _ room short len] m(2) k by auto
  have "[0..<nat nv] = [0..<k] @ k # [Suc k..<nat nv]"
    using m(2) k by (metis Suc_le_lessD le_add1 le_add_diff_inverse upt_add_eq_append upt_conv_Cons add_0 less_imp_le_nat)
  moreover have "offset_step counts (int k) (replicate k (0, 0), int (bucket_offset cls k), offs') =
      Inl (Out_of_range ''cnf_formula: sum_t is too small!'')"
    using offset_iteration [OF cnt _ room short short pre(2)] m k by simp
  ultimately show ?thesis by (simp add: foldR_append pre(1))
qed

section \<open>Filling the buckets\<close>

text \<open>The literals in the order the loops visit them, each with its clause.\<close>

definition lit_stream :: "clause list \<Rightarrow> (nat \<times> int) list" where
  "lit_stream cls = concat (map (\<lambda>c. map (Pair c) (cls ! c)) [0..<length cls])"

definition seen :: "(nat \<times> int) list \<Rightarrow> int \<Rightarrow> nat list" where
  "seen ps l = map fst (filter (\<lambda>p. snd p = l) ps)"

lemma seen_clause:
  "distinct cl \<Longrightarrow> seen (map (Pair c) cl) l = (if l \<in> set cl then [c] else [])"
  by (induction cl) (auto simp: seen_def)

lemma seen_stream:
  assumes "clean_clauses nv cls"
  shows "seen (lit_stream cls) l = occurrences cls l"
proof -
  have d: "distinct (cls ! c)" if "c < length cls" for c
    using assms that by (auto simp: clean_clauses_def intro: clean_clause_distinct)
  have "seen (concat (map (\<lambda>c. map (Pair c) (cls ! c)) cs)) l = filter (\<lambda>c. l \<in> set (cls ! c)) cs"
    if "\<forall>c \<in> set cs. c < length cls" for cs
    using that
  proof (induction cs)
    case (Cons c cs)
    then have "seen (map (Pair c) (cls ! c)) l = (if l \<in> set (cls ! c) then [c] else [])"
      using seen_clause [OF d [of c]] by simp
    with Cons show ?case by (simp add: seen_def)
  qed (simp add: seen_def)
  then show ?thesis by (simp add: lit_stream_def occurrences_def)
qed

text \<open>
  The layout after the literals \<open>ps\<close> were stored: the counters are the numbers of stored
  literals, and the front part of every bucket holds the clauses of its literal in order.
\<close>

definition layout :: "clause list \<Rightarrow> int \<Rightarrow> (nat \<times> int) list \<Rightarrow> cnf_formula \<Rightarrow> (int \<times> int) list \<Rightarrow> bool" where
  "layout cls nv ps F ci \<longleftrightarrow> num_variables F = nv \<and> clauses F = cls \<and>
     length (occurrence_offset F) = Suc (nat nv) \<and> offsets_upto cls (nat nv) (occurrence_offset F) \<and>
     fst (occurrence_offset F ! nat nv) = int (bucket_offset cls (nat nv)) \<and>
     length (clauses_with_vars F) = bucket_offset cls (nat nv) \<and> length ci = nat nv \<and>
     (\<forall>v < nat nv. ci ! v = (int (length (seen ps (- int (Suc v)))), int (length (seen ps (int (Suc v)))))) \<and>
     (\<forall>l k. l \<noteq> 0 \<and> \<bar>l\<bar> \<le> nv \<and> k < length (seen ps l) \<longrightarrow>
        clauses_with_vars F ! (bucket_start cls l + k) = int (seen ps l ! k)) \<and>
     (\<forall>p \<in> set ps. int (lit_count cls (snd p)) \<le> max_num_breaks_possible F) \<and> 0 \<le> max_num_breaks_possible F"

lemma layout_iterators:
  assumes "layout cls nv ps F ci" "v < nat nv"
  shows "get_iterators_for_clauses_with_vars F (int v) =
    Some (int (bucket_start cls (- int (Suc v))),
      int (bucket_start cls (- int (Suc v)) + lit_count cls (- int (Suc v))),
      int (bucket_start cls (int (Suc v))), int (bucket_start cls (int (Suc v)) + lit_count cls (int (Suc v))))"
proof -
  have "fst (occurrence_offset F ! Suc v) = int (bucket_offset cls (Suc v))"
  proof (cases "Suc v = nat nv")
    case True
    then show ?thesis using assms(1) by (simp add: layout_def)
  next
    case False
    then have "Suc v < nat nv" using assms(2) by simp
    then show ?thesis using assms(1) by (simp add: layout_def offsets_upto_def)
  qed
  moreover have "vget (occurrence_offset F) (int v + 1) = vget (occurrence_offset F) (int (Suc v))" by (simp add: add.commute)
  ultimately have "vget (occurrence_offset F) (int v + 1) =
      Some (int (bucket_offset cls (Suc v)), snd (occurrence_offset F ! Suc v))"
    using assms by (simp only: vget_nat) (simp add: layout_def prod_eq_iff)
  moreover have "vget (occurrence_offset F) (int v) =
      Some (int (bucket_offset cls v), int (lit_count cls (- int (Suc v))))"
    using assms by (simp add: layout_def offsets_upto_def)
  ultimately show ?thesis
    by (simp add: get_iterators_for_clauses_with_vars_def bucket_start_def bucket_offset_Suc Let_def)
qed

lemma seen_append: "seen (ps @ qs) l = seen ps l @ seen qs l"
  by (simp add: seen_def)

lemma seen_single: "seen [(c, l)] l' = (if l' = l then [c] else [])"
  by (simp add: seen_def)

lemma layout_write:
  assumes lay: "layout cls nv ps F ci" and l: "l \<noteq> 0" "\<bar>l\<bar> \<le> nv"
    and room: "\<And>l'. length (seen (ps @ [(c, l)]) l') \<le> lit_count cls l'"
  shows "bucket_start cls l + length (seen ps l) < length (clauses_with_vars F)"
    and "\<forall>l' k. l' \<noteq> 0 \<and> \<bar>l'\<bar> \<le> nv \<and> k < length (seen (ps @ [(c, l)]) l') \<longrightarrow>
        (clauses_with_vars F)[bucket_start cls l + length (seen ps l) := int c] ! (bucket_start cls l' + k) =
        int (seen (ps @ [(c, l)]) l' ! k)"
proof -
  let ?at = "bucket_start cls l + length (seen ps l)"
  have cap: "length (seen ps l) < lit_count cls l" using room [of l] by (simp add: seen_append seen_single)
  have "nat \<bar>l\<bar> \<le> nat nv" using l by simp
  then have "?at < bucket_offset cls (nat nv)"
    using bucket_inside [OF l(1) cap] bucket_offset_mono [of "nat \<bar>l\<bar>" "nat nv" cls] by linarith
  then show in_range: "?at < length (clauses_with_vars F)" using lay by (simp add: layout_def)
  show "\<forall>l' k. l' \<noteq> 0 \<and> \<bar>l'\<bar> \<le> nv \<and> k < length (seen (ps @ [(c, l)]) l') \<longrightarrow>
      (clauses_with_vars F)[?at := int c] ! (bucket_start cls l' + k) = int (seen (ps @ [(c, l)]) l' ! k)"
  proof (intro allI impI)
    fix l' k assume a: "l' \<noteq> 0 \<and> \<bar>l'\<bar> \<le> nv \<and> k < length (seen (ps @ [(c, l)]) l')"
    then have k: "k < lit_count cls l'" using room [of l'] by linarith
    show "(clauses_with_vars F)[?at := int c] ! (bucket_start cls l' + k) = int (seen (ps @ [(c, l)]) l' ! k)"
    proof (cases "l' = l \<and> k = length (seen ps l)")
      case True
      then show ?thesis using in_range by (simp add: seen_append seen_single)
    next
      case False
      then have "bucket_start cls l' + k \<noteq> ?at" using buckets_disjoint [OF _ l(1) k cap] a by blast
      moreover have "k < length (seen ps l')"
        using a False by (auto simp: seen_append seen_single split: if_splits)
      ultimately show ?thesis using lay a by (simp add: layout_def seen_append nth_append)
    qed
  qed
qed

lemma layout_counters:
  assumes "layout cls nv ps F ci" and v: "nat \<bar>l\<bar> = Suc v" "v < nat nv"
    and l': "d = (if 0 > l then (fst (ci ! v) + 1, snd (ci ! v)) else (fst (ci ! v), snd (ci ! v) + 1))"
  shows "\<forall>w < nat nv. ci[v := d] ! w = (int (length (seen (ps @ [(c, l)]) (- int (Suc w)))),
    int (length (seen (ps @ [(c, l)]) (int (Suc w)))))"
proof -
  have "l = - int (Suc v) \<or> l = int (Suc v)" using v(1) by linarith
  then show ?thesis
    using assms by (auto simp: layout_def seen_append seen_single nth_list_update)
qed

lemma fill_step_ok:
  assumes lay: "layout cls nv ps F ci" and l: "l \<noteq> 0" "\<bar>l\<bar> \<le> nv"
    and room: "\<And>l'. length (seen (ps @ [(c, l)]) l') \<le> lit_count cls l'"
    and small: "\<And>l'. lit_count cls l' < 2 ^ 15"
  shows "\<exists>F' ci'. fill_step (int c) l (F, ci) = Some (F', ci') \<and> layout cls nv (ps @ [(c, l)]) F' ci'"
proof -
  define v where "v = nat (\<bar>l\<bar> - 1)"
  have v: "nat \<bar>l\<bar> = Suc v" "v < nat nv" "\<bar>l\<bar> - 1 = int v" using l by (auto simp: v_def)
  let ?at = "bucket_start cls l + length (seen ps l)"
  note w = layout_write [OF lay l room]
  have ciL: "length ci = nat nv" "ci ! v = (int (length (seen ps (- int (Suc v)))), int (length (seen ps (int (Suc v)))))"
    using lay v(2) by (simp_all add: layout_def)
  have lv: "l = - int (Suc v) \<or> l = int (Suc v)" using v(1) by linarith
  have seen_small: "int (length (seen ps l)) + 1 < 2 ^ 15"
    using room [of l] small [of l] by (simp add: seen_append seen_single)
  have max: "int32 (int (lit_count cls l)) = int (lit_count cls l)"
    using small [of l] by (intro int32_id) simp_all
  have sv: "int (Suc v) - 1 = int v" and diff: "int (a + b) - int a = int b" for a b by simp_all
  let ?ci = "ci[v := if 0 > l then (fst (ci ! v) + 1, snd (ci ! v)) else (fst (ci ! v), snd (ci ! v) + 1)]"
  let ?F = "F\<lparr>clauses_with_vars := (clauses_with_vars F)[?at := int c],
    max_num_breaks_possible := max (max_num_breaks_possible F) (int (lit_count cls l))\<rparr>"
  have "fill_step (int c) l (F, ci) = Some (?F, ?ci)"
  proof (cases "0 > l")
    case True
    then have "l = - int (Suc v)" using lv by linarith
    then show ?thesis
      using True w(1) ciL v(2) seen_small max
      by (simp add: fill_step_def v(3) sv diff layout_iterators [OF lay v(2)] int16_id Let_def del: of_nat_Suc flip: of_nat_add)
  next
    case False
    then have "l = int (Suc v)" using lv by linarith
    then show ?thesis
      using False w(1) ciL v(2) seen_small max
      by (simp add: fill_step_def v(3) sv diff layout_iterators [OF lay v(2)] int16_id Let_def del: of_nat_Suc flip: of_nat_add)
  qed
  moreover have "layout cls nv (ps @ [(c, l)]) ?F ?ci"
    using lay w(2) layout_counters [OF lay v(1,2) refl, of c] by (auto simp: layout_def)
  ultimately show ?thesis by blast
qed

lemma stream_literal:
  assumes "clean_clauses nv cls" "(c, l) \<in> set (lit_stream cls)"
  shows "l \<noteq> 0 \<and> \<bar>l\<bar> \<le> nv"
  using assms by (auto simp: lit_stream_def clean_clauses_def clean_clause_def)

lemma stream_room:
  assumes "clean_clauses nv cls" "lit_stream cls = ps @ p # qs"
  shows "length (seen (ps @ [p]) l') \<le> lit_count cls l'"
proof -
  have "length (seen (ps @ [p]) l') \<le> length (seen (ps @ [p] @ qs) l')" by (simp add: seen_def)
  then show ?thesis using assms(2) seen_stream [OF assms(1), of l'] by (simp add: lit_count_def)
qed

lemma clause_loop:
  assumes "length cl \<le> 256" "\<forall>i \<in> set is. i < length cl"
  shows "foldM (\<lambda>i st. do { lit \<leftarrow> clause_get cl i; f lit st }) (map int is) st = foldM f (map ((!) cl) is) st"
  using assms(2)
proof (induction "is" arbitrary: st)
  case (Cons i "is")
  then show ?case by (cases "f (cl ! i) st") (simp_all add: vec_simps assms(1))
qed simp

lemma fill_clause_stream:
  assumes "c < length (clauses (fst st))" and "length (clauses (fst st) ! c) \<le> 256"
  shows "fill_clause (int c) st = foldM (\<lambda>(c, l). fill_step (int c) l) (map (Pair c) (clauses (fst st) ! c)) st"
  using assms clause_loop [OF assms(2), of "[0..<length (clauses (fst st) ! c)]" "fill_step (int c)" st]
  by (simp add: fill_clause_def get_clause_def clause_indices_nat foldM_map map_nth)

lemma fill_clause_ok:
  assumes cls: "clean_clauses nv cls" and small: "\<And>l. lit_count cls l < 2 ^ 15"
    and split: "lit_stream cls = ps @ map (Pair c) (cls ! c) @ qs" and c: "c < length cls"
    and lay: "layout cls nv ps (fst st) (snd st)"
  shows "\<exists>st'. fill_clause (int c) st = Some st' \<and>
    layout cls nv (ps @ map (Pair c) (cls ! c)) (fst st') (snd st')"
proof -
  have "clean_clause nv (cls ! c)" using cls c by (simp add: clean_clauses_def)
  moreover have eq: "clauses (fst st) = cls" using lay by (simp add: layout_def)
  ultimately have "fill_clause (int c) st = foldM (\<lambda>(c, l). fill_step (int c) l) (map (Pair c) (cls ! c)) st"
    using fill_clause_stream [of c st] c by (simp add: clean_clause_def)
  moreover have "\<exists>st'. foldM (\<lambda>(c, l). fill_step (int c) l) (map (Pair c) (cls ! c)) st = Some st' \<and>
      layout cls nv (ps @ map (Pair c) (cls ! c)) (fst st') (snd st')"
  proof (rule foldM_invariant [where P = "\<lambda>ys st. layout cls nv (ps @ ys) (fst st) (snd st)"])
    fix ys p zs st assume eq: "map (Pair c) (cls ! c) = ys @ p # zs" and lay: "layout cls nv (ps @ ys) (fst st) (snd st)"
    obtain d l where p: "p = (d, l)" by (cases p)
    have sp: "lit_stream cls = (ps @ ys) @ (d, l) # (zs @ qs)" using split eq p by simp
    then have "(d, l) \<in> set (lit_stream cls)" by simp
    then have "l \<noteq> 0" "\<bar>l\<bar> \<le> nv" using stream_literal [OF cls] by blast+
    from fill_step_ok [OF lay this stream_room [OF cls sp] small]
    show "\<exists>st'. (case p of (c, l) \<Rightarrow> fill_step (int c) l) st = Some st' \<and>
        layout cls nv (ps @ ys @ [p]) (fst st') (snd st')" by (auto simp: p)
  qed (use lay in simp)
  ultimately show ?thesis by simp
qed

lemma fill_loop:
  assumes cls: "clean_clauses nv cls" and small: "\<And>l. lit_count cls l < 2 ^ 15"
    and lay: "layout cls nv [] F ci"
  shows "\<exists>st. foldM fill_clause (map int [0..<length cls]) (F, ci) = Some st \<and>
    layout cls nv (lit_stream cls) (fst st) (snd st)"
proof -
  let ?lits = "\<lambda>cs. concat (map (\<lambda>c. map (Pair c) (cls ! c)) cs)"
  have "\<exists>st. foldM (\<lambda>c. fill_clause (int c)) [0..<length cls] (F, ci) = Some st \<and>
      layout cls nv (?lits [0..<length cls]) (fst st) (snd st)"
  proof (rule foldM_invariant [where P = "\<lambda>ys st. layout cls nv (?lits ys) (fst st) (snd st)"])
    fix ys c zs st assume eq: "[0..<length cls] = ys @ c # zs" and lay: "layout cls nv (?lits ys) (fst st) (snd st)"
    have "lit_stream cls = ?lits ys @ map (Pair c) (cls ! c) @ ?lits zs"
      unfolding lit_stream_def eq by simp
    from fill_clause_ok [OF cls small this _ lay] upt_split_nth [OF eq]
    show "\<exists>st'. fill_clause (int c) st = Some st' \<and> layout cls nv (?lits (ys @ [c])) (fst st') (snd st')" by simp
  qed (use lay in simp)
  then show ?thesis by (simp add: foldM_map lit_stream_def)
qed

lemma layout_bucket:
  assumes lay: "layout cls nv (lit_stream cls) F ci" and cls: "clean_clauses nv cls" and l: "l \<noteq> 0" "\<bar>l\<bar> \<le> nv"
  shows "iter_elems F (int (bucket_start cls l)) (int (bucket_start cls l + lit_count cls l)) =
    Some (map int (occurrences cls l))"
proof -
  have len: "length (clauses_with_vars F) = bucket_offset cls (nat nv)" using lay by (simp add: layout_def)
  have in_range: "bucket_start cls l + lit_count cls l \<le> length (clauses_with_vars F)"
  proof -
    obtain v where v: "nat \<bar>l\<bar> = Suc v" "l = - int (Suc v) \<or> l = int (Suc v)"
      using l(1) by (metis Suc_pred' abs_eq_iff' int_nat_eq nat_eq_iff2 zero_less_abs_iff zero_less_nat_eq abs_ge_zero)
    then have "bucket_start cls l + lit_count cls l \<le> bucket_offset cls (Suc v)"
      by (auto simp: bucket_start_def bucket_offset_Suc)
    moreover have "Suc v \<le> nat nv" using v(1) l(2) by linarith
    ultimately show ?thesis using bucket_offset_mono [of "Suc v" "nat nv" cls] len by linarith
  qed
  have "take (lit_count cls l) (drop (bucket_start cls l) (clauses_with_vars F)) = map int (occurrences cls l)"
  proof (rule nth_equalityI)
    fix k assume "k < length (take (lit_count cls l) (drop (bucket_start cls l) (clauses_with_vars F)))"
    then have k: "k < lit_count cls l" "k < length (occurrences cls l)" by (simp_all add: lit_count_def)
    then have "clauses_with_vars F ! (bucket_start cls l + k) = int (occurrences cls l ! k)"
      using lay l by (simp add: layout_def seen_stream [OF cls])
    then show "take (lit_count cls l) (drop (bucket_start cls l) (clauses_with_vars F)) ! k =
        map int (occurrences cls l) ! k" using k in_range by simp
  qed (use in_range in \<open>simp add: lit_count_def\<close>)
  then show ?thesis using in_range by (simp add: iter_elems_def)
qed

section \<open>The constructor\<close>

lemma layout_initial:
  assumes "offsets_upto cls (nat nv) offs" "length offs = Suc (nat nv)" "0 \<le> nv"
    and "num_variables F = nv" "clauses F = cls" "0 \<le> max_num_breaks_possible F"
  shows "layout cls nv []
    (F\<lparr>occurrence_offset := offs[nat nv := (int (bucket_offset cls (nat nv)), 0)],
       clauses_with_vars := vresize (clauses_with_vars F) (nat (int (bucket_offset cls (nat nv)))) 0\<rparr>)
    (replicate (nat nv) (0, 0))"
  using assms by (auto simp: layout_def seen_def offsets_upto_def)

lemma layout_formula_ok:
  assumes lay: "layout cls nv (lit_stream cls) F ci" and cls: "clean_clauses nv cls"
    and nv: "0 \<le> nv" "nv + 7 < 2 ^ 31" and m: "int (length cls) < 2 ^ 31"
    and small: "\<And>l. lit_count cls l < 2 ^ 15"
  shows "formula_ok F"
proof -
  have F: "num_variables F = nv" "clauses F = cls" "0 \<le> max_num_breaks_possible F" using lay by (simp_all add: layout_def)
  have "occurrences_ok F" unfolding occurrences_ok_def F
  proof (intro allI impI)
    fix v assume v: "0 \<le> v \<and> v < nv"
    have v': "v = int (nat v)" "nat v < nat nv" using v by simp_all
    let ?n = "- int (Suc (nat v))" and ?p = "int (Suc (nat v))"
    have lits: "- (v + 1) = ?n" "v + 1 = ?p" using v by simp_all
    have eq: "bucket_start cls ?n + lit_count cls ?n = bucket_start cls ?p" by (simp add: bucket_start_def)
    have "get_iterators_for_clauses_with_vars F v = Some (int (bucket_start cls ?n),
        int (bucket_start cls ?p), int (bucket_start cls ?p), int (bucket_start cls ?p + lit_count cls ?p))"
      using layout_iterators [OF lay v'(2)] unfolding v'(1) [symmetric] eq by simp
    moreover have "iter_elems F (int (bucket_start cls ?n)) (int (bucket_start cls ?p)) =
        Some (map int (occurrences cls (- (v + 1))))"
      using layout_bucket [OF lay cls, of ?n] v unfolding eq lits by simp
    moreover have "iter_elems F (int (bucket_start cls ?p)) (int (bucket_start cls ?p + lit_count cls ?p)) =
        Some (map int (occurrences cls (v + 1)))"
      using layout_bucket [OF lay cls, of ?p] v unfolding lits by simp
    ultimately show "\<exists>a b d. get_iterators_for_clauses_with_vars F v = Some (a, b, b, d) \<and>
        iter_elems F a b = Some (map int (occurrences cls (- (v + 1)))) \<and>
        iter_elems F b d = Some (map int (occurrences cls (v + 1)))" by blast
  qed
  moreover have "int (length (occurrences cls l)) \<le> max_num_breaks_possible F" for l
  proof (cases "occurrences cls l = []")
    case False
    then have "filter (\<lambda>p. snd p = l) (lit_stream cls) \<noteq> []"
      unfolding seen_stream [OF cls, symmetric] by (simp add: seen_def)
    then obtain p where "p \<in> set (lit_stream cls)" "snd p = l" by (auto simp: filter_empty_conv)
    with lay show ?thesis by (auto simp: layout_def lit_count_def)
  qed (use F in simp)
  ultimately show ?thesis using small cls nv m F by (simp add: formula_ok_def lit_count_def)
qed

lemma cnf_formula_constructed:
  assumes "clean_clauses (num_variables F) (clauses F)"
    and "counts_ok (num_variables F) (clauses F) counts"
    and "0 \<le> num_variables F" and "num_variables F + 7 < 2 ^ 31" and "int (length (clauses F)) < 2 ^ 31"
    and "\<forall>l. lit_count (clauses F) l < 2 ^ 15"
    and "bucket_offset (clauses F) (nat (num_variables F)) < 2 ^ 31"
    and "0 \<le> max_num_breaks_possible F"
  shows "\<exists>F'. cnf_formula_constructor_variant_cont_datastruct counts F = Inr F' \<and> formula_ok F' \<and>
    num_variables F' = num_variables F \<and> clauses F' = clauses F"
proof -
  let ?nv = "num_variables F" and ?cls = "clauses F"
  let ?offs = "vresize (occurrence_offset F) (nat (?nv + 1)) (0, 0)"
  have len: "length ?offs = Suc (nat ?nv)" using assms(3) by simp
  have small: "\<And>l. lit_count ?cls l < 2 ^ 15" using assms(6) by blast
  obtain offs where offs: "foldR (\<lambda>i. offset_step counts (int i)) [0..<nat ?nv] ([], 0, ?offs) =
      Inr (replicate (nat ?nv) (0, 0), int (bucket_offset ?cls (nat ?nv)), offs)"
    "length offs = Suc (nat ?nv)" "offsets_upto ?cls (nat ?nv) offs"
    using offset_prefix [OF assms(2) order_refl assms(7) small len] by blast
  let ?F = "F\<lparr>occurrence_offset := offs[nat ?nv := (int (bucket_offset ?cls (nat ?nv)), 0)],
      clauses_with_vars := vresize (clauses_with_vars F) (nat (int (bucket_offset ?cls (nat ?nv)))) 0\<rparr>"
  have lay: "layout ?cls ?nv [] ?F (replicate (nat ?nv) (0, 0))"
    by (rule layout_initial) (use assms(3,8) offs in simp_all)
  obtain st where st: "foldM fill_clause (map int [0..<length ?cls]) (?F, replicate (nat ?nv) (0, 0)) = Some st"
    "layout ?cls ?nv (lit_stream ?cls) (fst st) (snd st)"
    using fill_loop [OF assms(1) small lay] by blast
  have "vset offs ?nv (int (bucket_offset ?cls (nat ?nv)), 0) =
      Some (offs[nat ?nv := (int (bucket_offset ?cls (nat ?nv)), 0)])"
    using offs(2) assms(3) by (simp add: vset_def)
  moreover have "num_clauses F = int (length ?cls)" using assms(5) by (simp add: num_clauses_def int32_id)
  ultimately have "cnf_formula_constructor_variant_cont_datastruct counts F = Inr (fst st)"
    using offs(1) st(1)
    by (simp add: cnf_formula_constructor_variant_cont_datastruct_def upto_nat_upt foldR_map split_def)
  moreover have "formula_ok (fst st)"
    by (rule layout_formula_ok [OF st(2) assms(1,3,4,5) small])
  ultimately show ?thesis using st(2) by (auto simp: layout_def)
qed

text \<open>
  C16: the layout of the occurrence lists. If the counts the reader hands over are the numbers of
  occurrences of the literals in the kept clauses, and the clauses, variables and occurrences
  stay within the integer types, the constructor neither throws nor leaves a container and
  produces a well-formed formula: the iterator pair of every literal delimits exactly the
  ascending list of the clauses it occurs in, and the announced bound on the break counts
  covers every list. Previous contents of the vectors do not matter.
\<close>

theorem cnf_constructor_correct:
  assumes "clean_clauses (num_variables F) (clauses F)"
    and "counts_ok (num_variables F) (clauses F) counts"
    and "0 \<le> num_variables F" and "num_variables F + 7 < 2 ^ 31" and "int (length (clauses F)) < 2 ^ 31"
    and "\<forall>l. lit_count (clauses F) l < 2 ^ 15"
    and "bucket_offset (clauses F) (nat (num_variables F)) < 2 ^ 31"
    and "0 \<le> max_num_breaks_possible F"
  shows "\<exists>F'. cnf_formula_constructor_variant_cont_datastruct counts F = Inr F' \<and> formula_ok F' \<and>
    num_variables F' = num_variables F \<and> clauses F' = clauses F"
  using assms by (rule cnf_formula_constructed)

lemma lit_count_le: "lit_count cls l \<le> length cls"
  using length_filter_le [of _ "[0..<length cls]"] by (simp add: lit_count_def occurrences_def)

theorem cnf_constructor_correct_witness:
  "\<exists>F'. cnf_formula_constructor_variant_cont_datastruct [(1, 2), (1, 2)]
      \<lparr>num_variables = 2, clauses = [[1, 2], [-1, 2], [1, -2]], occurrence_offset = [], clauses_with_vars = [9],
       max_num_breaks_possible = 0\<rparr> = Inr F' \<and> formula_ok F'"
proof -
  let ?F = "\<lparr>num_variables = 2, clauses = [[1, 2], [-1, 2], [1, -2]], occurrence_offset = [], clauses_with_vars = [9],
       max_num_breaks_possible = 0\<rparr>"
  have "counts_ok 2 [[1, 2], [-1, 2], [1, -2]] [(1, 2), (1, 2)]"
    by (auto simp: counts_ok_def lit_count_def occurrences_def upt_rec less_Suc_eq numeral_2_eq_2)
  moreover have "bucket_offset [[1, 2], [-1, 2], [1, -2]] 2 = 6"
    by (simp add: bucket_offset_def lessThan_Suc numeral_2_eq_2 lit_count_def occurrences_def upt_rec)
  then have "bucket_offset (clauses ?F) (nat (num_variables ?F)) < 2 ^ 31" by simp
  moreover have "\<forall>l. lit_count (clauses ?F) l < 2 ^ 15"
    using le_less_trans [OF lit_count_le [of "clauses ?F"], of "2 ^ 15"] by simp
  moreover have "clean_clauses (num_variables ?F) (clauses ?F)" by (simp add: clean_clauses_def clean_clause_def)
  ultimately show ?thesis using cnf_constructor_correct [of ?F "[(1, 2), (1, 2)]"] by fastforce
qed

text \<open>
  The guard against an overflow of \<open>sum_t\<close>. If the clauses hold \<open>2 ^ 31\<close> literals or
  more, the constructor throws \<open>std::out_of_range\<close> before any offset wraps.
\<close>

theorem cnf_constructor_overflow:
  assumes "counts_ok (num_variables F) (clauses F) counts" and "0 \<le> num_variables F"
    and "\<forall>l. lit_count (clauses F) l < 2 ^ 15"
    and "2 ^ 31 \<le> bucket_offset (clauses F) (nat (num_variables F))"
  shows "cnf_formula_constructor_variant_cont_datastruct counts F =
    Inl (Out_of_range ''cnf_formula: sum_t is too small!'')"
proof -
  have "length (vresize (occurrence_offset F) (nat (num_variables F + 1)) (0, 0)) = Suc (nat (num_variables F))"
    using assms(2) by simp
  from offset_overflow [OF assms(1,4) _ this] assms(3) show ?thesis
    by (simp add: cnf_formula_constructor_variant_cont_datastruct_def upto_nat_upt foldR_map)
qed

lemma lit_count_replicate:
  "lit_count (replicate n cl) l = (if l \<in> set cl then n else 0)"
proof -
  have "filter (\<lambda>c. l \<in> set (replicate n cl ! c)) [0..<n] = filter (\<lambda>c. l \<in> set cl) [0..<n]"
    by (rule filter_cong) simp_all
  then show ?thesis by (simp add: lit_count_def occurrences_def)
qed

theorem cnf_constructor_overflow_witness:
  "cnf_formula_constructor_variant_cont_datastruct (replicate 65539 (0, 32767))
     \<lparr>num_variables = 65539, clauses = replicate 32767 (map int [1..<65540]), occurrence_offset = [],
      clauses_with_vars = [], max_num_breaks_possible = 0\<rparr> =
   Inl (Out_of_range ''cnf_formula: sum_t is too small!'')"
proof -
  let ?cls = "replicate 32767 (map int [1..<65540])"
  let ?F = "\<lparr>num_variables = 65539, clauses = ?cls, occurrence_offset = [],
      clauses_with_vars = [], max_num_breaks_possible = 0\<rparr>"
  have cnt: "lit_count ?cls l = (if l \<in> int ` {1..<65540} then 32767 else 0)" for l
    by (simp only: lit_count_replicate set_map set_upt)
  have pos: "int (Suc j) \<in> int ` {1..<65540} \<longleftrightarrow> j < 65539" "- int (Suc j) \<notin> int ` {1..<65540}" for j
    by (auto simp: image_iff intro!: bexI [of _ "Suc j"])
  have "bucket_offset ?cls 65539 = (\<Sum>j < (65539 :: nat). 32767)"
    unfolding bucket_offset_def cnt by (rule sum.cong) (simp_all only: pos lessThan_iff if_True if_False add_0)
  then have "2 ^ 31 \<le> bucket_offset (clauses ?F) (nat (num_variables ?F))" by simp
  moreover have "counts_ok (num_variables ?F) (clauses ?F) (replicate 65539 (0, 32767))"
    unfolding counts_ok_def by (simp add: cnt pos del: of_nat_Suc One_nat_def)
  moreover have "\<forall>l. lit_count (clauses ?F) l < 2 ^ 15" by (simp add: cnt del: One_nat_def)
  ultimately show ?thesis using cnf_constructor_overflow [of ?F] by simp
qed

end
