(* ===== verification/Input.thy ===== *)
theory Input
  imports Strings Cnf_Constructor
begin

text \<open>
  \<open>sat/input.hpp\<close>: reading a formula in DIMACS format. An exception inside the reader
  carries the value \<open>field\<close> had when it left, which \<open>read\<close> puts into the message of
  the nested exception it throws. \<open>VERIFY_INPUT\<close> is on and \<open>ALLOW_UNCLEAN_CLAUSES\<close>
  off, as \<open>config.hpp\<close> sets them. A failed assertion ends the program and is not caught.
\<close>

type_synonym 'a located = "(cpp_error \<times> string) + 'a"

definition located :: "string \<Rightarrow> 'a result \<Rightarrow> 'a located" where
  "located field m = (case m of Inl e \<Rightarrow> Inl (e, field) | Inr a \<Rightarrow> Inr a)"

lemma located_simps [simp]: "located f (Inl e) = Inl (e, f)" "located f (Inr a) = Inr a"
  by (simp_all add: located_def)

section \<open>The configuration line\<close>

definition verify_parameter :: "int \<Rightarrow> unit result" where
  "verify_parameter tmp =
     rbind (require (\<not> 1 > tmp) (Runtime_error ''less than one variable/clause doesn't make sense'')) (\<lambda>_.
     require (\<not> tmp \<ge> 2 ^ 31 - 1)
       (Runtime_error ''too many variables/clauses (recompile with different num_t)''))"

definition parse_configuration :: "istream \<Rightarrow> string \<Rightarrow> string \<Rightarrow> (string \<times> int \<times> int) located" where
  "parse_configuration line_iss line field =
     rbind (located field (require (starts_with line ''p cnf '')
       (Runtime_error (''invalid format: expected ' cnf num_vars num_clauses' following '' @ [CHR 0x27, CHR ''p'', CHR 0x27])))) (\<lambda>_.
     let (field, line_iss) = extract_word line_iss field;
         (field, line_iss) = extract_word line_iss field;
         (field, line_iss) = extract_word line_iss field in
     rbind (located field (stoll field)) (\<lambda>tmp.
     let num_vars = int32 tmp in
     rbind (located field (verify_parameter num_vars)) (\<lambda>_.
     let (field, line_iss) = extract_word line_iss field in
     rbind (located field (stoll field)) (\<lambda>tmp.
     let num_clauses = int32 tmp in
     rbind (located field (verify_parameter num_clauses)) (\<lambda>_.
     rbind (located field (require (is_eof line_iss)
       (Runtime_error ''invalid format: too many fields in p line''))) (\<lambda>_.
     Inr (field, num_vars, num_clauses)))))))"

section \<open>A clause line\<close>

text \<open>One literal of the first pass: its range check and the count of its variable.\<close>

definition count_literal :: "int \<Rightarrow> int \<Rightarrow> (int \<times> int) list \<Rightarrow> (int \<times> int) list result" where
  "count_literal num_vars tmp counts =
     rbind (require (tmp \<noteq> - (2 ^ 63)) Undefined_behaviour) (\<lambda>_.
     rbind (require (\<not> (0 = tmp \<or> \<bar>tmp\<bar> > num_vars)) (Out_of_range ''found nonexistent variable in clause'')) (\<lambda>_.
     let index = \<bar>tmp\<bar> - 1 in
     rbind (require (index < int (length counts)) Assertion_failed) (\<lambda>_.
     rbind (defined (vget counts index)) (\<lambda>(neg, pos).
     if 0 > tmp then
       rbind (require (neg \<noteq> 2 ^ 15 - 1) (Out_of_range ''read: cnt_t is too small!'')) (\<lambda>_.
       defined (vset counts index (neg + 1, pos)))
     else
       rbind (require (pos \<noteq> 2 ^ 15 - 1) (Out_of_range ''read: cnt_t is too small!'')) (\<lambda>_.
       defined (vset counts index (neg, pos + 1)))))))"

text \<open>The loop \<open>while (not line_iss.eof())\<close>; \<open>None\<close> would be a loop that never ends.\<close>

partial_function (option) count_fields ::
    "int \<Rightarrow> istream \<Rightarrow> string \<Rightarrow> (int \<times> int) list \<Rightarrow> nat \<Rightarrow> (istream \<times> string \<times> (int \<times> int) list \<times> nat) located option" where
  "count_fields num_vars line_iss field counts nvars =
     (if is_eof line_iss then Some (Inr (line_iss, field, counts, nvars))
      else let (field, line_iss) = getline CHR '' '' line_iss field in
        (case rbind (located field (stoll field)) (\<lambda>tmp. located field (count_literal num_vars tmp counts)) of
           Inl e \<Rightarrow> Some (Inl e)
         | Inr counts \<Rightarrow> count_fields num_vars line_iss field counts (nvars + 1)))"

definition unclean_scan :: "clause \<Rightarrow> (bool \<times> bool) option" where
  "unclean_scan new_clause =
     foldM (\<lambda>i st. do {
         lit_i \<leftarrow> clause_get new_clause i;
         foldM (\<lambda>j (is_unclean, is_always_true). do {
             lit_j \<leftarrow> clause_get new_clause j;
             Some (if \<bar>lit_i\<bar> - 1 = \<bar>lit_j\<bar> - 1 then
                     if lit_i = lit_j then (True, is_always_true) else (is_unclean, True)
                   else (is_unclean, is_always_true)) })
           [0..i - 1] st })
       (clause_indices new_clause) (False, False)"

definition parse_clause ::
    "string \<Rightarrow> string \<Rightarrow> clause list \<Rightarrow> (int \<times> int) list \<Rightarrow> int \<Rightarrow> (string \<times> clause list \<times> (int \<times> int) list) located option" where
  "parse_clause line field cls counts num_vars =
     (if \<not> ends_with line '' 0'' then
        Some (Inl (Runtime_error ''invalid format: each clause must be terminated with a 0'', field))
      else do {
        let content = str_prefix line (int (length line) - 2);
        pass \<leftarrow> count_fields num_vars (istream_of content) field counts 0;
        Some (rbind pass (\<lambda>(line_iss, field, counts, nvars).
          rbind (require (\<not> 1 > nvars) (Runtime_error ''each clause must have at least one variable'', field)) (\<lambda>_.
          let its = (if is_fail line_iss then [] else read_longs content) in
          rbind (located field (generic_clause_new its nvars)) (\<lambda>new_clause.
          rbind (located field (defined (unclean_scan new_clause))) (\<lambda>(is_unclean, is_always_true).
          if \<not> is_always_true then
            rbind (require (\<not> is_unclean) (Runtime_error ''cant process unclean clause!'', field)) (\<lambda>_.
            Inr (field, cls @ [new_clause], counts))
          else Inr (field, cls, counts)))))) })"

section \<open>Reading a file\<close>

record reader =
  rd_vars :: int
  rd_num_clauses :: int
  rd_clauses :: "clause list"
  rd_counts :: "(int \<times> int) list"
  rd_field :: string

definition read_line :: "string \<Rightarrow> reader \<Rightarrow> reader located option" where
  "read_line line r =
     (case line of
        [] \<Rightarrow> Some (Inr r)
      | c # _ \<Rightarrow>
        if c = CHR ''c'' then Some (Inr r)
        else if c = CHR ''p'' then
          Some (rbind (parse_configuration (istream_of line) line (rd_field r)) (\<lambda>(field, nv, nc).
            Inr (r\<lparr>rd_vars := nv, rd_num_clauses := nc, rd_field := field,
                   rd_counts := vresize (rd_counts r) (nat nv) (0, 0)\<rparr>)))
        else do {
          res \<leftarrow> parse_clause line (rd_field r) (rd_clauses r) (rd_counts r) (rd_vars r);
          Some (rbind res (\<lambda>(field, cls, counts).
            Inr (r\<lparr>rd_field := field, rd_clauses := cls, rd_counts := counts\<rparr>))) })"

definition catch_read :: "nat \<Rightarrow> cpp_error \<times> string \<Rightarrow> cpp_error" where
  "catch_read linectr ef = (case ef of (e, field) \<Rightarrow>
     if e = Assertion_failed \<or> e = Undefined_behaviour then e else Nested_error linectr field e)"

partial_function (option) read_loop :: "istream \<Rightarrow> string \<Rightarrow> nat \<Rightarrow> reader \<Rightarrow> reader result option" where
  "read_loop is line linectr r =
     (if is_eof is then Some (Inr r)
      else let linectr = linectr + 1; (line, is) = getline (CHR 0x0A) is line in
        (case read_line line r of
           None \<Rightarrow> None
         | Some res \<Rightarrow> (case res of Inl ef \<Rightarrow> Some (Inl (catch_read linectr ef))
             | Inr r \<Rightarrow> read_loop is line linectr r)))"

text \<open>
  The clauses and counts are the caller's vectors. A number of clauses that differs from the
  announced one is accepted, because tautologies have been dropped.
\<close>

definition read :: "istream \<Rightarrow> clause list \<Rightarrow> (int \<times> int) list \<Rightarrow> (int \<times> clause list \<times> (int \<times> int) list) result option" where
  "read is cls counts = do {
     res \<leftarrow> read_loop is [] 0 \<lparr>rd_vars = 0, rd_num_clauses = 0, rd_clauses = cls, rd_counts = counts, rd_field = []\<rparr>;
     Some (rbind res (\<lambda>r. Inr (rd_vars r, rd_clauses r, rd_counts r))) }"

text \<open>\<open>cnf_formula::initialize\<close>. A file that cannot be opened leaves the stream failed.\<close>

definition open_file :: "string option \<Rightarrow> istream" where
  "open_file file = (case file of None \<Rightarrow> \<lparr>is_rest = [], is_eof = False, is_fail = True\<rparr>
     | Some content \<Rightarrow> istream_of content)"

definition formula_new :: cnf_formula where
  "formula_new = \<lparr>num_variables = 0, clauses = [], occurrence_offset = [], clauses_with_vars = [],
     max_num_breaks_possible = 0\<rparr>"

definition initialize_formula :: "string option \<Rightarrow> cnf_formula \<Rightarrow> cnf_formula result option" where
  "initialize_formula file F = do {
     res \<leftarrow> read (open_file file) [] [];
     Some (rbind res (\<lambda>(nv, cls, counts).
       cnf_formula_constructor_variant_cont_datastruct counts (F\<lparr>num_variables := nv, clauses := cls\<rparr>))) }"

text \<open>
  With \<open>ENALBE_CNF_MULTITHREAD_SHARING\<close> (set in \<open>communication/worker.hpp\<close>) the object
  has a mutex. The lock guard around the first test releases it at the end of its block; the
  call of \<open>unlock\<close> at the end of the function is then made without holding it.
\<close>

definition mutex_unlock :: "bool \<Rightarrow> bool result" where
  "mutex_unlock held = (if held then Inr False else Inl Undefined_behaviour)"

definition initialize_shared :: "string option \<Rightarrow> cnf_formula \<Rightarrow> cnf_formula result option" where
  "initialize_shared file F =
     (if clauses F \<noteq> [] then Some (Inr F)
      else do {
        let held = False;
        res \<leftarrow> initialize_formula file F;
        Some (rbind res (\<lambda>F'. rbind (mutex_unlock held) (\<lambda>_. Inr F'))) })"

declare count_fields.simps [code] read_loop.simps [code]

end
