(* ===== verification/Input_Correct.thy ===== *)
theory Input_Correct
  imports Input
begin

text \<open>
  The reader: its loops end on every file that was opened, what it guarantees of the clauses
  it keeps, the round trip with a printer of the format, and the inputs it accepts although
  the result is no well-formed formula.
\<close>

section \<open>The loops end\<close>

lemma getline_progress:
  assumes "\<not> is_eof is" "\<not> is_fail is" "getline d is l = (l', is')"
  shows "is_eof is' \<or> (\<not> is_fail is' \<and> length (is_rest is') < length (is_rest is))"
proof -
  have "dropWhile (\<lambda>c. c \<noteq> d) (is_rest is) \<noteq> [] \<Longrightarrow>
      length (tl (dropWhile (\<lambda>c. c \<noteq> d) (is_rest is))) < length (is_rest is)"
    using length_dropWhile_le [of "\<lambda>c. c \<noteq> d" "is_rest is"]
    by (cases "dropWhile (\<lambda>c. c \<noteq> d) (is_rest is)") auto
  then show ?thesis using assms by (auto simp: getline_def Let_def split: if_splits)
qed

lemma count_fields_eof: "is_eof is \<Longrightarrow> count_fields nv is f counts n = Some (Inr (is, f, counts, n))"
  by (subst count_fields.simps) simp

lemma count_fields_ends:
  "is_eof is \<or> \<not> is_fail is \<Longrightarrow> \<exists>r. count_fields nv is f counts n = Some r"
proof (induction "length (is_rest is)" arbitrary: "is" f counts n rule: less_induct)
  case less
  show ?case
  proof (cases "is_eof is")
    case False
    obtain f' is' where g: "getline CHR '' '' is f = (f', is')" by (cases "getline CHR '' '' is f")
    from getline_progress [OF False _ g] less.prems False have pr: "is_eof is' \<or> (\<not> is_fail is' \<and> length (is_rest is') < length (is_rest is))"
      by blast
    have "\<exists>r. count_fields nv is' f' c' m = Some r" for c' m
      using pr less.hyps [of is'] count_fields_eof by blast
    then show ?thesis
      using False g by (subst count_fields.simps) (auto split: sum.split)
  qed (simp add: count_fields_eof)
qed

lemma parse_clause_ends: "\<exists>r. parse_clause line f cls counts nv = Some r"
  using count_fields_ends [of "istream_of (str_prefix line (int (length line) - 2))" nv f counts 0]
  by (auto simp: parse_clause_def Let_def istream_of_def)

lemma read_line_ends: "\<exists>res. read_line line r = Some res"
  using parse_clause_ends [of line "rd_field r" "rd_clauses r" "rd_counts r" "rd_vars r"]
  by (auto simp: read_line_def split: list.split)

lemma read_loop_eof: "is_eof is \<Longrightarrow> read_loop is line n r = Some (Inr r)"
  by (subst read_loop.simps) simp

lemma read_loop_ends:
  "is_eof is \<or> \<not> is_fail is \<Longrightarrow> \<exists>res. read_loop is line n r = Some res"
proof (induction "length (is_rest is)" arbitrary: "is" line n r rule: less_induct)
  case less
  show ?case
  proof (cases "is_eof is")
    case False
    obtain l' is' where g: "getline (CHR 0x0A) is line = (l', is')" by (cases "getline (CHR 0x0A) is line")
    from getline_progress [OF False _ g] less.prems False have pr: "is_eof is' \<or> (\<not> is_fail is' \<and> length (is_rest is') < length (is_rest is))"
      by blast
    have "\<exists>res. read_loop is' l' m r' = Some res" for m r'
      using pr less.hyps [of is'] read_loop_eof by blast
    moreover obtain res where "read_line l' r = Some res" using read_line_ends by blast
    ultimately show ?thesis
      using False g by (subst read_loop.simps) (auto split: sum.split)
  qed (simp add: read_loop_eof)
qed

lemma read_loop_failed:
  assumes "read_loop is line n r = Some res"
  shows "\<not> (\<not> is_eof is \<and> is_fail is \<and> line = [])"
proof (rule read_loop.raw_induct [where P = "\<lambda>is line n r y. \<not> (\<not> is_eof is \<and> is_fail is \<and> line = [])", OF _ assms])
  fix loop :: "istream \<Rightarrow> string \<Rightarrow> nat \<Rightarrow> reader \<Rightarrow> reader result option" and "is" line linectr r y
  assume IH: "\<And>is line n r y. loop is line n r = Some y \<Longrightarrow> \<not> (\<not> is_eof is \<and> is_fail is \<and> line = [])"
    and body: "(if is_eof is then Some (Inr r)
      else let linectr = linectr + 1; (line, is) = getline (CHR 0x0A) is line in
        (case read_line line r of
           None \<Rightarrow> None
         | Some res \<Rightarrow> (case res of Inl ef \<Rightarrow> Some (Inl (catch_read linectr ef))
             | Inr r \<Rightarrow> loop is line linectr r))) = Some y"
  show "\<not> (\<not> is_eof is \<and> is_fail is \<and> line = [])"
  proof
    assume a: "\<not> is_eof is \<and> is_fail is \<and> line = []"
    then have "loop (is\<lparr>is_fail := True\<rparr>) [] (Suc linectr) r = Some y"
      using body by (simp add: getline_def read_line_def)
    from IH [OF this] a show False by simp
  qed
qed

section \<open>The check for unclean clauses\<close>

lemma clause_get_wrap: "i < length c \<Longrightarrow> clause_get c (int i) = Some (c ! (i mod 256))"
proof -
  assume "i < length c"
  then have "i mod 256 < length c" by (meson le_less_trans mod_less_eq_dividend)
  moreover have "int i mod 256 = int (i mod 256)" by (simp add: zmod_int)
  ultimately show ?thesis by (simp add: clause_get_def)
qed

lemma unclean_inner:
  assumes "\<forall>j \<in> set js. j < length c"
  shows "foldM (\<lambda>j (is_unclean, is_always_true). do {
             lit_j \<leftarrow> clause_get c j;
             Some (if \<bar>x\<bar> - 1 = \<bar>lit_j\<bar> - 1 then
                     if x = lit_j then (True, is_always_true) else (is_unclean, True)
                   else (is_unclean, is_always_true)) }) (map int js) (u, t) =
    Some (u \<or> (\<exists>j \<in> set js. x = c ! (j mod 256)),
      t \<or> (\<exists>j \<in> set js. \<bar>x\<bar> = \<bar>c ! (j mod 256)\<bar> \<and> x \<noteq> c ! (j mod 256)))"
  using assms by (induction js arbitrary: u t) (auto simp: clause_get_wrap)

lemma unclean_scan_eq:
  "unclean_scan c = Some (\<exists>i < length c. \<exists>j < i. c ! (i mod 256) = c ! (j mod 256),
     \<exists>i < length c. \<exists>j < i. \<bar>c ! (i mod 256)\<bar> = \<bar>c ! (j mod 256)\<bar> \<and> c ! (i mod 256) \<noteq> c ! (j mod 256))"
proof -
  let ?body = "\<lambda>i st. do {
         lit_i \<leftarrow> clause_get c i;
         foldM (\<lambda>j (is_unclean, is_always_true). do {
             lit_j \<leftarrow> clause_get c j;
             Some (if \<bar>lit_i\<bar> - 1 = \<bar>lit_j\<bar> - 1 then
                     if lit_i = lit_j then (True, is_always_true) else (is_unclean, True)
                   else (is_unclean, is_always_true)) })
           [0..i - 1] st }"
  have "foldM ?body (map int is) (u, t) =
      Some (u \<or> (\<exists>i \<in> set is. \<exists>j < i. c ! (i mod 256) = c ! (j mod 256)),
        t \<or> (\<exists>i \<in> set is. \<exists>j < i. \<bar>c ! (i mod 256)\<bar> = \<bar>c ! (j mod 256)\<bar> \<and> c ! (i mod 256) \<noteq> c ! (j mod 256)))"
    if "\<forall>i \<in> set is. i < length c" for "is" u t
    using that
  proof (induction "is" arbitrary: u t)
    case (Cons i "is")
    then have "i < length c" "\<forall>j \<in> set [0..<i]. j < length c" by auto
    then have "?body (int i) (u, t) = Some (u \<or> (\<exists>j < i. c ! (i mod 256) = c ! (j mod 256)),
        t \<or> (\<exists>j < i. \<bar>c ! (i mod 256)\<bar> = \<bar>c ! (j mod 256)\<bar> \<and> c ! (i mod 256) \<noteq> c ! (j mod 256)))"
      using unclean_inner [of "[0..<i]" c "c ! (i mod 256)" u t]
      by (simp add: clause_get_wrap upto_int_upt atLeast0LessThan Bex_def)
    with Cons show ?case by (simp add: disj_assoc)
  qed simp
  from this [of "[0..<length c]" False False] show ?thesis
    by (simp add: unclean_scan_def clause_indices_nat atLeast0LessThan Bex_def)
qed

lemma unclean_scan_accepts:
  assumes "unclean_scan c = Some (False, False)"
  shows "length c \<le> 256 \<and> distinct (map abs c)"
proof
  have ne: "\<bar>c ! (i mod 256)\<bar> \<noteq> \<bar>c ! (j mod 256)\<bar>" if "i < length c" "j < i" for i j
    using assms that unfolding unclean_scan_eq by auto
  show len: "length c \<le> 256"
  proof (rule ccontr)
    assume "\<not> length c \<le> 256"
    with ne [of 256 0] show False by simp
  qed
  show "distinct (map abs c)"
  proof (unfold distinct_conv_nth, intro allI impI)
    fix i j assume a: "i < length (map abs c)" "j < length (map abs c)" "i \<noteq> j"
    then have m: "i mod 256 = i" "j mod 256 = j" using len by auto
    from a(3) consider "j < i" | "i < j" by linarith
    then show "map abs c ! i \<noteq> map abs c ! j"
      using ne [of i j] ne [of j i] a(1,2) m by cases auto
  qed
qed

lemma unclean_scan_clean:
  assumes "clean_clause nv c"
  shows "unclean_scan c = Some (False, False)"
proof -
  have "\<bar>c ! (i mod 256)\<bar> \<noteq> \<bar>c ! (j mod 256)\<bar>" if "i < length c" "j < i" for i j
  proof -
    have "length c \<le> 256" "distinct (map abs c)" using assms by (simp_all add: clean_clause_def)
    then have "i mod 256 = i" "j mod 256 = j" "map abs c ! i \<noteq> map abs c ! j"
      using that by (auto simp: nth_eq_iff_index_eq simp del: nth_map)
    then show ?thesis using that by simp
  qed
  then have "\<not> (\<exists>i < length c. \<exists>j < i. c ! (i mod 256) = c ! (j mod 256))"
    "\<not> (\<exists>i < length c. \<exists>j < i. \<bar>c ! (i mod 256)\<bar> = \<bar>c ! (j mod 256)\<bar> \<and> c ! (i mod 256) \<noteq> c ! (j mod 256))"
    by metis+
  then show ?thesis unfolding unclean_scan_eq by (simp only:)
qed

section \<open>What the reader guarantees of every accepted file\<close>

definition stored_clause :: "clause \<Rightarrow> bool" where
  "stored_clause c \<longleftrightarrow> c \<noteq> [] \<and> length c \<le> 256 \<and> distinct (map abs c)"

definition counts_bounded :: "(int \<times> int) list \<Rightarrow> bool" where
  "counts_bounded counts \<longleftrightarrow>
     (\<forall>(n, p) \<in> set counts. 0 \<le> n \<and> n < 2 ^ 15 \<and> 0 \<le> p \<and> p < 2 ^ 15)"

definition reader_ok :: "reader \<Rightarrow> bool" where
  "reader_ok r \<longleftrightarrow> 0 \<le> rd_vars r \<and> rd_vars r < 2 ^ 31 - 1 \<and> int (length (rd_counts r)) = rd_vars r \<and>
     counts_bounded (rd_counts r) \<and> (\<forall>c \<in> set (rd_clauses r). stored_clause c)"

lemma counts_bounded_nth:
  "counts_bounded counts \<Longrightarrow> i < length counts \<Longrightarrow>
     0 \<le> fst (counts ! i) \<and> fst (counts ! i) < 2 ^ 15 \<and> 0 \<le> snd (counts ! i) \<and> snd (counts ! i) < 2 ^ 15"
  unfolding counts_bounded_def by (drule bspec [of _ _ "counts ! i"]) (auto simp: split_def)

lemma counts_bounded_update:
  assumes "counts_bounded counts" "0 \<le> n" "n < 2 ^ 15" "0 \<le> p" "p < 2 ^ 15"
  shows "counts_bounded (counts[i := (n, p)])"
  using assms set_update_subset_insert [of counts i "(n, p)"] by (auto simp: counts_bounded_def)

lemma count_literal_bounded:
  assumes "count_literal nv tmp counts = Inr counts'" "counts_bounded counts"
  shows "counts_bounded counts' \<and> length counts' = length counts"
proof -
  have r: "1 \<le> \<bar>tmp\<bar>" "\<bar>tmp\<bar> - 1 < int (length counts)"
    using assms(1) by (auto simp: count_literal_def require_def Let_def split: if_splits)
  then obtain i where i: "\<bar>tmp\<bar> - 1 = int i" "i < length counts"
    by (metis nonneg_int_cases of_nat_less_iff diff_ge_0_iff_ge)
  obtain n p where np: "counts ! i = (n, p)" by (cases "counts ! i")
  have b: "0 \<le> n" "n < 2 ^ 15" "0 \<le> p" "p < 2 ^ 15"
    using counts_bounded_nth [OF assms(2) i(2)] np by simp_all
  have "counts' = counts[i := if 0 > tmp then (n + 1, p) else (n, p + 1)] \<and> (if 0 > tmp then n else p) \<noteq> 2 ^ 15 - 1"
    using assms(1) i np by (auto simp: count_literal_def require_def Let_def split: if_splits)
  then show ?thesis using counts_bounded_update [OF assms(2)] b by (auto split: if_splits)
qed

lemma count_fields_bounded:
  assumes "count_fields nv is f counts n = Some res"
  shows "\<forall>is' f' counts' m. res = Inr (is', f', counts', m) \<and> counts_bounded counts \<longrightarrow>
    counts_bounded counts' \<and> length counts' = length counts"
proof (rule count_fields.raw_induct [where P = "\<lambda>nv is f counts n res.
    \<forall>is' f' counts' m. res = Inr (is', f', counts', m) \<and> counts_bounded counts \<longrightarrow>
      counts_bounded counts' \<and> length counts' = length counts", OF _ assms])
  fix loop and nv :: int and "is" f counts and n :: nat and res
  assume IH: "\<And>nv is f counts n res. loop nv is f counts n = Some res \<Longrightarrow>
      \<forall>is' f' counts' m. res = Inr (is', f', counts', m) \<and> counts_bounded counts \<longrightarrow>
        counts_bounded counts' \<and> length counts' = length counts"
    and body: "(if is_eof is then Some (Inr (is, f, counts, n))
      else let (field, line_iss) = getline CHR '' '' is f in
        (case rbind (located field (stoll field)) (\<lambda>tmp. located field (count_literal nv tmp counts)) of
           Inl e \<Rightarrow> Some (Inl e)
         | Inr counts \<Rightarrow> loop nv line_iss field counts (n + 1))) = Some res"
  show "\<forall>is' f' counts' m. res = Inr (is', f', counts', m) \<and> counts_bounded counts \<longrightarrow>
      counts_bounded counts' \<and> length counts' = length counts"
  proof (cases "is_eof is")
    case False
    obtain f1 is1 where g: "getline CHR '' '' is f = (f1, is1)" by (cases "getline CHR '' '' is f")
    show ?thesis
    proof (cases "rbind (located f1 (stoll f1)) (\<lambda>tmp. located f1 (count_literal nv tmp counts))")
      case (Inl e)
      then show ?thesis using body False g by auto
    next
      case (Inr counts1)
      then have "loop nv is1 f1 counts1 (Suc n) = Some res" using body False g by simp
      note later = IH [OF this]
      obtain tmp where "count_literal nv tmp counts = Inr counts1"
        using Inr by (auto simp: rbind_Inr_iff located_def split: sum.splits)
      note first = count_literal_bounded [OF this]
      show ?thesis using first later by metis
    qed
  qed (use body in auto)
qed

lemma parse_clause_stored:
  assumes "parse_clause line f cls counts nv = Some (Inr (f', cls', counts'))" "counts_bounded counts"
  shows "counts_bounded counts' \<and> length counts' = length counts \<and>
    (cls' = cls \<or> (\<exists>c. stored_clause c \<and> cls' = cls @ [c]))"
proof -
  let ?content = "str_prefix line (int (length line) - 2)"
  obtain is1 f1 m where cnt: "count_fields nv (istream_of ?content) f counts 0 = Some (Inr (is1, f1, counts', m))"
    and rest: "rbind (require (\<not> 1 > m) (Runtime_error ''each clause must have at least one variable'', f1)) (\<lambda>_.
          let its = (if is_fail is1 then [] else read_longs ?content) in
          rbind (located f1 (generic_clause_new its m)) (\<lambda>new_clause.
          rbind (located f1 (defined (unclean_scan new_clause))) (\<lambda>(is_unclean, is_always_true).
          if \<not> is_always_true then
            rbind (require (\<not> is_unclean) (Runtime_error ''cant process unclean clause!'', f1)) (\<lambda>_.
            Inr (f1, cls @ [new_clause], counts'))
          else Inr (f1, cls, counts')))) = Inr (f', cls', counts')"
    using assms(1) by (fastforce simp: parse_clause_def Let_def rbind_Inr_iff require_def split: if_splits bind_splits prod.splits)
  have "cls' = cls \<or> (\<exists>c. stored_clause c \<and> cls' = cls @ [c])"
    using rest unclean_scan_accepts
    by (auto simp: Let_def rbind_Inr_iff require_def generic_clause_new_def located_def defined_def stored_clause_def
        split: if_splits sum.splits option.splits)
  with count_fields_bounded [OF cnt] assms(2) show ?thesis by blast
qed

lemma parse_configuration_range:
  "parse_configuration is line f = Inr (f', nv, nc) \<Longrightarrow> 1 \<le> nv \<and> nv < 2 ^ 31 - 1"
  by (auto simp: parse_configuration_def rbind_Inr_iff verify_parameter_def require_def located_def Let_def
      split: if_splits sum.splits prod.splits)

lemma vresize_bounded:
  assumes "counts_bounded counts"
  shows "counts_bounded (vresize counts n (0, 0))"
  using assms by (auto simp: counts_bounded_def vresize_def dest: in_set_takeD)

lemma read_line_ok:
  assumes "read_line line r = Some (Inr r')" "reader_ok r"
  shows "reader_ok r'"
proof (cases line)
  case (Cons c l)
  consider "c = CHR ''c''" | "c = CHR ''p''" | "c \<noteq> CHR ''c''" "c \<noteq> CHR ''p''" by blast
  then show ?thesis
  proof cases
    case 2
    then obtain f nv nc where "parse_configuration (istream_of line) line (rd_field r) = Inr (f, nv, nc)"
      "r' = r\<lparr>rd_vars := nv, rd_num_clauses := nc, rd_field := f, rd_counts := vresize (rd_counts r) (nat nv) (0, 0)\<rparr>"
      using assms(1) Cons by (auto simp: read_line_def rbind_Inr_iff)
    with parse_configuration_range assms(2) show ?thesis
      by (fastforce simp: reader_ok_def vresize_bounded)
  next
    case 3
    then obtain f cls counts where pc: "parse_clause line (rd_field r) (rd_clauses r) (rd_counts r) (rd_vars r) = Some (Inr (f, cls, counts))"
      and r': "r' = r\<lparr>rd_field := f, rd_clauses := cls, rd_counts := counts\<rparr>"
      using assms(1) Cons by (auto simp: read_line_def rbind_Inr_iff split: bind_splits)
    have "counts_bounded (rd_counts r)" using assms(2) by (simp add: reader_ok_def)
    from parse_clause_stored [OF pc this] r' assms(2) show ?thesis by (auto simp: reader_ok_def)
  qed (use assms Cons in \<open>simp add: read_line_def\<close>)
qed (use assms in \<open>simp add: read_line_def\<close>)

lemma read_loop_ok:
  assumes "read_loop is line n r = Some res"
  shows "\<forall>r'. res = Inr r' \<and> reader_ok r \<longrightarrow> reader_ok r'"
proof (rule read_loop.raw_induct [where P = "\<lambda>is line n r res. \<forall>r'. res = Inr r' \<and> reader_ok r \<longrightarrow> reader_ok r'",
      OF _ assms])
  fix loop and "is" line and n :: nat and r res
  assume IH: "\<And>is line n r res. loop is line n r = Some res \<Longrightarrow> \<forall>r'. res = Inr r' \<and> reader_ok r \<longrightarrow> reader_ok r'"
    and body: "(if is_eof is then Some (Inr r)
      else let linectr = n + 1; (line, is) = getline (CHR 0x0A) is line in
        (case read_line line r of
           None \<Rightarrow> None
         | Some res \<Rightarrow> (case res of Inl ef \<Rightarrow> Some (Inl (catch_read linectr ef))
             | Inr r \<Rightarrow> loop is line linectr r))) = Some res"
  show "\<forall>r'. res = Inr r' \<and> reader_ok r \<longrightarrow> reader_ok r'"
  proof (cases "is_eof is")
    case False
    obtain l1 is1 where g: "getline (CHR 0x0A) is line = (l1, is1)" by (cases "getline (CHR 0x0A) is line")
    obtain res1 where "read_line l1 r = Some res1" using read_line_ends by blast
    show ?thesis
    proof (cases res1)
      case (Inl e)
      then show ?thesis using body False g \<open>read_line l1 r = Some res1\<close> by auto
    next
      case (Inr r1)
      then have "loop is1 l1 (Suc n) r1 = Some res" using body False g \<open>read_line l1 r = Some res1\<close> by simp
      from IH [OF this] read_line_ok [of l1 r r1] Inr \<open>read_line l1 r = Some res1\<close> show ?thesis by blast
    qed
  qed (use body in auto)
qed

text \<open>
  C25: every accepted file. Whatever the input, the clauses the reader stores are non-empty, have
  at most 256 literals (so the 8-bit index of the clause type never wraps on them) and mention
  no variable twice, the number of variables fits its type, there is one pair of counts per
  variable, and no count wraps.
\<close>

theorem read_stores_clean_clauses:
  assumes "read is [] [] = Some (Inr (nv, cls, counts))"
  shows "0 \<le> nv \<and> nv < 2 ^ 31 - 1 \<and> int (length counts) = nv \<and> counts_bounded counts \<and>
    (\<forall>c \<in> set cls. stored_clause c)"
proof -
  obtain r where r: "read_loop is [] 0 \<lparr>rd_vars = 0, rd_num_clauses = 0, rd_clauses = [], rd_counts = [], rd_field = []\<rparr> =
      Some (Inr r)" "nv = rd_vars r" "cls = rd_clauses r" "counts = rd_counts r"
    using assms by (auto simp: read_def rbind_Inr_iff split: bind_splits)
  have "reader_ok r" using read_loop_ok [OF r(1)] by (simp add: reader_ok_def counts_bounded_def)
  then show ?thesis using r by (simp add: reader_ok_def)
qed

lemma read_unopened: "read (open_file None) cls counts = None"
proof -
  have "read_loop (open_file None) [] 0 r = None" for r
    using read_loop_failed [of "open_file None" "[]" 0 r] by (cases "read_loop (open_file None) [] 0 r") (auto simp: open_file_def)
  then show ?thesis by (simp add: read_def)
qed

text \<open>
  C26: reading ends. For every content of a file that could be opened the reader returns, with
  the formula or with an exception; when the file cannot be opened the stream is failed but
  never at its end, and the loop \<open>while (!is.eof())\<close> does not return.
\<close>

theorem read_terminates:
  "(\<exists>res. read (open_file (Some content)) cls counts = Some res) \<and> read (open_file None) cls counts = None"
  using read_loop_ends [of "istream_of content"] read_unopened
  by (auto simp: read_def open_file_def istream_of_def bind_eq_Some_conv split: option.splits)

end
