(* ===== verification/Dimacs.thy ===== *)
theory Dimacs
  imports Input_Correct
begin

text \<open>
  The format as a printer, and the round trip: what the reader makes of a printed formula.
\<close>

section \<open>Printing\<close>

fun show_nat :: "nat \<Rightarrow> string" where
  "show_nat n = (if n < 10 then [char_of (48 + n)] else show_nat (n div 10) @ [char_of (48 + n mod 10)])"

declare show_nat.simps [simp del]

definition show_int :: "int \<Rightarrow> string" where
  "show_int i = (if i < 0 then CHR ''-'' # show_nat (nat (- i)) else show_nat (nat i))"

definition show_lits :: "int list \<Rightarrow> string" where
  "show_lits ls = concat (map (\<lambda>l. CHR '' '' # show_int l) ls)"

definition clause_line :: "clause \<Rightarrow> string" where
  "clause_line cl = tl (show_lits cl) @ '' 0''"

definition config_line :: "int \<Rightarrow> int \<Rightarrow> string" where
  "config_line nv nc = ''p cnf '' @ show_int nv @ CHR '' '' # show_int nc"

definition dimacs :: "int \<Rightarrow> clause list \<Rightarrow> string" where
  "dimacs nv cls = concat (map (\<lambda>l. l @ [CHR 0x0A]) (config_line nv (int (length cls)) # map clause_line cls))"

section \<open>Numbers\<close>

lemma digit_char:
  "d < 10 \<Longrightarrow> is_digit (char_of (48 + d)) \<and> digit_val (char_of (48 + d)) = int d"
  by (simp add: is_digit_def digit_val_def)

lemma show_nat_digits: "\<forall>c \<in> set (show_nat n). is_digit c"
  by (induction n rule: show_nat.induct) (subst show_nat.simps, auto simp: digit_char)

lemma show_nat_val: "digits_val (show_nat n) = int n"
proof (induction n rule: show_nat.induct)
  case (1 n)
  show ?case
  proof (cases "n < 10")
    case True
    then show ?thesis by (subst show_nat.simps) (simp add: digits_val_def digit_char)
  next
    case False
    then have "digits_val (show_nat n) = 10 * int (n div 10) + int (n mod 10)"
      using 1 by (subst show_nat.simps) (simp add: digits_val_def digit_char)
    then show ?thesis by (simp flip: of_nat_mult of_nat_add) (metis mult.commute div_mult_mod_eq of_nat_numeral of_nat_mult of_nat_add)
  qed
qed

lemma show_nat_hd:
  "\<exists>d :: nat. \<exists>cs. show_nat n = char_of (48 + d) # cs \<and> d < 10 \<and> (0 < n \<longrightarrow> 0 < d)"
proof (induction n rule: show_nat.induct)
  case (1 n)
  show ?case
  proof (cases "n < 10")
    case True
    then show ?thesis by (subst show_nat.simps) (auto intro!: exI [of _ n])
  next
    case False
    with 1 obtain d :: nat and cs where "show_nat (n div 10) = char_of (48 + d) # cs" "d < 10" "0 < d" by fastforce
    with False show ?thesis by (subst show_nat.simps) (auto intro!: exI [of _ d])
  qed
qed

lemma digit_not_space: "is_digit c \<Longrightarrow> \<not> is_space c \<and> c \<noteq> CHR '' '' \<and> c \<noteq> CHR 0x0A \<and> c \<noteq> CHR ''-'' \<and> c \<noteq> CHR ''+'' \<and> c \<noteq> CHR ''c'' \<and> c \<noteq> CHR ''p''"
  by (auto simp: is_digit_def is_space_def)

lemma show_int_chars: "\<forall>c \<in> set (show_int i). is_digit c \<or> c = CHR ''-''"
  using show_nat_digits by (auto simp: show_int_def)

lemma show_int_cases:
  assumes "i \<noteq> 0"
  obtains c cs where "show_int i = c # cs" "c \<noteq> CHR ''0''" "is_digit c \<or> c = CHR ''-''"
proof (cases "i < 0")
  case True
  then show ?thesis using that by (simp add: show_int_def)
next
  case False
  then obtain d :: nat and cs where d: "show_nat (nat i) = char_of (48 + d) # cs" "d < 10" "0 < d"
    using show_nat_hd [of "nat i"] assms by auto
  have "char_of (48 + d) \<noteq> CHR ''0''"
  proof
    assume "char_of (48 + d) = CHR ''0''"
    then have "(of_char (char_of (48 + d) :: char) :: nat) = of_char CHR ''0''" by simp
    then show False using d(2,3) by simp
  qed
  then show ?thesis using that [of "char_of (48 + d)" cs] False d digit_char [of d] by (simp add: show_int_def)
qed

lemma dropWhile_head: "xs \<noteq> [] \<Longrightarrow> \<not> P (hd xs) \<Longrightarrow> dropWhile P xs = xs"
  by (cases xs) auto

lemma span_digits:
  assumes "\<forall>c \<in> set ds. is_digit c" "rest = [] \<or> \<not> is_digit (hd rest)"
  shows "takeWhile is_digit (ds @ rest) = ds" "dropWhile is_digit (ds @ rest) = rest"
  using assms by (cases rest; auto)+

lemma scan_long_show:
  assumes "rest = [] \<or> \<not> is_digit (hd rest)"
  shows "scan_long (show_int i @ rest) = Some (i, rest)"
proof -
  let ?n = "nat \<bar>i\<bar>"
  obtain d :: nat and cs where n: "show_nat ?n = char_of (48 + d) # cs" "d < 10" using show_nat_hd by blast
  have dg: "is_digit (hd (show_nat ?n))" "show_nat ?n \<noteq> []" using n digit_char by simp_all
  note sp = span_digits [OF show_nat_digits [of ?n] assms]
  show ?thesis
  proof (cases "i < 0")
    case True
    then have "scan_sign (dropWhile is_space (show_int i @ rest)) = (True, show_nat ?n @ rest)"
      by (simp add: show_int_def scan_sign_def is_space_def)
    then show ?thesis using True dg sp by (simp add: scan_long_def show_nat_val)
  next
    case False
    then have s: "show_int i = show_nat ?n" by (simp add: show_int_def)
    have "scan_sign (dropWhile is_space (show_int i @ rest)) = (False, show_nat ?n @ rest)"
      using n(1) digit_not_space [of "char_of (48 + d)"] digit_char [OF n(2)]
      unfolding s by (simp add: scan_sign_def)
    then show ?thesis using False dg sp by (simp add: scan_long_def show_nat_val)
  qed
qed

lemma stoll_show: "is_long i \<Longrightarrow> stoll (show_int i) = Inr i"
  using scan_long_show [of "[]" i] by (simp add: stoll_def)

section \<open>A clause line\<close>

lemma show_lits_Cons: "show_lits (l # ls) = CHR '' '' # show_int l @ show_lits ls"
  by (simp add: show_lits_def)

lemma no_space: "\<forall>c \<in> set (show_int i). c \<noteq> CHR '' '' \<and> c \<noteq> CHR 0x0A"
  using show_int_chars [of i] digit_not_space by auto

lemma find_skip:
  "\<forall>c \<in> set t. c \<noteq> d \<Longrightarrow> str_find (t @ r) (d # q) = map_option ((+) (length t)) (str_find r (d # q))"
  by (induction t) (cases "str_find r (d # q)"; auto)+

lemma find_terminator:
  "\<forall>l \<in> set ls. l \<noteq> 0 \<Longrightarrow> str_find (show_lits ls @ '' 0'') '' 0'' = Some (length (show_lits ls))"
proof (induction ls)
  case (Cons l ls)
  obtain c cs where c: "show_int l = c # cs" "c \<noteq> CHR ''0''" using show_int_cases [of l] Cons.prems by (metis list.set_intros(1))
  have "str_find (show_int l @ show_lits ls @ '' 0'') '' 0'' = Some (length (show_int l) + length (show_lits ls))"
    using Cons no_space [of l] by (subst find_skip) auto
  then show ?case using c by (simp add: show_lits_Cons)
qed (simp add: show_lits_def)

lemma clause_line_eq: "cl = l # ls \<Longrightarrow> clause_line cl = (show_int l @ show_lits ls) @ '' 0''"
  by (simp add: clause_line_def show_lits_Cons)

lemma show_nat_length: "length (show_nat n) \<le> n + 1"
proof (induction n rule: show_nat.induct)
  case (1 n)
  then show ?case by (subst show_nat.simps) auto
qed

lemma show_lits_length:
  assumes "\<forall>l \<in> set ls. \<bar>l\<bar> < 2 ^ 31"
  shows "length (show_lits ls) \<le> length ls * (2 ^ 31 + 2)"
  using assms
proof (induction ls)
  case (Cons l ls)
  have "length (show_int l) \<le> nat \<bar>l\<bar> + 2"
    using show_nat_length [of "nat (- l)"] show_nat_length [of "nat l"] by (auto simp: show_int_def)
  moreover have "nat \<bar>l\<bar> + 1 \<le> 2 ^ 31" using Cons.prems by (auto simp: nat_le_iff)
  ultimately show ?case using Cons by (simp add: show_lits_Cons)
qed (simp add: show_lits_def)

lemma clause_line_parts:
  assumes "\<forall>l \<in> set (l # ls). l \<noteq> 0" and len: "length (clause_line (l # ls)) < 2 ^ 63"
  shows "ends_with (clause_line (l # ls)) '' 0''"
    and "str_prefix (clause_line (l # ls)) (int (length (clause_line (l # ls))) - 2) = show_int l @ show_lits ls"
proof -
  let ?n = "length (show_int l @ show_lits ls)"
  have "str_find (clause_line (l # ls)) '' 0'' = Some ?n"
    using find_terminator [of ls] assms no_space [of l]
    unfolding clause_line_eq [OF refl] append_assoc by (subst find_skip) auto
  moreover have n: "length (clause_line (l # ls)) = ?n + 2" by (simp add: clause_line_eq [OF refl])
  moreover have m: "int ?n mod 2 ^ 64 = int ?n" using len n by (intro mod_pos_pos_trivial) auto
  ultimately show "ends_with (clause_line (l # ls)) '' 0''"
    by (simp add: ends_with_def find_pos_def del: length_append)
  show "str_prefix (clause_line (l # ls)) (int (length (clause_line (l # ls))) - 2) = show_int l @ show_lits ls"
    using m n by (simp add: str_prefix_def Let_def clause_line_eq [OF refl] del: length_append) (simp add: clause_line_eq [OF refl])
qed

section \<open>The two passes over a clause line\<close>

definition counted :: "int \<Rightarrow> int list \<Rightarrow> (int \<times> int) list \<Rightarrow> bool" where
  "counted nv ps counts \<longleftrightarrow> int (length counts) = nv \<and>
     (\<forall>v < length counts. counts ! v = (int (count_list ps (- int (Suc v))), int (count_list ps (int (Suc v)))))"

lemma count_literal_counted:
  assumes c: "counted nv ps counts" and l: "1 \<le> \<bar>l\<bar>" "\<bar>l\<bar> \<le> nv" "nv < 2 ^ 31" and room: "count_list (ps @ [l]) l < 2 ^ 15"
  shows "\<exists>counts'. count_literal nv l counts = Inr counts' \<and> counted nv (ps @ [l]) counts'"
proof -
  define v where "v = nat (\<bar>l\<bar> - 1)"
  have v: "\<bar>l\<bar> - 1 = int v" "v < length counts" using l c by (auto simp: v_def counted_def)
  have lv: "l = - int (Suc v) \<or> l = int (Suc v)" using v(1) l(1) by linarith
  let ?n = "int (count_list ps (- int (Suc v)))" and ?p = "int (count_list ps (int (Suc v)))"
  have cv: "counts ! v = (?n, ?p)" using c v(2) by (simp add: counted_def)
  have "\<bar>l\<bar> < 2 ^ 63" using l(2,3) by simp
  then have nmin: "l \<noteq> - (2 ^ 63)" by auto
  have sm: "0 > l \<Longrightarrow> ?n \<noteq> 2 ^ 15 - 1" "\<not> 0 > l \<Longrightarrow> ?p \<noteq> 2 ^ 15 - 1" using room lv by auto
  let ?counts = "counts[v := if 0 > l then (?n + 1, ?p) else (?n, ?p + 1)]"
  have "count_literal nv l counts = Inr ?counts"
    using nmin l v cv sm by (auto simp: count_literal_def require_def Let_def)
  moreover have "counted nv (ps @ [l]) ?counts"
    using c lv v(2) cv by (auto simp: counted_def nth_list_update)
  ultimately show ?thesis by blast
qed

lemma getline_lits:
  "getline CHR '' '' \<lparr>is_rest = show_int l @ show_lits ls, is_eof = False, is_fail = False\<rparr> f =
    (case ls of [] \<Rightarrow> (show_int l, \<lparr>is_rest = [], is_eof = True, is_fail = False\<rparr>)
     | l' # ls' \<Rightarrow> (show_int l, \<lparr>is_rest = show_int l' @ show_lits ls', is_eof = False, is_fail = False\<rparr>))"
proof -
  have td: "takeWhile (\<lambda>c. c \<noteq> CHR '' '') (show_int l @ r) = show_int l @ takeWhile (\<lambda>c. c \<noteq> CHR '' '') r"
    "dropWhile (\<lambda>c. c \<noteq> CHR '' '') (show_int l @ r) = dropWhile (\<lambda>c. c \<noteq> CHR '' '') r" for r
    using no_space [of l] by (simp_all add: takeWhile_append dropWhile_append)
  have ne: "show_int l \<noteq> []" using show_nat_hd [of "nat (- l)"] show_nat_hd [of "nat l"] by (auto simp: show_int_def)
  show ?thesis
    using no_space [of l] td [of "[]"] td ne
    by (cases ls) (simp_all add: getline_def Let_def show_lits_Cons, simp_all add: show_lits_def)
qed

lemma count_fields_show:
  assumes "counted nv ps counts" "\<forall>k \<in> set (l # ls). 1 \<le> \<bar>k\<bar> \<and> \<bar>k\<bar> \<le> nv" "nv < 2 ^ 31"
    and "\<And>k. count_list (ps @ l # ls) k < 2 ^ 15"
  shows "\<exists>is' f' counts'. count_fields nv \<lparr>is_rest = show_int l @ show_lits ls, is_eof = False, is_fail = False\<rparr> f counts n =
      Some (Inr (is', f', counts', n + length (l # ls))) \<and> \<not> is_fail is' \<and> counted nv (ps @ l # ls) counts'"
  using assms
proof (induction ls arbitrary: l ps counts f n)
  case Nil
  have "is_long l" using Nil.prems(2,3) by (auto simp: is_long_def)
  moreover obtain counts' where "count_literal nv l counts = Inr counts'" "counted nv (ps @ [l]) counts'"
    using count_literal_counted [OF Nil.prems(1) _ _ Nil.prems(3), of l] Nil.prems(2) Nil.prems(4) [of l] by auto
  ultimately show ?case
    by (subst count_fields.simps) (simp add: getline_lits stoll_show count_fields_eof)
next
  case (Cons l' ls)
  have "is_long l" using Cons.prems(2,3) by (auto simp: is_long_def)
  moreover have "count_list (ps @ [l]) l < 2 ^ 15" using Cons.prems(4) [of l] by simp
  then obtain counts1 where c1: "count_literal nv l counts = Inr counts1" "counted nv (ps @ [l]) counts1"
    using count_literal_counted [OF Cons.prems(1) _ _ Cons.prems(3), of l] Cons.prems(2) by auto
  have "count_list ((ps @ [l]) @ l' # ls) k < 2 ^ 15" for k using Cons.prems(4) [of k] by simp
  from Cons.IH [OF c1(2) _ Cons.prems(3) this, of "show_int l" "Suc n"] Cons.prems(2)
  obtain is' f' counts' where "count_fields nv \<lparr>is_rest = show_int l' @ show_lits ls, is_eof = False, is_fail = False\<rparr>
      (show_int l) counts1 (Suc n) = Some (Inr (is', f', counts', Suc n + length (l' # ls)))"
    "\<not> is_fail is'" "counted nv ((ps @ [l]) @ l' # ls) counts'" by auto
  ultimately show ?case using c1(1)
    by (subst count_fields.simps) (simp add: getline_lits stoll_show)
qed

lemma read_longs_show:
  assumes "\<forall>k \<in> set ls. is_long k"
  shows "read_longs (show_lits ls) = ls" and "is_long l \<Longrightarrow> read_longs (show_int l @ show_lits ls) = l # ls"
proof -
  have sc: "scan_long (show_int k @ show_lits ks) = Some (k, show_lits ks)" for k ks
    by (rule scan_long_show) (cases ks; simp add: show_lits_def is_digit_def)
  have sp: "scan_long (CHR '' '' # s) = scan_long s" for s by (simp add: scan_long_def is_space_def)
  show all: "read_longs (show_lits ls) = ls" using assms
  proof (induction ls)
    case Nil
    then show ?case by (simp add: read_longs.simps show_lits_def scan_long_def scan_sign_def)
  next
    case (Cons k ks)
    then show ?case by (subst read_longs.simps) (simp add: show_lits_Cons sp sc)
  qed
  show "is_long l \<Longrightarrow> read_longs (show_int l @ show_lits ls) = l # ls"
    by (subst read_longs.simps) (simp add: sc all)
qed

lemma parse_clause_show:
  assumes cl: "clean_clause nv cl" and nv: "nv < 2 ^ 31 - 1" and cnt: "counted nv ps counts"
    and room: "\<And>k. count_list (ps @ cl) k < 2 ^ 15"
  shows "\<exists>f' counts'. parse_clause (clause_line cl) f cls counts nv = Some (Inr (f', cls @ [cl], counts')) \<and>
    counted nv (ps @ cl) counts'"
proof -
  obtain l ls where ls: "cl = l # ls" using cl by (cases cl) (auto simp: clean_clause_def)
  have r: "\<forall>k \<in> set (l # ls). 1 \<le> \<bar>k\<bar> \<and> \<bar>k\<bar> \<le> nv" "length ls < 256"
    using cl ls by (auto simp: clean_clause_def)
  then have b: "\<forall>k \<in> set (l # ls). \<bar>k\<bar> < 2 ^ 31 - 1" "\<forall>k \<in> set (l # ls). k \<noteq> 0" using nv by auto
  then have lng: "is_long l" "\<forall>k \<in> set ls. is_long k" by (auto simp: is_long_def)
  have i32: "map int32 cl = cl" using b unfolding ls by (intro map_idI int32_id) auto
  have "length (show_lits cl) \<le> length cl * (2 ^ 31 + 2)" using b unfolding ls by (intro show_lits_length) auto
  also have "\<dots> \<le> 256 * (2 ^ 31 + 2)" using r ls by (intro mult_right_mono) auto
  finally have len: "length (clause_line (l # ls)) < 2 ^ 63" using ls by (simp add: clause_line_eq [OF refl] show_lits_Cons)
  note parts = clause_line_parts [OF b(2) len]
  obtain is' f' counts' where c: "count_fields nv (istream_of (show_int l @ show_lits ls)) f counts 0 =
      Some (Inr (is', f', counts', length (l # ls)))" "\<not> is_fail is'" "counted nv (ps @ l # ls) counts'"
    using count_fields_show [OF cnt r(1), where f = f and n = 0] nv room ls by (auto simp: istream_of_def)
  have "generic_clause_new (read_longs (show_int l @ show_lits ls)) (length (l # ls)) = Inr cl"
    using read_longs_show(2) [OF lng(2,1)] i32 ls by (simp add: generic_clause_new_def)
  then show ?thesis
    using parts c unclean_scan_clean [OF cl] ls by (simp add: parse_clause_def Let_def)
qed

section \<open>A whole file\<close>

lemma getline_line:
  assumes "\<forall>c \<in> set l. c \<noteq> CHR 0x0A"
  shows "getline (CHR 0x0A) (istream_of (l @ CHR 0x0A # rest)) line = (l, istream_of rest)"
  using assms by (simp add: getline_def istream_of_def Let_def takeWhile_append dropWhile_append)

lemma read_loop_line:
  assumes "\<forall>c \<in> set l. c \<noteq> CHR 0x0A" "read_line l r = Some (Inr r')"
  shows "read_loop (istream_of (l @ CHR 0x0A # rest)) line n r = read_loop (istream_of rest) l (Suc n) r'"
  using assms by (subst read_loop.simps) (simp add: getline_line, simp add: istream_of_def)

lemma read_loop_end: "read_loop (istream_of []) line n r = Some (Inr r)"
  by (subst read_loop.simps) (simp add: getline_def istream_of_def read_line_def read_loop_eof)

lemma show_lits_no_newline: "\<forall>c \<in> set (show_lits ls). c \<noteq> CHR 0x0A"
  using no_space by (induction ls) (auto simp: show_lits_def)

lemma clause_line_newline: "cl \<noteq> [] \<Longrightarrow> \<forall>c \<in> set (clause_line cl). c \<noteq> CHR 0x0A"
  using show_lits_no_newline [of cl] by (cases cl) (auto simp: clause_line_def show_lits_Cons)

lemma read_line_clause:
  assumes cl: "clean_clause nv cl" and nv: "nv < 2 ^ 31 - 1" and cnt: "counted nv ps (rd_counts r)"
    and room: "\<And>k. count_list (ps @ cl) k < 2 ^ 15" and v: "rd_vars r = nv"
  shows "\<exists>f' counts'. read_line (clause_line cl) r =
      Some (Inr (r\<lparr>rd_field := f', rd_clauses := rd_clauses r @ [cl], rd_counts := counts'\<rparr>)) \<and>
    counted nv (ps @ cl) counts'"
proof -
  obtain l ls where ls: "cl = l # ls" "l \<noteq> 0" using cl by (cases cl) (auto simp: clean_clause_def)
  obtain c cs where "show_int l = c # cs" "is_digit c \<or> c = CHR ''-''" using show_int_cases [OF ls(2)] by metis
  then have "clause_line cl = c # cs @ show_lits ls @ '' 0''" "c \<noteq> CHR ''c''" "c \<noteq> CHR ''p''"
    using digit_not_space [of c] ls by (auto simp: clause_line_eq [OF refl])
  moreover obtain f' counts' where "parse_clause (clause_line cl) (rd_field r) (rd_clauses r) (rd_counts r) nv =
      Some (Inr (f', rd_clauses r @ [cl], counts'))" "counted nv (ps @ cl) counts'"
    using parse_clause_show [OF cl nv cnt room] by blast
  ultimately show ?thesis using v by (intro exI [of _ f'] exI [of _ counts']) (simp add: read_line_def)
qed

lemma read_loop_clauses:
  assumes "\<forall>cl \<in> set cls. clean_clause nv cl" "nv < 2 ^ 31 - 1" "counted nv ps (rd_counts r)" "rd_vars r = nv"
    and "\<And>k. count_list (ps @ concat cls) k < 2 ^ 15"
  shows "\<exists>r'. read_loop (istream_of (concat (map (\<lambda>cl. clause_line cl @ [CHR 0x0A]) cls))) line n r = Some (Inr r') \<and>
    rd_vars r' = nv \<and> rd_clauses r' = rd_clauses r @ cls \<and> counted nv (ps @ concat cls) (rd_counts r')"
  using assms
proof (induction cls arbitrary: ps r line n)
  case (Cons cl cls)
  have cl: "clean_clause nv cl" using Cons.prems(1) by simp
  have "count_list (ps @ cl) k < 2 ^ 15" for k using Cons.prems(5) [of k] by simp
  then obtain f' counts' where l: "read_line (clause_line cl) r =
      Some (Inr (r\<lparr>rd_field := f', rd_clauses := rd_clauses r @ [cl], rd_counts := counts'\<rparr>))"
    "counted nv (ps @ cl) counts'"
    using read_line_clause [OF cl Cons.prems(2,3) _ Cons.prems(4)] by blast
  have nl: "\<forall>c \<in> set (clause_line cl). c \<noteq> CHR 0x0A"
    using cl by (intro clause_line_newline) (simp add: clean_clause_def)
  have "count_list ((ps @ cl) @ concat cls) k < 2 ^ 15" for k using Cons.prems(5) [of k] by simp
  from Cons.IH [OF _ Cons.prems(2) _ _ this, of "r\<lparr>rd_field := f', rd_clauses := rd_clauses r @ [cl], rd_counts := counts'\<rparr>"
      "clause_line cl" "Suc n"] l(2) Cons.prems(1,4)
  show ?case using read_loop_line [OF nl l(1)] by simp
qed (simp add: read_loop_end)

lemma extract_word_token:
  assumes "\<forall>c \<in> set sp. is_space c" "t \<noteq> []" "\<forall>c \<in> set t. \<not> is_space c" "r = [] \<or> is_space (hd r)"
  shows "extract_word \<lparr>is_rest = sp @ t @ r, is_eof = False, is_fail = False\<rparr> f =
    (t, \<lparr>is_rest = r, is_eof = (r = []), is_fail = False\<rparr>)"
proof -
  have "dropWhile is_space (sp @ t @ r) = t @ r" using assms(1-3) by (cases t) (simp_all add: dropWhile_append)
  moreover have "takeWhile (\<lambda>c. \<not> is_space c) (t @ r) = t" "dropWhile (\<lambda>c. \<not> is_space c) (t @ r) = r"
    using assms(3,4) by (cases r; simp add: takeWhile_append dropWhile_append)+
  ultimately show ?thesis using assms(2) by (simp add: extract_word_def Let_def)
qed

lemma show_int_word: "show_int i \<noteq> []" "\<forall>c \<in> set (show_int i). \<not> is_space c"
proof -
  show "show_int i \<noteq> []" using show_nat_hd [of "nat (- i)"] show_nat_hd [of "nat i"] by (auto simp: show_int_def)
  show "\<forall>c \<in> set (show_int i). \<not> is_space c"
  proof
    fix c assume "c \<in> set (show_int i)"
    then have "is_digit c \<or> c = CHR ''-''" using show_int_chars by blast
    then show "\<not> is_space c" using digit_not_space [of c] by (auto simp: is_space_def)
  qed
qed

lemma parse_configuration_show:
  assumes "1 \<le> nv" "nv < 2 ^ 31 - 1" "1 \<le> nc" "nc < 2 ^ 31 - 1"
  shows "parse_configuration (istream_of (config_line nv nc)) (config_line nv nc) f = Inr (show_int nc, nv, nc)"
proof -
  let ?A = "show_int nv" and ?B = "show_int nc"
  have st: "starts_with (config_line nv nc) ''p cnf ''" by (simp add: starts_with_def config_line_def find_pos_def)
  have l: "config_line nv nc = [] @ ''p'' @ '' cnf '' @ ?A @ CHR '' '' # ?B"
    by (simp add: config_line_def)
  have e1: "extract_word (istream_of (config_line nv nc)) f = (''p'', \<lparr>is_rest = '' cnf '' @ ?A @ CHR '' '' # ?B, is_eof = False, is_fail = False\<rparr>)"
    unfolding l istream_of_def by (subst extract_word_token) (simp_all add: is_space_def)
  have e2: "extract_word \<lparr>is_rest = '' cnf '' @ ?A @ CHR '' '' # ?B, is_eof = False, is_fail = False\<rparr> g =
      (''cnf'', \<lparr>is_rest = '' '' @ ?A @ CHR '' '' # ?B, is_eof = False, is_fail = False\<rparr>)" for g
    using extract_word_token [of "'' ''" "''cnf''" "'' '' @ ?A @ CHR '' '' # ?B" g] by (simp add: is_space_def)
  have e3: "extract_word \<lparr>is_rest = '' '' @ ?A @ CHR '' '' # ?B, is_eof = False, is_fail = False\<rparr> g =
      (?A, \<lparr>is_rest = '' '' @ ?B, is_eof = False, is_fail = False\<rparr>)" for g
    using extract_word_token [of "'' ''" ?A "'' '' @ ?B" g] show_int_word by (simp add: is_space_def)
  have e4: "extract_word \<lparr>is_rest = '' '' @ ?B, is_eof = False, is_fail = False\<rparr> g =
      (?B, \<lparr>is_rest = [], is_eof = True, is_fail = False\<rparr>)" for g
    using extract_word_token [of "'' ''" ?B "[]" g] show_int_word by (simp add: is_space_def)
  have "stoll ?A = Inr nv" "stoll ?B = Inr nc" "int32 nv = nv" "int32 nc = nc"
    using assms by (simp_all add: stoll_show is_long_def int32_id)
  then show ?thesis
    using st e1 e2 e3 e4 assms by (simp add: parse_configuration_def Let_def verify_parameter_def)
qed

lemma count_list_concat:
  assumes "clean_clauses nv cls"
  shows "count_list (concat cls) l = lit_count cls l"
proof -
  have "map snd (lit_stream cls) = concat cls"
    by (simp add: lit_stream_def map_concat comp_def map_nth)
  then have "count_list (concat cls) l = length (filter ((=) l) (map snd (lit_stream cls)))"
    by (simp add: count_list_eq_length_filter)
  moreover have "((=) l) \<circ> snd = (\<lambda>p :: nat \<times> int. snd p = l)" by auto
  ultimately have "count_list (concat cls) l = length (seen (lit_stream cls) l)" by (simp add: seen_def filter_map)
  then show ?thesis using seen_stream [OF assms] by (simp add: lit_count_def)
qed

lemma read_dimacs:
  assumes "clean_clauses nv cls" "1 \<le> nv" "nv < 2 ^ 31 - 1" "1 \<le> length cls" "int (length cls) < 2 ^ 31 - 1"
    and room: "\<forall>l. lit_count cls l < 2 ^ 15"
  shows "\<exists>counts. read (istream_of (dimacs nv cls)) [] [] = Some (Inr (nv, cls, counts)) \<and> counts_ok nv cls counts"
proof -
  let ?nc = "int (length cls)"
  let ?r0 = "\<lparr>rd_vars = 0, rd_num_clauses = 0, rd_clauses = [], rd_counts = [], rd_field = []\<rparr>"
  let ?r1 = "\<lparr>rd_vars = nv, rd_num_clauses = ?nc, rd_clauses = [], rd_counts = vresize [] (nat nv) (0, 0), rd_field = show_int ?nc\<rparr>"
  have nl: "\<forall>c \<in> set (config_line nv ?nc). c \<noteq> CHR 0x0A" using no_space by (auto simp: config_line_def)
  have "1 \<le> ?nc" using assms(4) by simp
  from parse_configuration_show [OF assms(2,3) this assms(5)]
  have p: "read_line (config_line nv ?nc) ?r0 = Some (Inr ?r1)" by (simp add: read_line_def) (simp add: config_line_def)
  have cls: "\<forall>cl \<in> set cls. clean_clause nv cl" using assms(1) by (simp add: clean_clauses_def)
  have c0: "counted nv [] (rd_counts ?r1)" using assms(2) by (simp add: counted_def vresize_def)
  have "count_list ([] @ concat cls) k < 2 ^ 15" for k using count_list_concat [OF assms(1)] room by simp
  from read_loop_clauses [OF cls assms(3) c0 _ this, of "config_line nv ?nc" "Suc 0"] obtain r' where
    "read_loop (istream_of (concat (map (\<lambda>cl. clause_line cl @ [CHR 0x0A]) cls))) (config_line nv ?nc) (Suc 0) ?r1 = Some (Inr r')"
    "rd_vars r' = nv" "rd_clauses r' = cls" "counted nv (concat cls) (rd_counts r')" by auto
  moreover have "read_loop (istream_of (dimacs nv cls)) [] 0 ?r0 =
      read_loop (istream_of (concat (map (\<lambda>cl. clause_line cl @ [CHR 0x0A]) cls))) (config_line nv ?nc) (Suc 0) ?r1"
    using read_loop_line [OF nl p] by (simp add: dimacs_def comp_def)
  ultimately show ?thesis
    using count_list_concat [OF assms(1)] by (auto simp: read_def counts_ok_def counted_def)
qed

text \<open>
  C17: the round trip. A formula in normal form (every clause non-empty, at most 256 literals, no
  variable twice, all variables in range) that is printed in the DIMACS format is read back
  unchanged, and the counts the reader keeps on the way are the numbers of occurrences the
  layout of the formula needs.
\<close>

theorem dimacs_roundtrip:
  assumes "clean_clauses nv cls" and "1 \<le> nv" and "nv < 2 ^ 31 - 1" and "1 \<le> length cls"
    and "int (length cls) < 2 ^ 31 - 1" and "\<forall>l. lit_count cls l < 2 ^ 15"
  shows "\<exists>counts. read (istream_of (dimacs nv cls)) [] [] = Some (Inr (nv, cls, counts)) \<and> counts_ok nv cls counts"
  using assms by (rule read_dimacs)

lemma example_clauses:
  "clean_clauses 2 [[1, 2], [-1, 2], [1, -2]]" "\<forall>l. lit_count [[1, 2], [-1, 2], [1, -2]] l < 2 ^ 15"
  "bucket_offset [[1, 2], [-1, 2], [1, -2]] 2 < 2 ^ 31"
proof -
  show "clean_clauses 2 [[1, 2], [-1, 2], [1, -2]]" by (simp add: clean_clauses_def clean_clause_def)
  show "\<forall>l. lit_count [[1, 2], [-1, 2], [1, -2]] l < 2 ^ 15"
    using le_less_trans [OF lit_count_le [of "[[1, 2], [-1, 2], [1, -2]]"], of "2 ^ 15"] by simp
  have "bucket_offset [[1, 2], [-1, 2], [1, -2]] 2 = 6"
    by (simp add: bucket_offset_def lessThan_Suc numeral_2_eq_2 lit_count_def occurrences_def upt_rec)
  then show "bucket_offset [[1, 2], [-1, 2], [1, -2]] 2 < 2 ^ 31" by simp
qed

theorem dimacs_roundtrip_witness:
  "\<exists>counts. read (istream_of (dimacs 2 [[1, 2], [-1, 2], [1, -2]])) [] [] =
     Some (Inr (2, [[1, 2], [-1, 2], [1, -2]], counts))"
  using dimacs_roundtrip [OF example_clauses(1) _ _ _ _ example_clauses(2)] by auto

lemma initialize_formula_printed:
  assumes "clean_clauses nv cls" and "1 \<le> nv" and "nv + 7 < 2 ^ 31" and "1 \<le> length cls"
    and "int (length cls) < 2 ^ 31 - 1" and "\<forall>l. lit_count cls l < 2 ^ 15"
    and "bucket_offset cls (nat nv) < 2 ^ 31"
  shows "\<exists>F. initialize_formula (Some (dimacs nv cls)) formula_new = Some (Inr F) \<and> formula_ok F \<and>
    num_variables F = nv \<and> clauses F = cls"
proof -
  have "nv < 2 ^ 31 - 1" using assms(3) by simp
  from read_dimacs [OF assms(1,2) this assms(4-6)] obtain counts where
    "read (istream_of (dimacs nv cls)) [] [] = Some (Inr (nv, cls, counts))" "counts_ok nv cls counts" by blast
  moreover have "\<exists>F. cnf_formula_constructor_variant_cont_datastruct counts (formula_new\<lparr>num_variables := nv, clauses := cls\<rparr>) = Inr F \<and>
      formula_ok F \<and> num_variables F = nv \<and> clauses F = cls"
    if "counts_ok nv cls counts"
    using cnf_formula_constructed [of "formula_new\<lparr>num_variables := nv, clauses := cls\<rparr>" counts] assms that
    by (simp add: formula_new_def)
  ultimately show ?thesis by (auto simp: initialize_formula_def open_file_def)
qed

text \<open>
  C18: from the file to the solver's data. Initialising a formula from a printed file in normal
  form, within the limits of the integer types, yields a formula with correct occurrence lists;
  so all properties of the solver apply to it.
\<close>

theorem initialize_formula_correct:
  assumes "clean_clauses nv cls" and "1 \<le> nv" and "nv + 7 < 2 ^ 31" and "1 \<le> length cls"
    and "int (length cls) < 2 ^ 31 - 1" and "\<forall>l. lit_count cls l < 2 ^ 15"
    and "bucket_offset cls (nat nv) < 2 ^ 31"
  shows "\<exists>F. initialize_formula (Some (dimacs nv cls)) formula_new = Some (Inr F) \<and> formula_ok F \<and>
    num_variables F = nv \<and> clauses F = cls"
  using assms by (rule initialize_formula_printed)

theorem initialize_formula_correct_witness:
  "\<exists>F. initialize_formula (Some (dimacs 2 [[1, 2], [-1, 2], [1, -2]])) formula_new = Some (Inr F) \<and> formula_ok F"
  using initialize_formula_correct [OF example_clauses(1) _ _ _ _ example_clauses(2)] example_clauses(3) by auto

end
