(* ===== verification/Assignment_Store.thy ===== *)
theory Assignment_Store
  imports Prelude
begin

text \<open>
  The interface through which the solver uses its assignment (\<open>belegung_t\<close> of
  \<open>sat/instance.hpp\<close>): a read \<open>belegung[i]\<close> on a constant object and a write
  \<open>belegung[i] = v\<close>, with the laws the solver relies on. \<open>vector<bool>\<close>, the
  alternative of the same declaration, provides it here; \<open>Bitfield\<close> provides it
  for the packed bit vector that is compiled in.
\<close>

locale assignment_store =
  fixes invar :: "'s \<Rightarrow> bool"
    and abs :: "'s \<Rightarrow> bool list"
    and rd :: "'s \<Rightarrow> int \<Rightarrow> bool option"
    and wr :: "'s \<Rightarrow> int \<Rightarrow> bool \<Rightarrow> 's option"
  assumes rd_in: "invar s \<Longrightarrow> i < length (abs s) \<Longrightarrow> rd s (int i) = Some (abs s ! i)"
    and wr_in: "invar s \<Longrightarrow> i < length (abs s) \<Longrightarrow>
      \<exists>s'. wr s (int i) v = Some s' \<and> invar s' \<and> abs s' = (abs s)[i := v]"
begin

lemma rd_in_int:
  "invar s \<Longrightarrow> 0 \<le> i \<Longrightarrow> i < int (length (abs s)) \<Longrightarrow> rd s i = Some (abs s ! nat i)"
  using rd_in [of s "nat i"] by simp

lemma wr_in_int:
  "invar s \<Longrightarrow> 0 \<le> i \<Longrightarrow> i < int (length (abs s)) \<Longrightarrow>
     \<exists>s'. wr s i v = Some s' \<and> invar s' \<and> abs s' = (abs s)[nat i := v]"
  using wr_in [of s "nat i" v] by simp

lemma rd_after_wr:
  assumes "invar s" "i < length (abs s)" "j < length (abs s)" "wr s (int i) v = Some s'"
  shows "rd s' (int j) = (if j = i then Some v else rd s (int j))"
proof -
  have "invar s'" "abs s' = (abs s)[i := v]"
    using wr_in [OF assms(1,2), of v] assms(4) by auto
  with assms(1-3) show ?thesis by (simp add: rd_in nth_list_update)
qed

text \<open>The initialisation loop: one drawn value per position, in order.\<close>

lemma fill_prefix:
  assumes "invar s" "m \<le> length (abs s)"
  shows "\<exists>s'. foldM (\<lambda>i (s, g). let (v, g') = nxt g in do { s' \<leftarrow> wr s i v; Some (s', g') })
           (map int [0..<m]) (s, g) = Some (s', snd (draws nxt m g)) \<and> invar s' \<and>
         abs s' = fst (draws nxt m g) @ drop m (abs s)"
  using assms(2)
proof (induction m)
  case 0
  then show ?case using assms(1) by simp
next
  case (Suc m)
  then obtain s1 where s1:
    "foldM (\<lambda>i (s, g). let (v, g') = nxt g in do { s' \<leftarrow> wr s i v; Some (s', g') })
       (map int [0..<m]) (s, g) = Some (s1, snd (draws nxt m g))"
    "invar s1" "abs s1 = fst (draws nxt m g) @ drop m (abs s)"
    by auto
  obtain v g' where nx: "nxt (snd (draws nxt m g)) = (v, g')" by fastforce
  have "m < length (abs s1)" using s1(3) Suc.prems by simp
  from wr_in [OF s1(2) this] obtain s2 where
    "wr s1 (int m) v = Some s2" "invar s2" "abs s2 = (abs s1)[m := v]" by blast
  moreover from this s1(3) Suc.prems have "abs s2 = (fst (draws nxt m g) @ [v]) @ drop (Suc m) (abs s)"
    by (simp add: list_update_append Cons_nth_drop_Suc [symmetric])
  ultimately show ?case
    using s1(1) nx by (simp add: foldM_append split_def Let_def)
qed

lemma fill:
  assumes "invar s" "int (length (abs s)) = n"
  shows "\<exists>s'. foldM (\<lambda>i (s, g). let (v, g') = nxt g in do { s' \<leftarrow> wr s i v; Some (s', g') })
           [0..n - 1] (s, g) = Some (s', snd (draws nxt (nat n) g)) \<and> invar s' \<and>
         abs s' = fst (draws nxt (nat n) g)"
  using fill_prefix [OF assms(1) order_refl, of nxt g] assms(2)
  by (auto simp: upto_nat_upt)

end

interpretation vb: assignment_store "\<lambda>_. True" "\<lambda>v. v" vget vset
  by unfold_locales simp_all

end
