(* ===== verification/Bitfield.thy ===== *)
theory Bitfield
  imports Assignment_Store
begin

unbundle bit_operations_syntax

text \<open>
  \<open>util/bitfield.hpp\<close>: the packed bit vector that stores the current assignment
  (\<open>sat/instance.hpp\<close> selects it with \<open>#ifdef USE_BITFIELD\<close>). A write goes
  through a reference to \<open>last_mod_value\<close> and reaches the bytes only at the next
  non-constant access, so the abstraction reads the pending write. The bytes of a new field
  are not initialised: \<open>junk\<close> stands for what the memory held.
\<close>

section \<open>State and operations\<close>

record bitfield =
  bf_length :: int
  last_mod_index :: int
  last_mod_value :: bool
  bf_array :: "8 word list"

definition to_bytelength :: "int \<Rightarrow> int" where
  "to_bytelength l = drop_bit 3 (l + 7)"

definition bf_get :: "bitfield \<Rightarrow> int \<Rightarrow> bool option" where
  "bf_get b index = do {
     w \<leftarrow> vget (bf_array b) (drop_bit 3 index);
     Some (1 AND drop_bit (nat (index AND 7)) w \<noteq> 0) }"

definition bf_set :: "bitfield \<Rightarrow> int \<Rightarrow> bool \<Rightarrow> bitfield option" where
  "bf_set b index value = do {
     let mask = push_bit (nat (index AND 7)) (1 :: 8 word);
     arr \<leftarrow> (if value then vmodify (bf_array b) (drop_bit 3 index) (\<lambda>w. w OR mask)
            else vmodify (bf_array b) (drop_bit 3 index) (\<lambda>w. w AND NOT mask));
     Some (b\<lparr>bf_array := arr\<rparr>) }"

definition bf_update :: "bitfield \<Rightarrow> bitfield option" where
  "bf_update b =
     (if last_mod_index b < bf_length b then do {
        b' \<leftarrow> bf_set b (last_mod_index b) (last_mod_value b);
        Some (b'\<lparr>last_mod_index := bf_length b'\<rparr>) }
      else Some b)"

definition bf_default :: bitfield where
  "bf_default = \<lparr>bf_length = 0, last_mod_index = 0, last_mod_value = False, bf_array = []\<rparr>"

definition bf_new :: "(nat \<Rightarrow> 8 word) \<Rightarrow> int \<Rightarrow> bitfield option" where
  "bf_new junk n =
     (if n + 7 < 2 ^ 31
      then Some \<lparr>bf_length = n, last_mod_index = n, last_mod_value = False,
                 bf_array = (if 0 < n then map junk [0..<nat (to_bytelength n)] else [])\<rparr>
      else None)"

definition bf_copy :: "(nat \<Rightarrow> 8 word) \<Rightarrow> bitfield \<Rightarrow> bitfield option" where
  "bf_copy junk other = do {
     let arr = (if 0 < bf_length other then map junk [0..<nat (to_bytelength (bf_length other))] else []);
     arr' \<leftarrow> foldM (\<lambda>i a. do { w \<leftarrow> vget (bf_array other) i; vset a i w })
               [0..to_bytelength (bf_length other) - 1] arr;
     Some \<lparr>bf_length = bf_length other, last_mod_index = last_mod_index other,
           last_mod_value = last_mod_value other, bf_array = arr'\<rparr> }"

definition bf_swap :: "bitfield \<Rightarrow> bitfield \<Rightarrow> bitfield \<times> bitfield" where
  "bf_swap a b =
     (a\<lparr>last_mod_index := last_mod_index b, last_mod_value := last_mod_value b, bf_array := bf_array b\<rparr>,
      b\<lparr>last_mod_index := last_mod_index a, last_mod_value := last_mod_value a, bf_array := bf_array a\<rparr>)"

definition bf_move :: "bitfield \<Rightarrow> bitfield" where
  "bf_move other = fst (bf_swap bf_default other)"

definition bf_assign :: "(nat \<Rightarrow> 8 word) \<Rightarrow> bitfield \<Rightarrow> bitfield \<Rightarrow> bitfield option" where
  "bf_assign junk this other = do { o' \<leftarrow> bf_copy junk other; Some (fst (bf_swap this o')) }"

text \<open>The non-constant access returns a reference to \<open>last_mod_value\<close>.\<close>

definition bf_ref :: "bitfield \<Rightarrow> int \<Rightarrow> bitfield option" where
  "bf_ref b index = do {
     b' \<leftarrow> bf_update b;
     v \<leftarrow> bf_get b' index;
     Some (b'\<lparr>last_mod_index := index, last_mod_value := v\<rparr>) }"

definition bf_write :: "bitfield \<Rightarrow> int \<Rightarrow> bool \<Rightarrow> bitfield option" where
  "bf_write b index v = do { b' \<leftarrow> bf_ref b index; Some (b'\<lparr>last_mod_value := v\<rparr>) }"

definition bf_read :: "bitfield \<Rightarrow> int \<Rightarrow> bool option" where
  "bf_read b index =
     (if index = last_mod_index b then Some (last_mod_value b) else bf_get b index)"

text \<open>
  \<open>print\<close>: all bytes but the last one bit by bit, then the rest of the bits; the
  separator stands before every byte but the first.
\<close>

definition bit_char :: "bool \<Rightarrow> string" where
  "bit_char v = (if v then ''1'' else ''0'')"

fun print_byte :: "nat \<Rightarrow> 8 word \<Rightarrow> string" where
  "print_byte 0 d = []"
| "print_byte (Suc j) d = bit_char (d AND 1 \<noteq> 0) @ print_byte j (drop_bit 1 d)"

definition bf_print :: "bitfield \<Rightarrow> string \<Rightarrow> (string \<times> bitfield) option" where
  "bf_print b0 separator = do {
     b \<leftarrow> bf_update b0;
     let bl = to_bytelength (bf_length b);
     (os, sep) \<leftarrow> foldM (\<lambda>i (os, sep). do {
         d \<leftarrow> vget (bf_array b) i;
         Some (os @ sep @ print_byte 8 d, separator) })
       [0..bl - 2] ([], []);
     os' \<leftarrow> (if 0 < bl then
               foldM (\<lambda>i os. do { v \<leftarrow> bf_get b i; Some (os @ bit_char v) })
                 [(bl - 1) * 8..bf_length b - 1] (os @ sep)
             else Some os);
     Some (os', b) }"

section \<open>Abstraction\<close>

text \<open>
  The invariant of a live bit field and the list of Booleans it represents: the bytes, with
  the pending write on top of them.
\<close>

definition bf_wf :: "bitfield \<Rightarrow> bool" where
  "bf_wf b \<longleftrightarrow> 0 \<le> bf_length b \<and> int (length (bf_array b)) = to_bytelength (bf_length b) \<and>
     0 \<le> last_mod_index b \<and> last_mod_index b \<le> bf_length b"

definition bf_bit :: "bitfield \<Rightarrow> nat \<Rightarrow> bool" where
  "bf_bit b i = bit (bf_array b ! (i div 8)) (i mod 8)"

definition bf_abs :: "bitfield \<Rightarrow> bool list" where
  "bf_abs b = map (\<lambda>i. if int i = last_mod_index b then last_mod_value b else bf_bit b i)
     [0..<nat (bf_length b)]"

lemma bf_length_abs [simp]: "length (bf_abs b) = nat (bf_length b)"
  by (simp add: bf_abs_def)

lemma to_bytelength_div: "to_bytelength l = (l + 7) div 8"
  by (simp add: to_bytelength_def drop_bit_eq_div)

lemma byte_index: "drop_bit 3 (int i) = int (i div 8)"
  by (simp add: drop_bit_eq_div zdiv_int)

lemma bit_index: "nat (int i AND 7) = i mod 8"
proof -
  have "int i AND 7 = take_bit 3 (int i)"
    by (simp add: take_bit_eq_mask mask_eq_exp_minus_1)
  then show ?thesis by (simp add: take_bit_eq_mod nat_mod_distrib)
qed

lemma byte_in_range:
  assumes "bf_wf b" "int i < bf_length b"
  shows "i div 8 < length (bf_array b)"
proof -
  have "int (i div 8) < (bf_length b + 7) div 8"
    using assms(2) by (simp add: zdiv_int)
  with assms(1) show ?thesis by (simp add: bf_wf_def to_bytelength_div)
qed

section \<open>The operations against the abstraction\<close>

lemma bf_get_eq:
  assumes "bf_wf b" "int i < bf_length b"
  shows "bf_get b (int i) = Some (bf_bit b i)"
  using byte_in_range [OF assms]
  by (simp add: bf_get_def byte_index bit_index bf_bit_def one_and_eq mod_2_eq_odd bit_iff_odd_drop_bit)

lemma bf_set_eq:
  assumes "bf_wf b" "int i < bf_length b"
  obtains b' where "bf_set b (int i) v = Some b'" "bf_wf b'" "bf_length b' = bf_length b"
    "last_mod_index b' = last_mod_index b" "last_mod_value b' = last_mod_value b"
    "\<And>j. int j < bf_length b \<Longrightarrow> bf_bit b' j = (if j = i then v else bf_bit b j)"
proof -
  let ?k = "i div 8" and ?mask = "push_bit (i mod 8) (1 :: 8 word)"
  let ?w = "bf_array b ! ?k"
  define w' where "w' = (if v then ?w OR ?mask else ?w AND NOT ?mask)"
  let ?b = "b\<lparr>bf_array := (bf_array b)[?k := w']\<rparr>"
  note k = byte_in_range [OF assms]
  have set: "bf_set b (int i) v = Some ?b"
    using k by (simp add: bf_set_def byte_index bit_index vmodify_def w'_def)
  have bit: "bit w' (j mod 8) = (if j mod 8 = i mod 8 then v else bit ?w (j mod 8))" for j
    by (auto simp: w'_def bit_simps)
  have "bf_bit ?b j = (if j = i then v else bf_bit b j)" if j: "int j < bf_length b" for j
  proof (cases "j div 8 = ?k")
    case True
    then have "bf_bit ?b j = (if j mod 8 = i mod 8 then v else bit ?w (j mod 8))"
      using k by (simp add: bf_bit_def bit)
    moreover have "j mod 8 = i mod 8 \<longleftrightarrow> j = i"
      using True by (metis div_mult_mod_eq)
    ultimately show ?thesis using True by (simp add: bf_bit_def)
  next
    case False
    then show ?thesis using k by (auto simp: bf_bit_def)
  qed
  with set show ?thesis using assms(1) by (intro that [of ?b]) (simp_all add: bf_wf_def)
qed

lemma bf_abs_nth:
  "int i < bf_length b \<Longrightarrow>
     bf_abs b ! i = (if int i = last_mod_index b then last_mod_value b else bf_bit b i)"
  by (simp add: bf_abs_def)

lemma bf_update_eq:
  assumes "bf_wf b"
  obtains b' where "bf_update b = Some b'" "bf_wf b'" "bf_abs b' = bf_abs b"
    "last_mod_index b' = bf_length b'" "bf_length b' = bf_length b"
proof (cases "last_mod_index b < bf_length b")
  case True
  define k where "k = nat (last_mod_index b)"
  have k: "last_mod_index b = int k" "int k < bf_length b"
    using assms True by (simp_all add: k_def bf_wf_def)
  obtain b1 where b1: "bf_set b (int k) (last_mod_value b) = Some b1" "bf_wf b1"
    "bf_length b1 = bf_length b" "last_mod_index b1 = last_mod_index b"
    "\<And>j. int j < bf_length b \<Longrightarrow> bf_bit b1 j = (if j = k then last_mod_value b else bf_bit b j)"
    using bf_set_eq [OF assms k(2)] by metis
  let ?b = "b1\<lparr>last_mod_index := bf_length b1\<rparr>"
  have "bf_abs ?b = bf_abs b"
    using b1(3,5) k by (auto simp: bf_abs_def bf_bit_def)
  with b1 True k show ?thesis
    by (intro that [of ?b]) (auto simp: bf_update_def bf_wf_def)
next
  case False
  with assms show ?thesis by (intro that [of b]) (auto simp: bf_update_def bf_wf_def)
qed

lemma bf_ref_eq:
  assumes "bf_wf b" "int i < bf_length b"
  obtains b' where "bf_ref b (int i) = Some b'" "bf_wf b'" "bf_length b' = bf_length b"
    "last_mod_index b' = int i" "last_mod_value b' = bf_abs b ! i" "bf_abs b' = bf_abs b"
proof -
  obtain b1 where b1: "bf_update b = Some b1" "bf_wf b1" "bf_abs b1 = bf_abs b"
    "last_mod_index b1 = bf_length b1" "bf_length b1 = bf_length b"
    using bf_update_eq [OF assms(1)] by metis
  with assms have get: "bf_get b1 (int i) = Some (bf_bit b1 i)" by (simp add: bf_get_eq)
  have v: "bf_bit b1 j = bf_abs b ! j" if "int j < bf_length b" for j
    using that b1 by (simp add: bf_abs_nth [symmetric] flip: b1(3)) (simp add: bf_abs_nth)
  let ?b = "b1\<lparr>last_mod_index := int i, last_mod_value := bf_bit b1 i\<rparr>"
  have "bf_abs ?b = bf_abs b"
    using b1 assms v by (intro nth_equalityI) (auto simp: bf_abs_def bf_bit_def)
  with b1 get assms v show ?thesis
    by (intro that [of ?b]) (auto simp: bf_ref_def bf_wf_def)
qed

lemma bf_write_eq:
  assumes "bf_wf b" "int i < bf_length b"
  obtains b' where "bf_write b (int i) v = Some b'" "bf_wf b'" "bf_length b' = bf_length b"
    "bf_abs b' = (bf_abs b)[i := v]"
proof -
  obtain b1 where b1: "bf_ref b (int i) = Some b1" "bf_wf b1" "bf_length b1 = bf_length b"
    "last_mod_index b1 = int i" "bf_abs b1 = bf_abs b"
    using bf_ref_eq [OF assms] by metis
  let ?b = "b1\<lparr>last_mod_value := v\<rparr>"
  have "bf_abs ?b = (bf_abs b1)[i := v]"
    using b1(4) by (intro nth_equalityI) (auto simp: bf_abs_def bf_bit_def nth_list_update)
  with b1 show ?thesis by (intro that [of ?b]) (auto simp: bf_write_def bf_wf_def)
qed

lemma bf_read_eq:
  assumes "bf_wf b" "int i < bf_length b"
  shows "bf_read b (int i) = Some (bf_abs b ! i)"
  using assms by (simp add: bf_read_def bf_get_eq bf_abs_nth)

interpretation bf: assignment_store bf_wf bf_abs bf_read bf_write
proof unfold_locales
  fix b i v
  assume b: "bf_wf b" "i < length (bf_abs b)"
  then have i: "int i < bf_length b" by (simp add: bf_wf_def)
  show "bf_read b (int i) = Some (bf_abs b ! i)" by (rule bf_read_eq [OF b(1) i])
  show "\<exists>b'. bf_write b (int i) v = Some b' \<and> bf_wf b' \<and> bf_abs b' = (bf_abs b)[i := v]"
    by (metis bf_write_eq [OF b(1) i])
qed

section \<open>Construction, copy and move\<close>

lemma bf_new_eq:
  assumes "0 \<le> n" "n + 7 < 2 ^ 31"
  obtains b where "bf_new junk n = Some b" "bf_wf b" "bf_length b = n"
  using assms by (auto simp: bf_new_def bf_wf_def to_bytelength_div)

lemma copy_bytes:
  assumes "length arr = length src" "m \<le> length src"
  shows "foldM (\<lambda>i a. do { w \<leftarrow> vget src i; vset a i w }) (map int [0..<m]) arr =
    Some (take m src @ drop m arr)"
  using assms(2)
proof (induction m)
  case (Suc m)
  then show ?case
    using assms(1)
    by (simp add: foldM_append list_update_append take_Suc_conv_app_nth Cons_nth_drop_Suc [symmetric])
qed simp

lemma bf_copy_eq: "bf_wf b \<Longrightarrow> bf_copy junk b = Some b"
proof -
  assume b: "bf_wf b"
  let ?n = "length (bf_array b)"
  have n: "to_bytelength (bf_length b) = int ?n" using b by (simp add: bf_wf_def)
  have "length (if 0 < bf_length b then map junk [0..<?n] else []) = ?n"
    using b by (auto simp: bf_wf_def to_bytelength_div)
  then show ?thesis
    using copy_bytes [of "if 0 < bf_length b then map junk [0..<?n] else []" "bf_array b" ?n]
    by (auto simp: bf_copy_def n upto_int_upt split: if_splits)
qed

text \<open>
  The move constructor first builds an empty field, and its swap leaves the lengths alone:
  the new object takes over the bytes but has length 0, so it never flushes a pending write.
\<close>

lemma bf_update_length_0: "bf_length b \<le> last_mod_index b \<Longrightarrow> bf_update b = Some b"
  by (simp add: bf_update_def)

lemma bf_write_length_0:
  assumes "bf_length b = 0" "0 \<le> last_mod_index b" "i div 8 < length (bf_array b)"
  obtains b' where "bf_write b (int i) v = Some b'" "bf_length b' = 0" "bf_array b' = bf_array b"
    "last_mod_index b' = int i" "last_mod_value b' = v"
proof -
  let ?b = "b\<lparr>last_mod_index := int i, last_mod_value := v\<rparr>"
  have "bf_write b (int i) v = Some ?b"
    using assms by (simp add: bf_write_def bf_ref_def bf_update_length_0 bf_get_def byte_index)
  with assms(1) show ?thesis by (intro that [of ?b]) simp_all
qed

section \<open>Printing\<close>

lemma print_byte_bits: "print_byte n d = concat (map (\<lambda>j. bit_char (bit d j)) [0..<n])"
proof (induction n arbitrary: d)
  case (Suc n)
  have "d AND 1 \<noteq> 0 \<longleftrightarrow> bit d 0"
    by (simp add: and_one_eq mod_2_eq_odd bit_0)
  moreover have "bit (drop_bit 1 d) j = bit d (Suc j)" for j by (simp add: bit_simps)
  ultimately show ?case
    using Suc by (simp add: upt_conv_Cons map_Suc_upt [symmetric] o_def del: upt_Suc)
qed simp

text \<open>What is printed: the bits in order, with the separator before every eighth bit.\<close>

definition separated_bits :: "string \<Rightarrow> (nat \<Rightarrow> bool) \<Rightarrow> nat \<Rightarrow> nat \<Rightarrow> string" where
  "separated_bits sep f m n =
     concat (map (\<lambda>i. (if 0 < i \<and> i mod 8 = 0 then sep else []) @ bit_char (f i)) [m..<n])"

lemma separated_bits_append:
  assumes "m \<le> k" "k \<le> n"
  shows "separated_bits sep f m n = separated_bits sep f m k @ separated_bits sep f k n"
proof -
  have "[m..<n] = [m..<k] @ [k..<n]"
    using upt_add_eq_append [OF assms(1), of "n - k"] assms(2) by simp
  then show ?thesis by (simp add: separated_bits_def)
qed

lemma separated_bits_byte:
  assumes "n \<le> 8" "0 < n"
  shows "separated_bits sep f (8 * q) (8 * q + n) =
    (if 0 < q then sep else []) @ concat (map (\<lambda>j. bit_char (f (8 * q + j))) [0..<n])"
proof -
  have "[8 * q..<8 * q + n] = map (\<lambda>i. i + 8 * q) [0..<n]"
    by (simp add: map_add_upt add.commute)
  also have "\<dots> = 8 * q # map (\<lambda>i. 8 * q + i) [1..<n]"
    using assms by (simp add: upt_conv_Cons add.commute)
  finally have "[8 * q..<8 * q + n] = 8 * q # map (\<lambda>i. 8 * q + i) [1..<n]" .
  moreover have "[0..<n] = 0 # [1..<n]" using assms by (simp add: upt_conv_Cons)
  moreover have "\<not> 8 dvd j" if "Suc 0 \<le> j" "j < n" for j
    using that assms by (auto dest: dvd_imp_le)
  ultimately show ?thesis
    by (auto simp: separated_bits_def intro!: arg_cong [where f = concat])
qed

lemma print_bytes_loop:
  assumes "bf_wf b" "int (8 * m) \<le> bf_length b"
  shows "foldM (\<lambda>i (os, sep'). do { d \<leftarrow> vget (bf_array b) i; Some (os @ sep' @ print_byte 8 d, sep) })
      (map int [0..<m]) ([], []) =
    Some (separated_bits sep (bf_bit b) 0 (8 * m), if m = 0 then [] else sep)"
  using assms(2)
proof (induction m)
  case 0
  then show ?case by (simp add: separated_bits_def)
next
  case (Suc m)
  have "(8 * m) div 8 < length (bf_array b)"
    using Suc.prems by (intro byte_in_range [OF assms(1)]) simp
  then have m: "m < length (bf_array b)" by simp
  have "concat (map (\<lambda>j. bit_char (bf_bit b (8 * m + j))) [0..<8]) = print_byte 8 (bf_array b ! m)"
    unfolding print_byte_bits by (intro arg_cong [where f = concat] map_cong) (auto simp: bf_bit_def)
  then have "separated_bits sep (bf_bit b) (8 * m) (8 * m + 8) =
      (if 0 < m then sep else []) @ print_byte 8 (bf_array b ! m)"
    using separated_bits_byte [of 8 sep "bf_bit b" m] by simp
  moreover have "separated_bits sep (bf_bit b) 0 (8 * m + 8) =
      separated_bits sep (bf_bit b) 0 (8 * m) @ separated_bits sep (bf_bit b) (8 * m) (8 * m + 8)"
    by (rule separated_bits_append) simp_all
  ultimately show ?case using Suc m by (simp add: foldM_append add.commute)
qed

lemma print_tail_loop:
  assumes "bf_wf b" "int (a + k) \<le> bf_length b"
  shows "foldM (\<lambda>i os. do { v \<leftarrow> bf_get b i; Some (os @ bit_char v) }) [int a..int (a + k) - 1] os =
    Some (os @ concat (map (\<lambda>j. bit_char (bf_bit b (a + j))) [0..<k]))"
  using assms(2)
proof (induction k)
  case (Suc k)
  then have "bf_get b (int (a + k)) = Some (bf_bit b (a + k))"
    by (intro bf_get_eq [OF assms(1)]) simp
  with Suc show ?case by (simp add: upto_rec2 foldM_append)
qed simp

lemma bf_print_eq:
  assumes "bf_wf b"
  shows "\<exists>b'. bf_print b sep =
      Some (separated_bits sep (\<lambda>i. bf_abs b ! i) 0 (nat (bf_length b)), b') \<and> bf_abs b' = bf_abs b"
proof -
  obtain b1 where b1: "bf_update b = Some b1" "bf_wf b1" "bf_abs b1 = bf_abs b"
    "last_mod_index b1 = bf_length b1" "bf_length b1 = bf_length b"
    using bf_update_eq [OF assms(1)] by metis
  define n where "n = nat (bf_length b)"
  have n: "bf_length b1 = int n" using assms b1(5) by (simp add: n_def bf_wf_def)
  have bits: "separated_bits sep (bf_bit b1) 0 n = separated_bits sep (\<lambda>i. bf_abs b ! i) 0 n"
    unfolding separated_bits_def b1(3) [symmetric]
    using b1(4) n by (intro arg_cong [where f = concat] map_cong) (auto simp: bf_abs_nth)
  show ?thesis
  proof (cases "n = 0")
    case True
    then show ?thesis
      using b1 n by (simp add: bf_print_def to_bytelength_div separated_bits_def n_def)
  next
    case False
    define k where "k = (n - 1) div 8"
    have k: "8 * k < n" "n \<le> 8 * k + 8" using False unfolding k_def by linarith+
    have bl: "to_bytelength (bf_length b1) = int k + 1"
      using k n by (simp add: to_bytelength_div)
    have "separated_bits sep (bf_bit b1) 0 n =
      separated_bits sep (bf_bit b1) 0 (8 * k) @ separated_bits sep (bf_bit b1) (8 * k) (8 * k + (n - 8 * k))"
      using k by (simp add: separated_bits_append)
    also have "separated_bits sep (bf_bit b1) (8 * k) (8 * k + (n - 8 * k)) =
      (if 0 < k then sep else []) @ concat (map (\<lambda>j. bit_char (bf_bit b1 (8 * k + j))) [0..<n - 8 * k])"
      using k by (intro separated_bits_byte) auto
    finally show ?thesis
      using b1(1,3) bits print_bytes_loop [OF b1(2), of k sep] k n False
        print_tail_loop [OF b1(2), of "8 * k" "n - 8 * k"] bl
      by (simp add: bf_print_def upto_int_upt n_def [symmetric] mult.commute)
  qed
qed

section \<open>Properties\<close>

text \<open>
  C27: the packed bit field refines a list of Booleans. A write to a position inside the field
  never leaves the byte array, changes exactly that position of the represented list, and every
  later constant read returns the represented list, although the write itself stays pending
  until the next access; the copy constructor yields an equal field whatever its fresh memory
  held.
\<close>

theorem bitfield_refines_bool_list:
  assumes "bf_wf b" and "i < length (bf_abs b)"
  shows "\<exists>b'. bf_write b (int i) v = Some b' \<and> bf_wf b' \<and> bf_abs b' = (bf_abs b)[i := v] \<and>
    (\<forall>j < length (bf_abs b). bf_read b' (int j) = Some ((bf_abs b)[i := v] ! j)) \<and>
    bf_copy junk b' = Some b'"
proof -
  obtain b' where b': "bf_write b (int i) v = Some b'" "bf_wf b'" "bf_abs b' = (bf_abs b)[i := v]"
    using bf.wr_in [OF assms] by blast
  moreover from this have "\<forall>j < length (bf_abs b). bf_read b' (int j) = Some ((bf_abs b)[i := v] ! j)"
    by (metis bf.rd_in length_list_update)
  ultimately show ?thesis using bf_copy_eq by blast
qed

theorem bitfield_refines_bool_list_witness:
  "let b = \<lparr>bf_length = 10, last_mod_index = 3, last_mod_value = True, bf_array = [5, 2]\<rparr> in
     \<exists>b'. bf_write b (int 8) True = Some b' \<and> bf_abs b' = (bf_abs b)[8 := True] \<and>
       bf_read b' (int 3) = Some True"
proof -
  let ?b = "\<lparr>bf_length = 10, last_mod_index = 3, last_mod_value = True, bf_array = [5, 2]\<rparr>"
  have "bf_wf ?b" "8 < length (bf_abs ?b)" by (simp_all add: bf_wf_def to_bytelength_div)
  from bitfield_refines_bool_list [OF this, of True "\<lambda>_. 0"]
  obtain b' where "bf_write ?b (int 8) True = Some b'" "bf_abs b' = (bf_abs ?b)[8 := True]"
    "\<forall>j < length (bf_abs ?b). bf_read b' (int j) = Some ((bf_abs ?b)[8 := True] ! j)"
    by blast
  moreover from this(3) have "bf_read b' (int 3) = Some True"
    by (auto simp: bf_abs_def dest!: spec [of _ 3])
  ultimately show ?thesis by (auto simp: Let_def)
qed

text \<open>
  The move constructor does not produce a working bit field. The new object takes over the
  bytes of the old one but keeps length 0, so a write to it is forgotten as soon as another
  position is accessed: reading it back yields the old bit whatever was written.
\<close>

theorem bitfield_move_loses_writes:
  assumes "bf_wf b" and "i < length (bf_abs b)" and "j < length (bf_abs b)" and "i \<noteq> j"
  shows "\<exists>b1 b2. bf_write (bf_move b) (int i) v = Some b1 \<and> bf_write b1 (int j) w = Some b2 \<and>
    bf_read b2 (int i) = Some (bf_bit b i)"
proof -
  let ?m = "bf_move b"
  have m: "bf_length ?m = 0" "bf_array ?m = bf_array b" "last_mod_index ?m = last_mod_index b"
    by (simp_all add: bf_move_def bf_swap_def bf_default_def)
  have i: "i div 8 < length (bf_array b)" "j div 8 < length (bf_array b)"
    using assms by (auto intro!: byte_in_range simp: bf_wf_def)
  obtain b1 where b1: "bf_write ?m (int i) v = Some b1" "bf_length b1 = 0" "bf_array b1 = bf_array b"
    "last_mod_index b1 = int i"
    using bf_write_length_0 [of ?m i v] m i assms(1) by (auto simp: bf_wf_def)
  obtain b2 where b2: "bf_write b1 (int j) w = Some b2" "bf_array b2 = bf_array b" "last_mod_index b2 = int j"
    using bf_write_length_0 [of b1 j w] b1 i by auto
  have "bf_get b2 (int i) = Some (bf_bit b i)"
    using b2(2) i by (simp add: bf_get_def byte_index bit_index bf_bit_def one_and_eq mod_2_eq_odd
        bit_iff_odd_drop_bit)
  then show ?thesis using b1 b2 assms(4) by (auto simp: bf_read_def)
qed

theorem bitfield_move_loses_writes_witness:
  "let b = \<lparr>bf_length = 2, last_mod_index = 2, last_mod_value = False, bf_array = [0]\<rparr> in
     \<exists>b1 b2. bf_write (bf_move b) (int 0) True = Some b1 \<and> bf_write b1 (int 1) True = Some b2 \<and>
       bf_read b2 (int 0) = Some False"
proof -
  let ?b = "\<lparr>bf_length = 2, last_mod_index = 2, last_mod_value = False, bf_array = [0]\<rparr>"
  have "bf_wf ?b" "0 < length (bf_abs ?b)" "1 < length (bf_abs ?b)" "(0 :: nat) \<noteq> 1"
    by (simp_all add: bf_wf_def to_bytelength_div)
  from bitfield_move_loses_writes [OF this, of True True]
  show ?thesis by (simp add: Let_def bf_bit_def)
qed

end
