(* ===== verification/Prob_Functions.thy ===== *)
theory Prob_Functions
  imports Complex_Main Prelude
begin

text \<open>
  \<open>sat/probability_functions\<close>: the break-only probability functions and the cache
  in front of them. The program computes with \<open>prec_t = double\<close>; the arithmetic of that
  type is the record \<open>prec_ops\<close>, an argument of every definition that computes with it,
  and what a property needs of it is stated as laws over the record.
\<close>

record 'p prec_ops =
  p_of_int :: "int \<Rightarrow> 'p"
  p_add :: "'p \<Rightarrow> 'p \<Rightarrow> 'p"
  p_mul :: "'p \<Rightarrow> 'p \<Rightarrow> 'p"
  p_div :: "'p \<Rightarrow> 'p \<Rightarrow> 'p"
  p_neg :: "'p \<Rightarrow> 'p"
  p_pow :: "'p \<Rightarrow> 'p \<Rightarrow> 'p"
  p_less :: "'p \<Rightarrow> 'p \<Rightarrow> bool"

abbreviation p_zero :: "'p prec_ops \<Rightarrow> 'p" where
  "p_zero ops \<equiv> p_of_int ops 0"

section \<open>The functions\<close>

record 'p prob_func_polynomial =
  poly_eps :: 'p
  poly_cb :: 'p

definition polynomial_calc :: "'p prec_ops \<Rightarrow> 'p prob_func_polynomial \<Rightarrow> int \<Rightarrow> 'p" where
  "polynomial_calc ops pf num_breaks =
     p_pow ops (p_add ops (poly_eps pf) (p_of_int ops num_breaks)) (p_neg ops (poly_cb pf))"

record 'p prob_func_exponential =
  exp_cb :: 'p

definition exponential_calc :: "'p prec_ops \<Rightarrow> 'p prob_func_exponential \<Rightarrow> int \<Rightarrow> 'p" where
  "exponential_calc ops pf num_breaks = p_pow ops (exp_cb pf) (p_of_int ops (- num_breaks))"

text \<open>
  \<open>prob_func_cached\<close>: the wrapped function (already applied to its parameters), the
  template flags \<open>multithreaded\<close> and \<open>manythreads\<close>, and \<open>lock_taken\<close>, whether
  \<open>try_lock\<close> obtained the mutex at this call. The wrapped function is computed first;
  the cached value is returned when it is positive, otherwise the new one is stored.
\<close>

definition cached_calc ::
    "'p prec_ops \<Rightarrow> (int \<Rightarrow> 'p) \<Rightarrow> bool \<Rightarrow> bool \<Rightarrow> bool \<Rightarrow> 'p list \<Rightarrow> int \<Rightarrow> ('p \<times> 'p list) option" where
  "cached_calc ops pfi multithreaded manythreads lock_taken cache num_breaks = do {
     let f = pfi num_breaks;
     v \<leftarrow> vget cache num_breaks;
     if p_less ops (p_zero ops) v then Some (v, cache)
     else do {
       cache' \<leftarrow> (if multithreaded then
                    (if manythreads then (if lock_taken then vset cache num_breaks f else Some cache)
                     else vset cache num_breaks f)
                  else vset cache num_breaks f);
       Some (f, cache') } }"

definition cached_set_max :: "'p prec_ops \<Rightarrow> int \<Rightarrow> 'p list \<Rightarrow> 'p list" where
  "cached_set_max ops num_breaks cache =
     (if int (length cache) \<le> num_breaks
      then cache @ replicate (nat (num_breaks + 1) - length cache) (p_zero ops)
      else cache)"

section \<open>The interface of a probability function\<close>

text \<open>
  What \<open>serial_instance\<close> relies on: after \<open>set_max_num_breaks_possible N\<close> the
  function can be evaluated at every count up to \<open>N\<close>, its value depends on the count
  alone, and evaluation keeps that guarantee.
\<close>

locale prob_func =
  fixes ready :: "int \<Rightarrow> 'c \<Rightarrow> bool"
    and calc :: "'c \<Rightarrow> int \<Rightarrow> ('p \<times> 'c) option"
    and set_max :: "int \<Rightarrow> 'c \<Rightarrow> 'c"
    and f :: "int \<Rightarrow> 'p"
  assumes ready_set_max: "ready M c \<Longrightarrow> ready N (set_max N c) \<and> ready M (set_max N c)"
    and calc_ready: "ready N c \<Longrightarrow> 0 \<le> k \<Longrightarrow> k \<le> N \<Longrightarrow>
      \<exists>c'. calc c k = Some (f k, c') \<and> (\<forall>M. ready M c \<longrightarrow> ready M c')"
begin

text \<open>Any sequence of evaluations within the announced bound returns the function's values.\<close>

lemma calc_sequence:
  assumes "ready N c" "\<forall>k \<in> set ks. 0 \<le> k \<and> k \<le> N"
  shows "\<exists>c'. foldM (\<lambda>k (vs, c). do { (v, c') \<leftarrow> calc c k; Some (vs @ [v], c') }) ks (vs, c) =
      Some (vs @ map f ks, c') \<and> ready N c'"
  using assms
proof (induction ks arbitrary: vs c)
  case (Cons k ks)
  then obtain c1 where c1: "calc c k = Some (f k, c1)" "ready N c1"
    using calc_ready by (metis list.set_intros(1))
  with Cons.IH [of c1 "vs @ [f k]"] Cons.prems(2) show ?case by simp
qed simp

end

text \<open>The polynomial and exponential functions keep no state and ignore the bound.\<close>

interpretation pp: prob_func "\<lambda>_ _. True" "\<lambda>_ k. Some (polynomial_calc ops pf k, ())" "\<lambda>_ _. ()"
    "polynomial_calc ops pf" for ops pf
  by unfold_locales simp_all

interpretation pe: prob_func "\<lambda>_ _. True" "\<lambda>_ k. Some (exponential_calc ops pf k, ())" "\<lambda>_ _. ()"
    "exponential_calc ops pf" for ops pf
  by unfold_locales simp_all

text \<open>The cache: every positive entry is the value of the wrapped function at its index.\<close>

definition cache_ok :: "'p prec_ops \<Rightarrow> (int \<Rightarrow> 'p) \<Rightarrow> int \<Rightarrow> 'p list \<Rightarrow> bool" where
  "cache_ok ops pfi N cache \<longleftrightarrow> N < int (length cache) \<and> \<not> p_less ops (p_zero ops) (p_zero ops) \<and>
     (\<forall>k < length cache. p_less ops (p_zero ops) (cache ! k) \<longrightarrow> cache ! k = pfi (int k))"

lemma cache_ok_set_max:
  assumes "cache_ok ops pfi M cache"
  shows "cache_ok ops pfi N (cached_set_max ops N cache) \<and> cache_ok ops pfi M (cached_set_max ops N cache)"
  using assms by (auto simp: cache_ok_def cached_set_max_def nth_append)

lemma cached_calc_ok:
  assumes "cache_ok ops pfi N cache" "0 \<le> k" "k \<le> N"
  shows "\<exists>cache'. cached_calc ops pfi mt many lock_taken cache k = Some (pfi k, cache') \<and>
    (\<forall>M. cache_ok ops pfi M cache \<longrightarrow> cache_ok ops pfi M cache')"
proof -
  have k: "k < int (length cache)" using assms by (simp add: cache_ok_def)
  have upd: "\<forall>M. cache_ok ops pfi M cache \<longrightarrow> cache_ok ops pfi M (cache[nat k := pfi k])"
    using assms(2) k by (auto simp: cache_ok_def nth_list_update nat_less_iff)
  show ?thesis
  proof (cases "p_less ops (p_zero ops) (cache ! nat k)")
    case True
    then have "cache ! nat k = pfi k"
      using assms k by (auto simp: cache_ok_def nat_less_iff dest!: spec [of _ "nat k"])
    with True assms(2) k show ?thesis by (simp add: cached_calc_def vec_simps)
  next
    case False
    with assms(2) k upd show ?thesis by (auto simp: cached_calc_def vec_simps Let_def)
  qed
qed

interpretation pc: prob_func "cache_ok ops pfi" "cached_calc ops pfi mt many lock_taken"
    "cached_set_max ops" pfi for ops pfi mt many lock_taken
  by unfold_locales (use cache_ok_set_max cached_calc_ok in blast)+

text \<open>
  The cache of \<open>probsat.hpp\<close> is built with \<open>multithreaded\<close> and \<open>manythreads\<close>, so every
  call that stores tries the mutex: \<open>locks n\<close> is the outcome at the \<open>n\<close>-th call from now on.
\<close>

definition cached_calc_locks ::
    "'p prec_ops \<Rightarrow> (int \<Rightarrow> 'p) \<Rightarrow> 'p list \<times> (nat \<Rightarrow> bool) \<Rightarrow> int \<Rightarrow> ('p \<times> 'p list \<times> (nat \<Rightarrow> bool)) option" where
  "cached_calc_locks ops pfi c num_breaks = (case c of (cache, locks) \<Rightarrow> do {
     (v, cache') \<leftarrow> cached_calc ops pfi True True (locks 0) cache num_breaks;
     Some (v, cache', \<lambda>n. locks (Suc n)) })"

lemma cached_calc_locks_ok:
  assumes "cache_ok ops pfi N (fst c)" "0 \<le> k" "k \<le> N"
  shows "\<exists>c'. cached_calc_locks ops pfi c k = Some (pfi k, c') \<and>
    (\<forall>M. cache_ok ops pfi M (fst c) \<longrightarrow> cache_ok ops pfi M (fst c'))"
proof -
  obtain cache locks where c: "c = (cache, locks)" by (cases c)
  obtain cache' where "cached_calc ops pfi True True (locks 0) cache k = Some (pfi k, cache')"
    "\<forall>M. cache_ok ops pfi M cache \<longrightarrow> cache_ok ops pfi M cache'"
    using cached_calc_ok [of ops pfi N cache k] assms c by (metis fst_conv)
  then show ?thesis using c by (simp add: cached_calc_locks_def)
qed

interpretation pl: prob_func "\<lambda>N c. cache_ok ops pfi N (fst c)" "cached_calc_locks ops pfi"
    "\<lambda>N c. (cached_set_max ops N (fst c), snd c)" pfi for ops pfi
proof unfold_locales
  show "cache_ok ops pfi N (fst (cached_set_max ops N (fst c), snd c)) \<and>
      cache_ok ops pfi M (fst (cached_set_max ops N (fst c), snd c))"
    if "cache_ok ops pfi M (fst c)" for M N and c :: "'a list \<times> (nat \<Rightarrow> bool)"
    using cache_ok_set_max [OF that] by simp
qed (rule cached_calc_locks_ok)

end
