(* ===== verification/Instance.thy ===== *)
theory Instance
  imports Bitfield Cnf_Formula Prob_Functions
begin

text \<open>
  \<open>sat/instance.hpp\<close>: \<open>serial_instance\<close>, the state of one solver run and its
  operations. The template parameters are arguments: \<open>caching\<close>, the probability function
  (\<open>calc\<close>, \<open>set_max\<close>, with its state), the random generator (\<open>rand\<close>,
  \<open>rand_max\<close>) and the arithmetic of \<open>prec_t\<close>. The switches of \<open>config.hpp\<close> are
  those it sets: \<open>USE_CRIT_LITERAL_CACHING\<close> on, \<open>ALLOW_UNCLEAN_CLAUSES\<close> and
  \<open>ADDITIONAL_CHECKS\<close> off. \<open>None\<close> is an access outside a container.
\<close>

section \<open>State\<close>

record instance_state =
  belegung :: bitfield
  unsat_clauses :: "int list"
  unsat_clauses_location :: "int list"
  num_flips_done :: nat
  num_breaks_by_flip :: "int list"
  crit_literal_in_clause :: "int list"

section \<open>The list of unsatisfied clauses\<close>

definition make_clause_unsat :: "int \<Rightarrow> instance_state \<Rightarrow> instance_state option" where
  "make_clause_unsat clause_index s = do {
     loc \<leftarrow> vset (unsat_clauses_location s) clause_index (int32 (int (length (unsat_clauses s))));
     Some (s\<lparr>unsat_clauses_location := loc, unsat_clauses := unsat_clauses s @ [clause_index]\<rparr>) }"

definition make_clause_sat :: "int \<Rightarrow> instance_state \<Rightarrow> instance_state option" where
  "make_clause_sat clause_index s = do {
     now_sat_cl \<leftarrow> vget (unsat_clauses_location s) clause_index;
     loc \<leftarrow> vset (unsat_clauses_location s) clause_index (-1);
     uclause \<leftarrow> (if unsat_clauses s = [] then None else Some (last (unsat_clauses s)));
     let unsat = butlast (unsat_clauses s);
     let s' = s\<lparr>unsat_clauses_location := loc, unsat_clauses := unsat\<rparr>;
     if unsat = [] then Some s'
     else if now_sat_cl = int (length unsat) then Some s'
     else do {
       loc' \<leftarrow> vset loc uclause now_sat_cl;
       unsat' \<leftarrow> vset unsat now_sat_cl uclause;
       Some (s'\<lparr>unsat_clauses_location := loc', unsat_clauses := unsat'\<rparr>) } }"

section \<open>Queries\<close>

text \<open>
  \<open>first_satisfied\<close> is the loop of \<open>get_first_satisfied_literal\<close>: the first
  literal other than \<open>dont_take_literal\<close> that the assignment satisfies, or 0.
\<close>

fun first_satisfied :: "bitfield \<Rightarrow> clause \<Rightarrow> int \<Rightarrow> int list \<Rightarrow> int option" where
  "first_satisfied b c dont_take_literal [] = Some 0"
| "first_satisfied b c dont_take_literal (i # is) = do {
     lit \<leftarrow> clause_get c i;
     if dont_take_literal \<noteq> lit then do {
       let var_index = \<bar>lit\<bar> - 1;
       value \<leftarrow> bf_read b var_index;
       if (0 > lit) \<noteq> value then Some lit else first_satisfied b c dont_take_literal is }
     else first_satisfied b c dont_take_literal is }"

definition get_first_satisfied_literal :: "instance_state \<Rightarrow> clause \<Rightarrow> int \<Rightarrow> int option" where
  "get_first_satisfied_literal s c dont_take_literal =
     first_satisfied (belegung s) c dont_take_literal (clause_indices c)"

definition get_critical_literal :: "instance_state \<Rightarrow> clause \<Rightarrow> int \<Rightarrow> int option" where
  "get_critical_literal s c dont_take_literal = get_first_satisfied_literal s c dont_take_literal"

definition is_clause_satisfied :: "instance_state \<Rightarrow> clause \<Rightarrow> bool option" where
  "is_clause_satisfied s c = do { l \<leftarrow> get_first_satisfied_literal s c 0; Some (0 \<noteq> l) }"

definition num_sat_lit_in_clause :: "instance_state \<Rightarrow> clause \<Rightarrow> int option" where
  "num_sat_lit_in_clause s c =
     foldM (\<lambda>i n. do {
         lit \<leftarrow> clause_get c i;
         let var_index = \<bar>lit\<bar> - 1;
         value \<leftarrow> bf_read (belegung s) var_index;
         Some (if (0 > lit) \<noteq> value then n + 1 else n) })
       (clause_indices c) 0"

definition get_num_sat_lit_in_clause :: "cnf_formula \<Rightarrow> instance_state \<Rightarrow> int \<Rightarrow> int option" where
  "get_num_sat_lit_in_clause F s clause_index = do {
     c \<leftarrow> get_clause F clause_index; num_sat_lit_in_clause s c }"

definition get_num_breaks_by_flip ::
    "cnf_formula \<Rightarrow> instance_state \<Rightarrow> int \<Rightarrow> bool \<Rightarrow> int option" where
  "get_num_breaks_by_flip F s literal caching = (
     let var_index = \<bar>literal\<bar> - 1 in
     if caching then vget (num_breaks_by_flip s) var_index
     else do {
       (n0, n1, p0, p1) \<leftarrow> get_iterators_for_clauses_with_vars F var_index;
       let (it_start, it_end) = (if 0 < literal then (n0, n1) else (p0, p1));
       cs \<leftarrow> iter_elems F it_start it_end;
       foldM (\<lambda>c num_breaks. do {
           n \<leftarrow> get_num_sat_lit_in_clause F s c;
           Some (if 1 = n then int16 (num_breaks + 1) else num_breaks) }) cs 0 })"

section \<open>Flipping a literal\<close>

text \<open>The body of the \<open>break\<close> loop: a clause that loses a satisfied literal.\<close>

definition break_clause ::
    "cnf_formula \<Rightarrow> bool \<Rightarrow> int \<Rightarrow> int \<Rightarrow> instance_state \<Rightarrow> instance_state option" where
  "break_clause F caching literal clause_index s = do {
     let rvar_index = \<bar>literal\<bar> - 1;
     ucl \<leftarrow> vget (unsat_clauses_location s) clause_index;
     if 0 \<le> ucl then Some s
     else do {
       s1 \<leftarrow> (if -1 = ucl then do {
                s1 \<leftarrow> make_clause_unsat clause_index s;
                nb \<leftarrow> (if caching then vmodify (num_breaks_by_flip s1) rvar_index (\<lambda>x. int16 (x - 1))
                      else Some (num_breaks_by_flip s1));
                crit \<leftarrow> vset (crit_literal_in_clause s1) clause_index 0;
                Some (s1\<lparr>num_breaks_by_flip := nb, crit_literal_in_clause := crit\<rparr>) }
              else do {
                loc \<leftarrow> vmodify (unsat_clauses_location s) clause_index (\<lambda>x. int32 (x + 1));
                Some (s\<lparr>unsat_clauses_location := loc\<rparr>) });
       if caching \<and> -2 = ucl then do {
         c \<leftarrow> get_clause F clause_index;
         crit_literal \<leftarrow> get_critical_literal s1 c (- literal);
         nb \<leftarrow> vmodify (num_breaks_by_flip s1) (\<bar>crit_literal\<bar> - 1) (\<lambda>x. int16 (x + 1));
         crit \<leftarrow> vset (crit_literal_in_clause s1) clause_index crit_literal;
         Some (s1\<lparr>num_breaks_by_flip := nb, crit_literal_in_clause := crit\<rparr>) }
       else Some s1 } }"

text \<open>The body of the \<open>make\<close> loop: a clause that gains a satisfied literal.\<close>

definition make_clause ::
    "cnf_formula \<Rightarrow> bool \<Rightarrow> int \<Rightarrow> int \<Rightarrow> instance_state \<Rightarrow> instance_state option" where
  "make_clause F caching literal clause_index s = do {
     let rvar_index = \<bar>literal\<bar> - 1;
     ucl \<leftarrow> vget (unsat_clauses_location s) clause_index;
     if 0 \<le> ucl then do {
       s1 \<leftarrow> make_clause_sat clause_index s;
       nb \<leftarrow> (if caching then vmodify (num_breaks_by_flip s1) rvar_index (\<lambda>x. int16 (x + 1))
             else Some (num_breaks_by_flip s1));
       crit \<leftarrow> vset (crit_literal_in_clause s1) clause_index literal;
       Some (s1\<lparr>num_breaks_by_flip := nb, crit_literal_in_clause := crit\<rparr>) }
     else do {
       loc \<leftarrow> vmodify (unsat_clauses_location s) clause_index (\<lambda>x. int32 (x - 1));
       let s1 = s\<lparr>unsat_clauses_location := loc\<rparr>;
       if caching \<and> -1 = ucl then do {
         crit_literal \<leftarrow> vget (crit_literal_in_clause s1) clause_index;
         c \<leftarrow> get_clause F clause_index;
         _ \<leftarrow> get_critical_literal s1 c (- literal);
         nb \<leftarrow> vmodify (num_breaks_by_flip s1) (\<bar>crit_literal\<bar> - 1) (\<lambda>x. int16 (x - 1));
         Some (s1\<lparr>num_breaks_by_flip := nb\<rparr>) }
       else Some s1 } }"

definition flip_literal ::
    "cnf_formula \<Rightarrow> bool \<Rightarrow> int \<Rightarrow> instance_state \<Rightarrow> instance_state option" where
  "flip_literal F caching literal s = do {
     let rvar_index = \<bar>literal\<bar> - 1;
     (n0, n1, p0, p1) \<leftarrow> get_iterators_for_clauses_with_vars F rvar_index;
     let (b0, b1, m0, m1) = (if 0 < literal then (n0, n1, p0, p1) else (p0, p1, n0, n1));
     breaks \<leftarrow> iter_elems F b0 b1;
     s1 \<leftarrow> foldM (break_clause F caching literal) breaks s;
     makes \<leftarrow> iter_elems F m0 m1;
     s2 \<leftarrow> foldM (make_clause F caching literal) makes s1;
     b1 \<leftarrow> bf_ref (belegung s2) rvar_index;
     let value = last_mod_value b1;
     b2 \<leftarrow> bf_write b1 rvar_index (\<not> value);
     Some (s2\<lparr>belegung := b2\<rparr>) }"

section \<open>Initialisation\<close>

definition init_clause ::
    "cnf_formula \<Rightarrow> bool \<Rightarrow> int \<Rightarrow> instance_state \<Rightarrow> instance_state option" where
  "init_clause F caching clause_index s = do {
     num_sat_lit \<leftarrow> get_num_sat_lit_in_clause F s clause_index;
     if num_sat_lit = 0 then make_clause_unsat clause_index s
     else do {
       s1 \<leftarrow> (if num_sat_lit = 1 \<and> caching then do {
                c \<leftarrow> get_clause F clause_index;
                crit_literal \<leftarrow> get_critical_literal s c 0;
                nb \<leftarrow> vmodify (num_breaks_by_flip s) (\<bar>crit_literal\<bar> - 1) (\<lambda>x. int16 (x + 1));
                crit \<leftarrow> vset (crit_literal_in_clause s) clause_index crit_literal;
                Some (s\<lparr>num_breaks_by_flip := nb, crit_literal_in_clause := crit\<rparr>) }
              else Some s);
       loc \<leftarrow> vset (unsat_clauses_location s1) clause_index (int32 (- num_sat_lit));
       Some (s1\<lparr>unsat_clauses_location := loc\<rparr>) } }"

text \<open>
  The constructor copies the given assignment and runs \<open>initialize\<close>.
  \<open>unsat_clauses_location\<close> is only reserved, never resized; \<open>mem\<close> is what the
  reserved storage held.
\<close>

definition new_instance :: "cnf_formula \<Rightarrow> bool \<Rightarrow> (nat \<Rightarrow> int) \<Rightarrow> bitfield \<Rightarrow> instance_state" where
  "new_instance F caching mem initial_config =
     \<lparr>belegung = initial_config, unsat_clauses = [],
      unsat_clauses_location = map mem [0..<nat (num_clauses F)], num_flips_done = 0,
      num_breaks_by_flip = (if caching then replicate (nat (num_variables F)) 0 else []),
      crit_literal_in_clause = replicate (nat (num_clauses F)) 0\<rparr>"

definition initialize ::
    "cnf_formula \<Rightarrow> bool \<Rightarrow> (int \<Rightarrow> 'c \<Rightarrow> 'c) \<Rightarrow> instance_state \<Rightarrow> 'c \<Rightarrow> (instance_state \<times> 'c) option" where
  "initialize F caching set_max s pfi = do {
     let pfi' = set_max (max_num_breaks_possible F) pfi;
     s' \<leftarrow> foldM (init_clause F caching) [0..num_clauses F - 1] s;
     Some (s', pfi') }"

definition serial_instance ::
    "cnf_formula \<Rightarrow> bool \<Rightarrow> (int \<Rightarrow> 'c \<Rightarrow> 'c) \<Rightarrow> (nat \<Rightarrow> int) \<Rightarrow> (nat \<Rightarrow> 8 word) \<Rightarrow> bitfield \<Rightarrow> 'c \<Rightarrow>
      (instance_state \<times> 'c) option" where
  "serial_instance F caching set_max mem junk initial_config pfi = do {
     b \<leftarrow> bf_copy junk initial_config;
     initialize F caching set_max (new_instance F caching mem b) pfi }"

section \<open>One step of the search\<close>

definition get_index_of_random_unsatisfied_clause :: "instance_state \<Rightarrow> int option" where
  "get_index_of_random_unsatisfied_clause s =
     (if unsat_clauses s = [] then None
      else vget (unsat_clauses s) (int (num_flips_done s mod length (unsat_clauses s))))"

definition get_random_value ::
    "'p prec_ops \<Rightarrow> ('g \<Rightarrow> nat \<times> 'g) \<Rightarrow> nat \<Rightarrow> 'p \<Rightarrow> 'g \<Rightarrow> 'p \<times> 'g" where
  "get_random_value ops rand rand_max l g =
     (let (k, g') = rand g in
      (p_mul ops (p_div ops (p_of_int ops (int k)) (p_of_int ops (int (rand_max + 1)))) l, g'))"

text \<open>The partial sums \<open>f[i]\<close> of the values of the probability function.\<close>

definition sum_probabilities ::
    "cnf_formula \<Rightarrow> bool \<Rightarrow> 'p prec_ops \<Rightarrow> ('c \<Rightarrow> int \<Rightarrow> ('p \<times> 'c) option) \<Rightarrow> instance_state \<Rightarrow> clause \<Rightarrow> 'c \<Rightarrow>
      ('p list \<times> 'p \<times> 'c) option" where
  "sum_probabilities F caching ops calc s rclause pfi =
     foldM (\<lambda>i (f, sum_f, pfi). do {
         literal \<leftarrow> clause_get rclause i;
         num_breaks \<leftarrow> get_num_breaks_by_flip F s literal caching;
         (cf, pfi') \<leftarrow> calc pfi num_breaks;
         let sum_f' = p_add ops sum_f cf;
         Some (f @ [sum_f'], sum_f', pfi') })
       (clause_indices rclause) ([], p_zero ops, pfi)"

fun pick_literal :: "'p prec_ops \<Rightarrow> 'p \<Rightarrow> 'p list \<Rightarrow> clause \<Rightarrow> int list \<Rightarrow> int option" where
  "pick_literal ops r f rclause [] = Some 0"
| "pick_literal ops r f rclause (i # is) = do {
     fi \<leftarrow> vget f i;
     if p_less ops r fi then clause_get rclause i else pick_literal ops r f rclause is }"

definition do_flip ::
    "cnf_formula \<Rightarrow> bool \<Rightarrow> 'p prec_ops \<Rightarrow> ('c \<Rightarrow> int \<Rightarrow> ('p \<times> 'c) option) \<Rightarrow> ('g \<Rightarrow> nat \<times> 'g) \<Rightarrow> nat \<Rightarrow>
      instance_state \<Rightarrow> 'c \<Rightarrow> 'g \<Rightarrow> (instance_state \<times> 'c \<times> 'g) option" where
  "do_flip F caching ops calc rand rand_max s pfi g = do {
     random_ci \<leftarrow> get_index_of_random_unsatisfied_clause s;
     rclause \<leftarrow> get_clause F random_ci;
     (f, sum_f, pfi') \<leftarrow> sum_probabilities F caching ops calc s rclause pfi;
     let (r, g') = get_random_value ops rand rand_max sum_f g;
     rlit \<leftarrow> pick_literal ops r f rclause (clause_indices rclause);
     s' \<leftarrow> flip_literal F caching rlit s;
     Some (s'\<lparr>num_flips_done := (num_flips_done s' + 1) mod 2 ^ 64\<rparr>, pfi', g') }"

section \<open>Results\<close>

definition found_solution :: "instance_state \<Rightarrow> bool" where
  "found_solution s \<longleftrightarrow> unsat_clauses s = []"

fun check_clauses :: "cnf_formula \<Rightarrow> instance_state \<Rightarrow> int list \<Rightarrow> bool option" where
  "check_clauses F s [] = Some True"
| "check_clauses F s (i # is) = do {
     c \<leftarrow> get_clause F i;
     sat \<leftarrow> is_clause_satisfied s c;
     if \<not> sat then Some False else check_clauses F s is }"

definition check_assignment :: "cnf_formula \<Rightarrow> instance_state \<Rightarrow> bool option" where
  "check_assignment F s = check_clauses F s [0..num_clauses F - 1]"

definition get_number_of_unsat_clauses :: "instance_state \<Rightarrow> nat" where
  "get_number_of_unsat_clauses s = length (unsat_clauses s)"

definition get_num_flips :: "instance_state \<Rightarrow> nat" where
  "get_num_flips s = num_flips_done s"

end
