(* ===== verification/Instance_Invariant.thy ===== *)
theory Instance_Invariant
  imports Instance
begin

text \<open>
  The invariant of \<open>serial_instance\<close>: how the list of unsatisfied clauses, the location
  table with its negative counters, the break counters and the critical literals are determined
  by the set of satisfied literals of every clause. The invariant is stated for an arbitrary
  family of literal sets, so that it also describes the states in the middle of
  \<open>flip_literal\<close>, where some clauses already see the flipped variable and others do not.
\<close>

section \<open>Satisfied literals\<close>

definition lit_true :: "bool list \<Rightarrow> int \<Rightarrow> bool" where
  "lit_true \<sigma> l \<longleftrightarrow> (0 > l) \<noteq> \<sigma> ! nat (\<bar>l\<bar> - 1)"

definition true_lits :: "bool list \<Rightarrow> clause \<Rightarrow> int set" where
  "true_lits \<sigma> cl = {l \<in> set cl. lit_true \<sigma> l}"

definition satisfies :: "bool list \<Rightarrow> clause list \<Rightarrow> bool" where
  "satisfies \<sigma> cls \<longleftrightarrow> (\<forall>cl \<in> set cls. \<exists>l \<in> set cl. lit_true \<sigma> l)"

lemma finite_true_lits [simp]: "finite (true_lits \<sigma> cl)"
  by (simp add: true_lits_def)

lemma true_lits_filter: "true_lits \<sigma> cl = set (filter (lit_true \<sigma>) cl)"
  by (auto simp: true_lits_def)

lemma lit_true_neg: "l \<noteq> 0 \<Longrightarrow> lit_true \<sigma> (- l) \<longleftrightarrow> \<not> lit_true \<sigma> l"
  by (auto simp: lit_true_def)

section \<open>Scanning a clause\<close>

lemma read_literal:
  assumes "bf_wf b" "l \<noteq> 0" "\<bar>l\<bar> \<le> bf_length b"
  shows "bf_read b (\<bar>l\<bar> - 1) = Some (bf_abs b ! nat (\<bar>l\<bar> - 1))"
  using assms by (intro bf.rd_in_int) auto

lemma clean_clause_nth:
  "clean_clause nv cl \<Longrightarrow> i < length cl \<Longrightarrow>
     clause_get cl (int i) = Some (cl ! i) \<and> cl ! i \<noteq> 0 \<and> \<bar>cl ! i\<bar> \<le> nv"
  by (auto simp: clean_clause_def clause_get_in)

lemma first_satisfied_scan:
  assumes "bf_wf b" "clean_clause (bf_length b) cl" "\<forall>i \<in> set is. i < length cl"
  shows "first_satisfied b cl d (map int is) =
    Some (case filter (\<lambda>l. l \<noteq> d \<and> lit_true (bf_abs b) l) (map ((!) cl) is) of [] \<Rightarrow> 0 | l # _ \<Rightarrow> l)"
  using assms(3)
proof (induction "is")
  case (Cons i "is")
  then have "clause_get cl (int i) = Some (cl ! i)" "cl ! i \<noteq> 0" "\<bar>cl ! i\<bar> \<le> bf_length b"
    using clean_clause_nth [OF assms(2)] by auto
  with Cons assms(1) show ?case by (auto simp: read_literal lit_true_def)
qed simp

lemma get_first_satisfied_literal_eq:
  assumes "bf_wf (belegung s)" "clean_clause (bf_length (belegung s)) cl"
  shows "get_first_satisfied_literal s cl d =
    Some (case filter (\<lambda>l. l \<noteq> d \<and> lit_true (bf_abs (belegung s)) l) cl of [] \<Rightarrow> 0 | l # _ \<Rightarrow> l)"
  using first_satisfied_scan [OF assms, of "[0..<length cl]" d]
  by (simp add: get_first_satisfied_literal_def clause_indices_nat map_nth)

lemma get_critical_literal_defined:
  assumes "bf_wf (belegung s)" "clean_clause (bf_length (belegung s)) cl"
  shows "\<exists>l. get_critical_literal s cl d = Some l"
  using get_first_satisfied_literal_eq [OF assms, of d] by (auto simp: get_critical_literal_def)

lemma get_critical_literal_unique:
  assumes "bf_wf (belegung s)" "clean_clause (bf_length (belegung s)) cl"
    and "true_lits (bf_abs (belegung s)) cl - {d} = {l}"
  shows "get_critical_literal s cl d = Some l"
proof -
  let ?xs = "filter (\<lambda>l. l \<noteq> d \<and> lit_true (bf_abs (belegung s)) l) cl"
  have "set ?xs = {l}" using assms(3) by (auto simp: true_lits_def)
  then obtain ys where "?xs = l # ys" by (cases ?xs) auto
  then show ?thesis
    using get_first_satisfied_literal_eq [OF assms(1,2), of d] by (simp add: get_critical_literal_def)
qed

lemma is_clause_satisfied_eq:
  assumes "bf_wf (belegung s)" "clean_clause (bf_length (belegung s)) cl"
  shows "is_clause_satisfied s cl = Some (true_lits (bf_abs (belegung s)) cl \<noteq> {})"
proof -
  let ?xs = "filter (\<lambda>l. l \<noteq> 0 \<and> lit_true (bf_abs (belegung s)) l) cl"
  have "set ?xs = true_lits (bf_abs (belegung s)) cl"
    using assms(2) by (auto simp: true_lits_def clean_clause_def)
  moreover have "\<forall>l \<in> set ?xs. l \<noteq> 0" by auto
  ultimately show ?thesis
    by (cases ?xs) (auto simp: is_clause_satisfied_def get_first_satisfied_literal_eq [OF assms])
qed

lemma num_sat_scan:
  assumes "bf_wf b" "clean_clause (bf_length b) cl" "\<forall>i \<in> set is. i < length cl"
  shows "foldM (\<lambda>i n. do {
         lit \<leftarrow> clause_get cl i;
         let var_index = \<bar>lit\<bar> - 1;
         value \<leftarrow> bf_read b var_index;
         Some (if (0 > lit) \<noteq> value then n + 1 else n) }) (map int is) n =
    Some (n + int (length (filter (lit_true (bf_abs b)) (map ((!) cl) is))))"
  using assms(3)
proof (induction "is" arbitrary: n)
  case (Cons i "is")
  then have "clause_get cl (int i) = Some (cl ! i)" "cl ! i \<noteq> 0" "\<bar>cl ! i\<bar> \<le> bf_length b"
    using clean_clause_nth [OF assms(2)] by auto
  with Cons assms(1) show ?case by (simp add: read_literal lit_true_def)
qed simp

lemma num_sat_lit_in_clause_eq:
  assumes "bf_wf (belegung s)" "clean_clause (bf_length (belegung s)) cl"
  shows "num_sat_lit_in_clause s cl = Some (int (card (true_lits (bf_abs (belegung s)) cl)))"
proof -
  have "distinct (filter (lit_true (bf_abs (belegung s))) cl)"
    using clean_clause_distinct [OF assms(2)] by simp
  then have "card (true_lits (bf_abs (belegung s)) cl) = length (filter (lit_true (bf_abs (belegung s))) cl)"
    unfolding true_lits_filter by (rule distinct_card)
  then show ?thesis
    using num_sat_scan [OF assms, of "[0..<length cl]" 0]
    by (simp add: num_sat_lit_in_clause_def clause_indices_nat map_nth)
qed

section \<open>The list of unsatisfied clauses\<close>

text \<open>The list and the location table represent a set of clauses.\<close>

definition unsat_index :: "nat set \<Rightarrow> int list \<Rightarrow> int list \<Rightarrow> bool" where
  "unsat_index E unsat loc \<longleftrightarrow>
     (\<forall>i < length unsat. \<exists>c \<in> E. unsat ! i = int c \<and> loc ! c = int i) \<and>
     (\<forall>c \<in> E. c < length loc \<and> 0 \<le> loc ! c \<and> loc ! c < int (length unsat) \<and> unsat ! nat (loc ! c) = int c)"

lemma unsat_index_set: "unsat_index E unsat loc \<Longrightarrow> set unsat = int ` E"
proof (intro equalityI subsetI)
  fix x assume "unsat_index E unsat loc" "x \<in> set unsat"
  then show "x \<in> int ` E" by (metis in_set_conv_nth imageI unsat_index_def)
next
  fix x assume u: "unsat_index E unsat loc" "x \<in> int ` E"
  then obtain c where "c \<in> E" "x = int c" by blast
  with u(1) have "x = unsat ! nat (loc ! c)" "nat (loc ! c) < length unsat"
    by (auto simp: unsat_index_def nat_less_iff)
  then show "x \<in> set unsat" by simp
qed

lemma unsat_index_distinct: "unsat_index E unsat loc \<Longrightarrow> distinct unsat"
  unfolding unsat_index_def distinct_conv_nth by (metis of_nat_eq_iff)

lemma unsat_index_card:
  assumes "unsat_index E unsat loc"
  shows "length unsat = card E"
  using unsat_index_set [OF assms] distinct_card [OF unsat_index_distinct [OF assms]]
  by (simp add: card_image)

lemma unsat_index_finite: "unsat_index E unsat loc \<Longrightarrow> finite E"
  using unsat_index_set by (metis finite_imageD finite_set inj_on_of_nat)

lemma unsat_index_at:
  assumes "unsat_index E unsat loc" "i < length unsat"
  obtains c where "c \<in> E" "unsat ! i = int c" "loc ! c = int i" "c < length loc"
  using assms unfolding unsat_index_def by metis

lemma unsat_index_loc:
  assumes "unsat_index E unsat loc" "c \<in> E"
  obtains k where "loc ! c = int k" "k < length unsat" "unsat ! k = int c" "c < length loc"
proof -
  have "0 \<le> loc ! c" "loc ! c < int (length unsat)" "unsat ! nat (loc ! c) = int c" "c < length loc"
    using assms by (auto simp: unsat_index_def)
  then show ?thesis using that [of "nat (loc ! c)"] by (simp add: nat_less_iff)
qed

lemma unsat_indexI:
  assumes "\<And>i. i < length unsat \<Longrightarrow> \<exists>c \<in> E. unsat ! i = int c \<and> loc ! c = int i"
    and "\<And>c. c \<in> E \<Longrightarrow> \<exists>k < length unsat. loc ! c = int k \<and> unsat ! k = int c \<and> c < length loc"
  shows "unsat_index E unsat loc"
  unfolding unsat_index_def
proof (intro conjI ballI allI impI)
  fix c assume "c \<in> E"
  from assms(2) [OF this] obtain k where
    "k < length unsat" "loc ! c = int k" "unsat ! k = int c" "c < length loc" by blast
  then show "c < length loc" "0 \<le> loc ! c" "loc ! c < int (length unsat)" "unsat ! nat (loc ! c) = int c"
    by simp_all
qed (use assms(1) in blast)

lemma unsat_index_insert:
  assumes u: "unsat_index E unsat loc" and c: "c \<notin> E" "c < length loc"
  shows "unsat_index (insert c E) (unsat @ [int c]) (loc[c := int (length unsat)])"
proof (rule unsat_indexI)
  fix i assume "i < length (unsat @ [int c])"
  then consider "i = length unsat" | "i < length unsat" by fastforce
  then show "\<exists>d \<in> insert c E. (unsat @ [int c]) ! i = int d \<and> loc[c := int (length unsat)] ! d = int i"
  proof cases
    case 1 then show ?thesis using c by auto
  next
    case 2
    then obtain d where "d \<in> E" "unsat ! i = int d" "loc ! d = int i" "d < length loc"
      using unsat_index_at [OF u] by metis
    with c 2 show ?thesis by (intro bexI [of _ d]) (auto simp: nth_append nth_list_update)
  qed
next
  fix d assume d: "d \<in> insert c E"
  show "\<exists>k < length (unsat @ [int c]). loc[c := int (length unsat)] ! d = int k \<and>
      (unsat @ [int c]) ! k = int d \<and> d < length (loc[c := int (length unsat)])"
  proof (cases "d = c")
    case True with c show ?thesis by auto
  next
    case False
    with d obtain k where "loc ! d = int k" "k < length unsat" "unsat ! k = int d" "d < length loc"
      using unsat_index_loc [OF u, of d] by blast
    with False show ?thesis by (intro exI [of _ k]) (auto simp: nth_append)
  qed
qed

lemma unsat_index_other:
  assumes u: "unsat_index E unsat loc" and c: "c \<notin> E"
  shows "unsat_index E unsat (loc[c := x])"
proof (rule unsat_indexI)
  fix i assume "i < length unsat"
  with u c show "\<exists>d \<in> E. unsat ! i = int d \<and> loc[c := x] ! d = int i"
    by (metis nth_list_update_neq unsat_index_at)
next
  fix d assume "d \<in> E"
  with u c show "\<exists>k < length unsat. loc[c := x] ! d = int k \<and> unsat ! k = int d \<and> d < length (loc[c := x])"
    by (metis length_list_update nth_list_update_neq unsat_index_loc)
qed

text \<open>Removing a clause that is not the last of the list moves the last one into its place.\<close>

lemma unsat_index_delete:
  assumes u: "unsat_index E unsat loc" and c: "c \<in> E" "loc ! c = int k"
    and d: "last unsat = int d" and k: "Suc k < length unsat"
  shows "unsat_index (E - {c}) ((butlast unsat)[k := int d]) (loc[c := -1, d := int k])"
proof -
  have "unsat \<noteq> []" using k by auto
  then have n: "last unsat = unsat ! (length unsat - 1)" by (simp add: last_conv_nth)
  have "length unsat - 1 < length unsat" using k by simp
  then obtain d' where "d' \<in> E" "unsat ! (length unsat - 1) = int d'" "loc ! d' = int (length unsat - 1)"
    "d' < length loc"
    using unsat_index_at [OF u] by metis
  then have dE: "d \<in> E" "loc ! d = int (length unsat - 1)" "d < length loc" using d n by auto
  obtain k' where "loc ! c = int k'" "unsat ! k' = int c" "c < length loc"
    using unsat_index_loc [OF u c(1)] by metis
  then have cE: "unsat ! k = int c" "c < length loc" using c by auto
  have dc: "d \<noteq> c" using dE c k by auto
  show ?thesis
  proof (rule unsat_indexI)
    fix i assume i: "i < length ((butlast unsat)[k := int d])"
    show "\<exists>e \<in> E - {c}. (butlast unsat)[k := int d] ! i = int e \<and> loc[c := -1, d := int k] ! e = int i"
    proof (cases "i = k")
      case True with i dE dc show ?thesis by (intro bexI [of _ d]) auto
    next
      case False
      from i have "i < length unsat" by simp
      then obtain e where e: "e \<in> E" "unsat ! i = int e" "loc ! e = int i"
        using unsat_index_at [OF u] by metis
      moreover have "e \<noteq> c" using e(3) c(2) False by auto
      moreover have "e \<noteq> d" using e(3) dE(2) i by auto
      ultimately show ?thesis using False i by (intro bexI [of _ e]) (auto simp: nth_butlast)
    qed
  next
    fix e assume e: "e \<in> E - {c}"
    show "\<exists>j < length ((butlast unsat)[k := int d]). loc[c := -1, d := int k] ! e = int j \<and>
        (butlast unsat)[k := int d] ! j = int e \<and> e < length (loc[c := -1, d := int k])"
    proof (cases "e = d")
      case True with k dE show ?thesis by (intro exI [of _ k]) auto
    next
      case False
      obtain j where j: "loc ! e = int j" "j < length unsat" "unsat ! j = int e" "e < length loc"
        using unsat_index_loc [OF u, of e] e by blast
      moreover have "j \<noteq> k" using j(3) cE(1) e by auto
      moreover have "j \<noteq> length unsat - 1" using j(3) n d False by auto
      ultimately show ?thesis using e False by (intro exI [of _ j]) (auto simp: nth_butlast)
    qed
  qed
qed

lemma unsat_index_delete_last:
  assumes u: "unsat_index E unsat loc" and c: "c \<in> E" "loc ! c = int (length unsat - 1)"
  shows "unsat_index (E - {c}) (butlast unsat) (loc[c := -1])"
proof (rule unsat_indexI)
  fix i assume i: "i < length (butlast unsat)"
  then have "i < length unsat" by simp
  then obtain e where e: "e \<in> E" "unsat ! i = int e" "loc ! e = int i"
    using unsat_index_at [OF u] by metis
  then have "e \<noteq> c" using c(2) i by auto
  with e i show "\<exists>e \<in> E - {c}. butlast unsat ! i = int e \<and> loc[c := -1] ! e = int i"
    by (intro bexI [of _ e]) (auto simp: nth_butlast)
next
  fix e assume e: "e \<in> E - {c}"
  obtain k where k: "loc ! c = int k" "k < length unsat" "unsat ! k = int c"
    using unsat_index_loc [OF u c(1)] by metis
  obtain j where j: "loc ! e = int j" "j < length unsat" "unsat ! j = int e" "e < length loc"
    using unsat_index_loc [OF u, of e] e by blast
  then have "j \<noteq> k" using k e by auto
  then have "j \<noteq> length unsat - 1" using k c(2) by auto
  with j e show "\<exists>j < length (butlast unsat). loc[c := -1] ! e = int j \<and>
      butlast unsat ! j = int e \<and> e < length (loc[c := -1])"
    by (intro exI [of _ j]) (auto simp: nth_butlast)
qed

lemma make_clause_unsat_eq:
  assumes u: "unsat_index E (unsat_clauses s) (unsat_clauses_location s)"
    and c: "c \<notin> E" "c < length (unsat_clauses_location s)"
    and n: "int (length (unsat_clauses s)) < 2 ^ 31"
  shows "\<exists>unsat loc. make_clause_unsat (int c) s =
      Some (s\<lparr>unsat_clauses_location := loc, unsat_clauses := unsat\<rparr>) \<and>
    unsat_index (insert c E) unsat loc \<and> length loc = length (unsat_clauses_location s) \<and>
    (\<forall>d. d \<noteq> c \<longrightarrow> loc ! d = unsat_clauses_location s ! d)"
  using unsat_index_insert [OF u c] c(2) n
  by (auto simp: make_clause_unsat_def int32_id nth_list_update intro!: exI)

lemma make_clause_sat_eq:
  assumes u: "unsat_index E (unsat_clauses s) (unsat_clauses_location s)" and c: "c \<in> E"
  shows "\<exists>unsat loc. make_clause_sat (int c) s =
      Some (s\<lparr>unsat_clauses_location := loc, unsat_clauses := unsat\<rparr>) \<and>
    unsat_index (E - {c}) unsat loc \<and> length loc = length (unsat_clauses_location s) \<and>
    loc ! c = -1 \<and> (\<forall>d. d \<notin> E \<longrightarrow> loc ! d = unsat_clauses_location s ! d)"
proof -
  let ?unsat = "unsat_clauses s" and ?loc = "unsat_clauses_location s"
  obtain k where k: "?loc ! c = int k" "k < length ?unsat" "?unsat ! k = int c" "c < length ?loc"
    using unsat_index_loc [OF u c] by metis
  from k(2) have ne: "?unsat \<noteq> []" by auto
  have other: "\<forall>d. d \<notin> E \<longrightarrow> ?loc[c := -1] ! d = ?loc ! d" using c by (metis nth_list_update_neq)
  show ?thesis
  proof (cases "Suc k < length ?unsat")
    case False
    then have last: "k = length ?unsat - 1" using k(2) by simp
    then have "int k = int (length (butlast ?unsat))" by simp
    with k ne have "make_clause_sat (int c) s =
        Some (s\<lparr>unsat_clauses_location := ?loc[c := -1], unsat_clauses := butlast ?unsat\<rparr>)"
      by (simp add: make_clause_sat_def Let_def del: length_butlast)
    with unsat_index_delete_last [OF u c] k(1,4) last other show ?thesis
      by (intro exI [of _ "butlast ?unsat"] exI [of _ "?loc[c := -1]"]) simp
  next
    case True
    have "length ?unsat - 1 < length ?unsat" using ne by simp
    then obtain d where d: "d \<in> E" "?unsat ! (length ?unsat - 1) = int d" "d < length ?loc"
      using unsat_index_at [OF u] by metis
    have lst: "last ?unsat = int d" using ne d(2) by (simp add: last_conv_nth)
    have dc: "d \<noteq> c"
    proof
      assume "d = c"
      then have "length ?unsat - 1 = k"
        using nth_eq_iff_index_eq [OF unsat_index_distinct [OF u], of "length ?unsat - 1" k] d(2) k ne
        by simp
      with True show False by simp
    qed
    have bl: "butlast ?unsat \<noteq> []" using True by (cases ?unsat rule: rev_cases) auto
    have "make_clause_sat (int c) s = Some (s\<lparr>unsat_clauses_location := ?loc[c := -1, d := int k],
        unsat_clauses := (butlast ?unsat)[k := int d]\<rparr>)"
      using k ne bl True lst d(3) by (simp add: make_clause_sat_def Let_def)
    moreover have "\<forall>e. e \<notin> E \<longrightarrow> ?loc[c := -1, d := int k] ! e = ?loc ! e"
      using c d(1) by (metis nth_list_update_neq)
    ultimately show ?thesis
      using unsat_index_delete [OF u c k(1) lst True] k(4) dc
      by (intro exI [of _ "(butlast ?unsat)[k := int d]"] exI [of _ "?loc[c := -1, d := int k]"]) simp
  qed
qed

end
