(* ===== verification/Instance_Step.thy ===== *)
theory Instance_Step
  imports Instance_Invariant
begin

text \<open>
  The consistency of the cached data of a solver with a family \<open>TS\<close> of satisfied literals,
  and its preservation by the bodies of the two loops of \<open>flip_literal\<close>.
\<close>

section \<open>Break counters\<close>

text \<open>\<open>sole S v\<close>: the only element of \<open>S\<close> is a literal of the variable with index \<open>v\<close>.\<close>

definition sole :: "int set \<Rightarrow> nat \<Rightarrow> bool" where
  "sole S v \<longleftrightarrow> (\<exists>l. S = {l} \<and> nat \<bar>l\<bar> = Suc v)"

definition breaks :: "nat \<Rightarrow> (nat \<Rightarrow> int set) \<Rightarrow> nat \<Rightarrow> nat" where
  "breaks m TS v = card {c. c < m \<and> sole (TS c) v}"

lemma sole_singleton [simp]: "sole {l} v \<longleftrightarrow> nat \<bar>l\<bar> = Suc v"
  by (simp add: sole_def)

lemma not_sole: "(\<And>l. S \<noteq> {l}) \<Longrightarrow> \<not> sole S v"
  by (auto simp: sole_def)

lemma breaks_cong: "(\<And>c. c < m \<Longrightarrow> TS c = TS' c) \<Longrightarrow> breaks m TS v = breaks m TS' v"
  unfolding breaks_def by (metis (mono_tags, lifting) Collect_cong)

lemma breaks_upd:
  assumes "c < m"
  shows "breaks m (TS(c := S)) v + (if sole (TS c) v then 1 else 0) =
    breaks m TS v + (if sole S v then 1 else 0)"
proof -
  let ?A = "{d. d < m \<and> d \<noteq> c \<and> sole (TS d) v}"
  have "{d. d < m \<and> sole ((TS(c := S)) d) v} = (if sole S v then insert c ?A else ?A)"
    "{d. d < m \<and> sole (TS d) v} = (if sole (TS c) v then insert c ?A else ?A)"
    using assms by auto
  moreover have "finite ?A" "c \<notin> ?A" by auto
  ultimately show ?thesis by (simp add: breaks_def)
qed

lemma true_lits_polarity:
  assumes "l \<in> true_lits \<sigma> cl" "nat \<bar>l\<bar> = Suc v"
  shows "l = (if \<sigma> ! v then int v + 1 else - (int v + 1))"
proof -
  have "\<bar>l\<bar> = int v + 1" using assms(2) by simp
  moreover have "(0 > l) \<noteq> \<sigma> ! v" using assms calculation by (simp add: true_lits_def lit_true_def)
  ultimately show ?thesis by (auto simp: abs_if split: if_splits)
qed

lemma breaks_le_occurrences:
  assumes "\<And>c. c < length cls \<Longrightarrow> TS c \<subseteq> true_lits \<sigma> (cls ! c)"
  shows "breaks (length cls) TS v \<le>
    length (occurrences cls (if \<sigma> ! v then int v + 1 else - (int v + 1)))"
    (is "_ \<le> length (occurrences cls ?l)")
proof -
  have "{c. c < length cls \<and> sole (TS c) v} \<subseteq> set (occurrences cls ?l)"
  proof
    fix c assume "c \<in> {c. c < length cls \<and> sole (TS c) v}"
    then obtain l where c: "c < length cls" "TS c = {l}" "nat \<bar>l\<bar> = Suc v" by (auto simp: sole_def)
    with assms [of c] have "l \<in> true_lits \<sigma> (cls ! c)" by auto
    moreover from true_lits_polarity [OF this c(3)] have "l = ?l" .
    ultimately show "c \<in> set (occurrences cls ?l)"
      using c(1) by (simp add: set_occurrences true_lits_def)
  qed
  then have "breaks (length cls) TS v \<le> card (set (occurrences cls ?l))"
    unfolding breaks_def by (intro card_mono) auto
  then show ?thesis by (simp add: distinct_card distinct_occurrences)
qed

section \<open>Consistency\<close>

definition counters_ok :: "cnf_formula \<Rightarrow> (nat \<Rightarrow> int set) \<Rightarrow> int list \<Rightarrow> bool" where
  "counters_ok F TS nb \<longleftrightarrow> int (length nb) = num_variables F \<and>
     (\<forall>v < length nb. nb ! v = int (breaks (length (clauses F)) TS v))"

definition consistent ::
    "cnf_formula \<Rightarrow> bool \<Rightarrow> bool list \<Rightarrow> (nat \<Rightarrow> int set) \<Rightarrow> instance_state \<Rightarrow> bool" where
  "consistent F caching \<sigma> TS s \<longleftrightarrow>
     length (unsat_clauses_location s) = length (clauses F) \<and>
     length (crit_literal_in_clause s) = length (clauses F) \<and>
     (\<forall>c < length (clauses F). TS c \<subseteq> true_lits \<sigma> (clauses F ! c)) \<and>
     unsat_index {c. c < length (clauses F) \<and> TS c = {}} (unsat_clauses s) (unsat_clauses_location s) \<and>
     (\<forall>c < length (clauses F). TS c \<noteq> {} \<longrightarrow> unsat_clauses_location s ! c = - int (card (TS c))) \<and>
     (caching \<longrightarrow> counters_ok F TS (num_breaks_by_flip s) \<and>
       (\<forall>c < length (clauses F). \<forall>l. TS c = {l} \<longrightarrow> crit_literal_in_clause s ! c = l))"

lemma consistent_cong:
  assumes "\<And>c. c < length (clauses F) \<Longrightarrow> TS c = TS' c"
  shows "consistent F caching \<sigma> TS s \<longleftrightarrow> consistent F caching \<sigma> TS' s"
proof -
  have "{c. c < length (clauses F) \<and> TS c = {}} = {c. c < length (clauses F) \<and> TS' c = {}}"
    using assms by auto
  moreover have "counters_ok F TS nb = counters_ok F TS' nb" for nb
    using breaks_cong [of "length (clauses F)" TS TS'] assms by (simp add: counters_ok_def)
  ultimately show ?thesis using assms by (simp add: consistent_def)
qed

lemma consistent_switch:
  assumes "consistent F caching \<sigma> TS s"
    and "\<And>c. c < length (clauses F) \<Longrightarrow> TS c \<subseteq> true_lits \<sigma>' (clauses F ! c)"
  shows "consistent F caching \<sigma>' TS s"
  using assms by (simp add: consistent_def)

lemma counters_bound:
  assumes "formula_ok F" "\<And>c. c < length (clauses F) \<Longrightarrow> TS c \<subseteq> true_lits \<sigma> (clauses F ! c)"
  shows "int (breaks (length (clauses F)) TS v) < 2 ^ 15"
proof -
  have "length (occurrences (clauses F) l) < 2 ^ 15" for l
    using assms(1) by (simp add: formula_ok_def)
  with breaks_le_occurrences [of "clauses F" TS \<sigma> v] assms(2) show ?thesis
    by (metis (no_types, lifting) of_nat_less_iff of_nat_numeral of_nat_power order_le_less_trans)
qed

text \<open>The counter of a variable when a clause gets, or loses, its only satisfied literal.\<close>

lemma counters_gain:
  assumes F: "formula_ok F" and ok: "counters_ok F TS nb" and c: "c < length (clauses F)"
    and TS: "\<And>d. d < length (clauses F) \<Longrightarrow> (TS(c := {l})) d \<subseteq> true_lits \<sigma> (clauses F ! d)"
    and old: "\<And>l'. TS c \<noteq> {l'}" and l: "1 \<le> \<bar>l\<bar>" "\<bar>l\<bar> \<le> num_variables F"
  shows "\<exists>nb'. vmodify nb (\<bar>l\<bar> - 1) (\<lambda>x. int16 (x + 1)) = Some nb' \<and> counters_ok F (TS(c := {l})) nb'"
proof -
  define v where "v = nat (\<bar>l\<bar> - 1)"
  have v: "nat \<bar>l\<bar> = Suc v" "int v = \<bar>l\<bar> - 1" "v < length nb"
    using l ok by (auto simp: v_def counters_ok_def)
  have up: "breaks (length (clauses F)) (TS(c := {l})) w =
      breaks (length (clauses F)) TS w + (if w = v then 1 else 0)" for w
    using breaks_upd [OF c, of TS "{l}" w] not_sole [of "TS c" w] old v(1) by auto
  have "int16 (nb ! v + 1) = int (breaks (length (clauses F)) (TS(c := {l})) v)"
    using counters_bound [of F "TS(c := {l})" \<sigma> v, OF F TS] ok v(3)
    by (simp add: counters_ok_def int16_id up del: fun_upd_apply)
  then have "counters_ok F (TS(c := {l})) (nb[v := int16 (nb ! v + 1)])"
    using ok up by (auto simp: counters_ok_def nth_list_update)
  moreover have "vmodify nb (\<bar>l\<bar> - 1) (\<lambda>x. int16 (x + 1)) = Some (nb[v := int16 (nb ! v + 1)])"
    using v by (simp add: vmodify_in flip: v(2))
  ultimately show ?thesis by blast
qed

lemma counters_lose:
  assumes F: "formula_ok F" and ok: "counters_ok F TS nb" and c: "c < length (clauses F)"
    and TS: "\<And>d. d < length (clauses F) \<Longrightarrow> TS d \<subseteq> true_lits \<sigma> (clauses F ! d)"
    and old: "TS c = {l}" and new: "\<And>l'. S \<noteq> {l'}" and l: "1 \<le> \<bar>l\<bar>" "\<bar>l\<bar> \<le> num_variables F"
  shows "\<exists>nb'. vmodify nb (\<bar>l\<bar> - 1) (\<lambda>x. int16 (x - 1)) = Some nb' \<and> counters_ok F (TS(c := S)) nb'"
proof -
  define v where "v = nat (\<bar>l\<bar> - 1)"
  have v: "nat \<bar>l\<bar> = Suc v" "int v = \<bar>l\<bar> - 1" "v < length nb"
    using l ok by (auto simp: v_def counters_ok_def)
  have up: "int (breaks (length (clauses F)) TS w) =
      int (breaks (length (clauses F)) (TS(c := S)) w) + (if w = v then 1 else 0)" for w
    using breaks_upd [OF c, of TS S w] not_sole [of S w] old new v(1) by auto
  have "int16 (nb ! v - 1) = int (breaks (length (clauses F)) (TS(c := S)) v)"
    using counters_bound [of F TS \<sigma> v, OF F TS] ok v(3)
    by (simp add: counters_ok_def int16_id up del: fun_upd_apply)
  then have "counters_ok F (TS(c := S)) (nb[v := int16 (nb ! v - 1)])"
    using ok v(3) by (auto simp: counters_ok_def nth_list_update up simp del: fun_upd_apply)
  moreover have "vmodify nb (\<bar>l\<bar> - 1) (\<lambda>x. int16 (x - 1)) = Some (nb[v := int16 (nb ! v - 1)])"
    using v by (simp add: vmodify_in flip: v(2))
  ultimately show ?thesis by blast
qed

lemma counters_same:
  assumes "counters_ok F TS nb" "c < length (clauses F)" "\<And>l. TS c \<noteq> {l}" "\<And>l. S \<noteq> {l}"
  shows "counters_ok F (TS(c := S)) nb"
  using assms breaks_upd [OF assms(2), of TS S] not_sole [of "TS c"] not_sole [of S]
  by (simp add: counters_ok_def)

section \<open>The loop bodies\<close>

text \<open>
  \<open>frame\<close>: what the loops leave alone. The bodies of both loops keep it, and it carries
  the assignment and the flip count through them.
\<close>

definition same_frame :: "instance_state \<Rightarrow> instance_state \<Rightarrow> bool" where
  "same_frame s s' \<longleftrightarrow> belegung s' = belegung s \<and> num_flips_done s' = num_flips_done s"

lemma same_frame_refl [simp]: "same_frame s s"
  by (simp add: same_frame_def)

lemma same_frame_trans: "same_frame s s' \<Longrightarrow> same_frame s' s'' \<Longrightarrow> same_frame s s''"
  by (simp add: same_frame_def)

lemma consistentD:
  assumes "consistent F caching \<sigma> TS s"
  shows "length (unsat_clauses_location s) = length (clauses F)"
    and "length (crit_literal_in_clause s) = length (clauses F)"
    and "\<And>c. c < length (clauses F) \<Longrightarrow> TS c \<subseteq> true_lits \<sigma> (clauses F ! c)"
    and "unsat_index {c. c < length (clauses F) \<and> TS c = {}} (unsat_clauses s) (unsat_clauses_location s)"
    and "\<And>c. c < length (clauses F) \<Longrightarrow> TS c \<noteq> {} \<Longrightarrow>
      unsat_clauses_location s ! c = - int (card (TS c))"
    and "caching \<Longrightarrow> counters_ok F TS (num_breaks_by_flip s)"
    and "\<And>c l. caching \<Longrightarrow> c < length (clauses F) \<Longrightarrow> TS c = {l} \<Longrightarrow> crit_literal_in_clause s ! c = l"
  using assms by (auto simp: consistent_def)

lemma consistent_unsat_length:
  assumes "consistent F caching \<sigma> TS s"
  shows "length (unsat_clauses s) \<le> length (clauses F)"
proof -
  have "length (unsat_clauses s) = card {c. c < length (clauses F) \<and> TS c = {}}"
    using unsat_index_card [OF consistentD(4) [OF assms]] .
  also have "\<dots> \<le> card {..<length (clauses F)}" by (intro card_mono) auto
  finally show ?thesis by simp
qed

text \<open>One clause changes its set of satisfied literals to \<open>S\<close>.\<close>

lemma consistent_upd:
  assumes con: "consistent F caching \<sigma> TS s" and c: "c < length (clauses F)"
    and S: "S \<subseteq> true_lits \<sigma> (clauses F ! c)"
    and unsat: "unsat_index {d. d < length (clauses F) \<and> (TS(c := S)) d = {}}
      (unsat_clauses s') (unsat_clauses_location s')"
    and loc: "length (unsat_clauses_location s') = length (clauses F)"
      "S \<noteq> {} \<Longrightarrow> unsat_clauses_location s' ! c = - int (card S)"
      "\<And>d. d \<noteq> c \<Longrightarrow> TS d \<noteq> {} \<Longrightarrow> unsat_clauses_location s' ! d = unsat_clauses_location s ! d"
    and nb: "caching \<Longrightarrow> counters_ok F (TS(c := S)) (num_breaks_by_flip s')"
    and crit: "length (crit_literal_in_clause s') = length (clauses F)"
      "\<And>d. d \<noteq> c \<Longrightarrow> crit_literal_in_clause s' ! d = crit_literal_in_clause s ! d"
      "\<And>l. caching \<Longrightarrow> S = {l} \<Longrightarrow> crit_literal_in_clause s' ! c = l"
  shows "consistent F caching \<sigma> (TS(c := S)) s'"
  unfolding consistent_def using consistentD [OF con] assms by auto

text \<open>
  Breaking: the clause satisfies \<open>-literal\<close> under the current assignment and loses it.
\<close>

lemma int32_card:
  assumes "clean_clause nv cl" "S \<subseteq> true_lits \<sigma> cl"
  shows "int (card S) \<le> 256"
proof -
  have "S \<subseteq> set cl" using assms(2) by (auto simp: true_lits_def)
  then have "card S \<le> card (set cl)" by (intro card_mono) auto
  also have "\<dots> \<le> length cl" by (rule card_length)
  finally show ?thesis using assms(1) by (simp add: clean_clause_def)
qed

lemma clause_facts:
  assumes "formula_ok F" "c < length (clauses F)"
  shows "clean_clause (num_variables F) (clauses F ! c)"
    and "get_clause F (int c) = Some (clauses F ! c)"
    and "l \<in> true_lits \<sigma> (clauses F ! c) \<Longrightarrow> 1 \<le> \<bar>l\<bar> \<and> \<bar>l\<bar> \<le> num_variables F"
proof -
  show cl: "clean_clause (num_variables F) (clauses F ! c)"
    using assms by (simp add: formula_ok_def clean_clauses_def)
  show "get_clause F (int c) = Some (clauses F ! c)" using assms(2) by (simp add: get_clause_def)
  show "1 \<le> \<bar>l\<bar> \<and> \<bar>l\<bar> \<le> num_variables F" if "l \<in> true_lits \<sigma> (clauses F ! c)"
    using that cl by (auto simp: true_lits_def clean_clause_def)
qed

lemma break_last:
  assumes F: "formula_ok F" and con: "consistent F caching \<sigma> TS s" and c: "c < length (clauses F)"
    and X: "TS c = {- literal}"
  shows "\<exists>s'. break_clause F caching literal (int c) s = Some s' \<and> same_frame s s' \<and>
    consistent F caching \<sigma> (TS(c := {})) s'"
proof -
  let ?E = "{d. d < length (clauses F) \<and> TS d = {}}"
  let ?loc = "unsat_clauses_location s" and ?nb = "num_breaks_by_flip s"
  note D = consistentD [OF con]
  have lit: "1 \<le> \<bar>- literal\<bar>" "\<bar>- literal\<bar> \<le> num_variables F"
    using clause_facts(3) [OF F c, of "- literal" \<sigma>] D(3) [OF c] X by auto
  have ucl: "vget ?loc (int c) = Some (-1)" using D(1) D(5) [OF c] X c by simp
  obtain unsat loc where u: "make_clause_unsat (int c) s =
      Some (s\<lparr>unsat_clauses_location := loc, unsat_clauses := unsat\<rparr>)"
    "unsat_index (insert c ?E) unsat loc" "length loc = length ?loc" "\<forall>d. d \<noteq> c \<longrightarrow> loc ! d = ?loc ! d"
    using make_clause_unsat_eq [OF D(4), of c] X c D(1) consistent_unsat_length [OF con] F
    by (auto simp: formula_ok_def)
  have E: "insert c ?E = {d. d < length (clauses F) \<and> (TS(c := {})) d = {}}" using c by auto
  obtain nb where nb: "(if caching then vmodify ?nb (\<bar>literal\<bar> - 1) (\<lambda>x. int16 (x - 1)) else Some ?nb) = Some nb"
    "caching \<Longrightarrow> counters_ok F (TS(c := {})) nb"
    using counters_lose [OF F D(6) c D(3) X, of "{}"] lit by (cases caching) auto
  let ?s' = "s\<lparr>unsat_clauses_location := loc, unsat_clauses := unsat, num_breaks_by_flip := nb,
    crit_literal_in_clause := (crit_literal_in_clause s)[c := 0]\<rparr>"
  have "consistent F caching \<sigma> (TS(c := {})) ?s'"
    using u E D(1,2) nb(2) by (intro consistent_upd [OF con c]) auto
  moreover have "break_clause F caching literal (int c) s = Some ?s'"
    using ucl u nb(1) c D(2) by (cases caching) (simp_all add: break_clause_def Let_def)
  ultimately show ?thesis by (auto simp: same_frame_def)
qed

lemma break_second:
  assumes F: "formula_ok F" and con: "consistent F caching \<sigma> TS s" and c: "c < length (clauses F)"
    and b: "bf_wf (belegung s)" "bf_length (belegung s) = num_variables F" "\<sigma> = bf_abs (belegung s)"
    and X: "TS c = true_lits \<sigma> (clauses F ! c)" "TS c - {- literal} = {l}" "- literal \<in> TS c"
  shows "\<exists>s'. break_clause F caching literal (int c) s = Some s' \<and> same_frame s s' \<and>
    consistent F caching \<sigma> (TS(c := {l})) s'"
proof -
  let ?E = "{d. d < length (clauses F) \<and> TS d = {}}"
  let ?loc = "unsat_clauses_location s" and ?nb = "num_breaks_by_flip s"
  note D = consistentD [OF con] and cl = clause_facts [OF F c]
  have two: "TS c = {- literal, l}" "l \<noteq> - literal" using X by auto
  have ucl: "vget ?loc (int c) = Some (-2)" using D(1) D(5) [OF c] two c by simp
  have l: "l \<in> true_lits \<sigma> (clauses F ! c)" using X by auto
  let ?loc' = "?loc[c := -1]"
  let ?s1 = "s\<lparr>unsat_clauses_location := ?loc'\<rparr>"
  have loc: "vmodify ?loc (int c) (\<lambda>x. int32 (x + 1)) = Some ?loc'"
    using ucl c D(1) by (auto simp: vmodify_def int32_def)
  have crit: "get_critical_literal ?s1 (clauses F ! c) (- literal) = Some l"
    using b cl(1) X(1,2) by (intro get_critical_literal_unique) auto
  have TS': "(TS(c := {l})) d \<subseteq> true_lits \<sigma> (clauses F ! d)" if "d < length (clauses F)" for d
    using that D(3) l by auto
  have notsingle: "TS c \<noteq> {l'}" for l' using two by auto
  obtain nb where nb: "caching \<Longrightarrow> vmodify ?nb (\<bar>l\<bar> - 1) (\<lambda>x. int16 (x + 1)) = Some nb"
    "caching \<Longrightarrow> counters_ok F (TS(c := {l})) nb"
    using counters_gain [OF F D(6) c TS' notsingle] cl(3) [OF l] by blast
  define nb' where "nb' = (if caching then nb else ?nb)"
  define crit' where "crit' = (if caching then (crit_literal_in_clause s)[c := l] else crit_literal_in_clause s)"
  let ?s' = "s\<lparr>unsat_clauses_location := ?loc', num_breaks_by_flip := nb', crit_literal_in_clause := crit'\<rparr>"
  have E: "?E = {d. d < length (clauses F) \<and> (TS(c := {l})) d = {}}" using two by auto
  have "unsat_index ?E (unsat_clauses s) ?loc'"
    using D(4) two by (intro unsat_index_other) auto
  then have "consistent F caching \<sigma> (TS(c := {l})) ?s'"
    using E D(1,2) nb(2) c l by (intro consistent_upd [OF con c]) (auto simp: nb'_def crit'_def)
  moreover have "break_clause F caching literal (int c) s = Some ?s'"
    using ucl loc crit cl(2) nb(1) c D(2)
    by (cases caching) (simp_all add: break_clause_def Let_def nb'_def crit'_def)
  ultimately show ?thesis by (auto simp: same_frame_def)
qed

lemma card_two: "finite X \<Longrightarrow> X \<noteq> {} \<Longrightarrow> (\<And>l. X \<noteq> {l}) \<Longrightarrow> 2 \<le> card X"
  by (metis One_nat_def Suc_1 Suc_leI card_1_singletonE card_gt_0_iff le_neq_implies_less)

lemma break_more:
  assumes F: "formula_ok F" and con: "consistent F caching \<sigma> TS s" and c: "c < length (clauses F)"
    and X: "- literal \<in> TS c" "TS c - {- literal} \<noteq> {}" "\<And>l. TS c - {- literal} \<noteq> {l}"
  shows "\<exists>s'. break_clause F caching literal (int c) s = Some s' \<and> same_frame s s' \<and>
    consistent F caching \<sigma> (TS(c := TS c - {- literal})) s'"
proof -
  let ?S = "TS c - {- literal}" and ?loc = "unsat_clauses_location s"
  note D = consistentD [OF con]
  have fin: "finite (TS c)" using finite_subset [OF D(3) [OF c]] by simp
  have card: "card (TS c) = Suc (card ?S)" using X(1) fin by (metis card_Suc_Diff1)
  have S2: "2 \<le> card ?S" using card_two [of ?S] X fin by blast
  have "int (card ?S) \<le> 256" using int32_card [OF clause_facts(1) [OF F c], of ?S] D(3) [OF c] by blast
  then have eq: "int32 (- int (card (TS c)) + 1) = - int (card ?S)" using card by (simp add: int32_id)
  have ucl: "vget ?loc (int c) = Some (- int (card (TS c)))" using D(1) D(5) [OF c] X c by auto
  let ?s' = "s\<lparr>unsat_clauses_location := ?loc[c := - int (card ?S)]\<rparr>"
  have ex: "break_clause F caching literal (int c) s = Some ?s'"
    using ucl eq S2 c D(1) card by (simp add: break_clause_def Let_def vmodify_def)
  have E: "{d. d < length (clauses F) \<and> TS d = {}} = {d. d < length (clauses F) \<and> (TS(c := ?S)) d = {}}"
    using X by auto
  have "TS c \<noteq> {l}" for l using S2 card by auto
  then have "counters_ok F (TS(c := ?S)) (num_breaks_by_flip s)" if caching
    using that X(3) by (intro counters_same [OF D(6) c]) auto
  moreover have "unsat_index {d. d < length (clauses F) \<and> TS d = {}} (unsat_clauses s) (?loc[c := - int (card ?S)])"
    using D(4) X by (intro unsat_index_other) auto
  ultimately have "consistent F caching \<sigma> (TS(c := ?S)) ?s'"
    using E D(1,2) D(3) [OF c] c X by (intro consistent_upd [OF con c]) auto
  with ex show ?thesis by (auto simp: same_frame_def)
qed

lemma break_clause_ok:
  assumes F: "formula_ok F" and con: "consistent F caching \<sigma> TS s" and c: "c < length (clauses F)"
    and b: "bf_wf (belegung s)" "bf_length (belegung s) = num_variables F" "\<sigma> = bf_abs (belegung s)"
    and X: "TS c = true_lits \<sigma> (clauses F ! c)" "- literal \<in> TS c"
  shows "\<exists>s'. break_clause F caching literal (int c) s = Some s' \<and> same_frame s s' \<and>
    consistent F caching \<sigma> (TS(c := TS c - {- literal})) s'"
proof -
  consider "TS c = {- literal}" | l where "TS c - {- literal} = {l}"
    | "TS c - {- literal} \<noteq> {}" "\<And>l. TS c - {- literal} \<noteq> {l}" using X(2) by blast
  then show ?thesis
  proof cases
    case 1 with break_last [OF F con c] show ?thesis by simp
  next
    case 2 with break_second [OF F con c b X(1) 2 X(2)] show ?thesis by simp
  next
    case 3 with break_more [OF F con c X(2)] show ?thesis by blast
  qed
qed

text \<open>Making: the clause contains \<open>literal\<close>, which becomes satisfied.\<close>

lemma make_first:
  assumes F: "formula_ok F" and con: "consistent F caching \<sigma> TS s" and c: "c < length (clauses F)"
    and lit: "literal \<in> true_lits \<sigma> (clauses F ! c)" and X: "TS c = {}"
  shows "\<exists>s'. make_clause F caching literal (int c) s = Some s' \<and> same_frame s s' \<and>
    consistent F caching \<sigma> (TS(c := {literal})) s'"
proof -
  let ?E = "{d. d < length (clauses F) \<and> TS d = {}}"
  let ?loc = "unsat_clauses_location s" and ?nb = "num_breaks_by_flip s"
  note D = consistentD [OF con]
  have cE: "c \<in> ?E" using X c by simp
  obtain k where ucl: "vget ?loc (int c) = Some (int k)"
    using unsat_index_loc [OF D(4) cE] by (metis vget_nat)
  obtain unsat loc where u: "make_clause_sat (int c) s =
      Some (s\<lparr>unsat_clauses_location := loc, unsat_clauses := unsat\<rparr>)"
    "unsat_index (?E - {c}) unsat loc" "length loc = length ?loc" "loc ! c = -1"
    "\<forall>d. d \<notin> ?E \<longrightarrow> loc ! d = ?loc ! d"
    using make_clause_sat_eq [OF D(4) cE] by blast
  have E: "?E - {c} = {d. d < length (clauses F) \<and> (TS(c := {literal})) d = {}}" by auto
  have TS': "(TS(c := {literal})) d \<subseteq> true_lits \<sigma> (clauses F ! d)" if "d < length (clauses F)" for d
    using that D(3) lit by auto
  obtain nb where nb: "(if caching then vmodify ?nb (\<bar>literal\<bar> - 1) (\<lambda>x. int16 (x + 1)) else Some ?nb) = Some nb"
    "caching \<Longrightarrow> counters_ok F (TS(c := {literal})) nb"
    using counters_gain [OF F D(6) c TS'] X clause_facts(3) [OF F c lit] by (cases caching) auto
  let ?s' = "s\<lparr>unsat_clauses_location := loc, unsat_clauses := unsat, num_breaks_by_flip := nb,
    crit_literal_in_clause := (crit_literal_in_clause s)[c := literal]\<rparr>"
  have "consistent F caching \<sigma> (TS(c := {literal})) ?s'"
    using u E D(1,2) nb(2) c lit by (intro consistent_upd [OF con c]) auto
  moreover have "make_clause F caching literal (int c) s = Some ?s'"
    using ucl u nb(1) c D(2) by (cases caching) (simp_all add: make_clause_def Let_def)
  ultimately show ?thesis by (auto simp: same_frame_def)
qed

lemma make_second:
  assumes F: "formula_ok F" and con: "consistent F caching \<sigma> TS s" and c: "c < length (clauses F)"
    and b: "bf_wf (belegung s)" "bf_length (belegung s) = num_variables F"
    and lit: "literal \<in> true_lits \<sigma> (clauses F ! c)" and X: "TS c = {l}" "literal \<noteq> l"
  shows "\<exists>s'. make_clause F caching literal (int c) s = Some s' \<and> same_frame s s' \<and>
    consistent F caching \<sigma> (TS(c := {literal, l})) s'"
proof -
  let ?loc = "unsat_clauses_location s" and ?nb = "num_breaks_by_flip s"
  note D = consistentD [OF con] and cl = clause_facts [OF F c]
  have ucl: "vget ?loc (int c) = Some (-1)" using D(1) D(5) [OF c] X c by simp
  have l: "l \<in> true_lits \<sigma> (clauses F ! c)" using D(3) [OF c] X by auto
  let ?s1 = "s\<lparr>unsat_clauses_location := ?loc[c := -2]\<rparr>"
  have loc: "vmodify ?loc (int c) (\<lambda>x. int32 (x - 1)) = Some (?loc[c := -2])"
    using ucl c D(1) by (auto simp: vmodify_def int32_def)
  obtain l0 where crit: "get_critical_literal ?s1 (clauses F ! c) (- literal) = Some l0"
    using get_critical_literal_defined [of ?s1 "clauses F ! c" "- literal"] b cl(1) by auto
  have notsingle: "{literal, l} \<noteq> {l'}" for l' using X by auto
  obtain nb where nb: "caching \<Longrightarrow> vmodify ?nb (\<bar>l\<bar> - 1) (\<lambda>x. int16 (x - 1)) = Some nb"
    "caching \<Longrightarrow> counters_ok F (TS(c := {literal, l})) nb"
    using counters_lose [OF F D(6) c D(3) X(1) notsingle] cl(3) [OF l] by blast
  define nb' where "nb' = (if caching then nb else ?nb)"
  let ?s' = "s\<lparr>unsat_clauses_location := ?loc[c := -2], num_breaks_by_flip := nb'\<rparr>"
  have E: "{d. d < length (clauses F) \<and> TS d = {}} =
      {d. d < length (clauses F) \<and> (TS(c := {literal, l})) d = {}}" using X by auto
  have "unsat_index {d. d < length (clauses F) \<and> TS d = {}} (unsat_clauses s) (?loc[c := -2])"
    using D(4) X by (intro unsat_index_other) auto
  then have "consistent F caching \<sigma> (TS(c := {literal, l})) ?s'"
    using E D(1,2) nb(2) c l lit X notsingle by (intro consistent_upd [OF con c]) (auto simp: nb'_def)
  moreover have "make_clause F caching literal (int c) s = Some ?s'"
    using ucl loc crit cl(2) nb(1) c D(2) D(7) [OF _ c X(1)]
    by (cases caching) (simp_all add: make_clause_def Let_def nb'_def)
  ultimately show ?thesis by (auto simp: same_frame_def)
qed

lemma make_more:
  assumes F: "formula_ok F" and con: "consistent F caching \<sigma> TS s" and c: "c < length (clauses F)"
    and lit: "literal \<in> true_lits \<sigma> (clauses F ! c)" "literal \<notin> TS c"
    and X: "TS c \<noteq> {}" "\<And>l. TS c \<noteq> {l}"
  shows "\<exists>s'. make_clause F caching literal (int c) s = Some s' \<and> same_frame s s' \<and>
    consistent F caching \<sigma> (TS(c := insert literal (TS c))) s'"
proof -
  let ?S = "insert literal (TS c)" and ?loc = "unsat_clauses_location s"
  note D = consistentD [OF con]
  have fin: "finite (TS c)" using finite_subset [OF D(3) [OF c]] by simp
  have card: "card ?S = Suc (card (TS c))" using lit(2) fin by simp
  have X2: "2 \<le> card (TS c)" using card_two [OF fin] X by blast
  have "int (card ?S) \<le> 256"
    using int32_card [OF clause_facts(1) [OF F c], of ?S \<sigma>] D(3) [OF c] lit(1) by blast
  then have eq: "int32 (- int (card (TS c)) - 1) = - int (card ?S)" using card by (simp add: int32_id)
  have ucl: "vget ?loc (int c) = Some (- int (card (TS c)))" using D(1) D(5) [OF c] X c by auto
  let ?s' = "s\<lparr>unsat_clauses_location := ?loc[c := - int (card ?S)]\<rparr>"
  have ex: "make_clause F caching literal (int c) s = Some ?s'"
    using ucl eq X2 c D(1) by (simp add: make_clause_def Let_def vmodify_def)
  have E: "{d. d < length (clauses F) \<and> TS d = {}} = {d. d < length (clauses F) \<and> (TS(c := ?S)) d = {}}"
    using X by auto
  have S: "?S \<noteq> {l}" for l using X2 card by (metis One_nat_def card_1_singleton_iff numeral_2_eq_2 Suc_n_not_le_n le_SucI)
  then have "counters_ok F (TS(c := ?S)) (num_breaks_by_flip s)" if caching
    using that X(2) by (intro counters_same [OF D(6) c]) auto
  moreover have "unsat_index {d. d < length (clauses F) \<and> TS d = {}} (unsat_clauses s) (?loc[c := - int (card ?S)])"
    using D(4) X by (intro unsat_index_other) auto
  ultimately have "consistent F caching \<sigma> (TS(c := ?S)) ?s'"
    using E D(1,2) D(3) [OF c] c S lit(1) by (intro consistent_upd [OF con c]) auto
  with ex show ?thesis by (auto simp: same_frame_def)
qed

lemma make_clause_ok:
  assumes F: "formula_ok F" and con: "consistent F caching \<sigma> TS s" and c: "c < length (clauses F)"
    and b: "bf_wf (belegung s)" "bf_length (belegung s) = num_variables F"
    and lit: "literal \<in> true_lits \<sigma> (clauses F ! c)" "literal \<notin> TS c"
  shows "\<exists>s'. make_clause F caching literal (int c) s = Some s' \<and> same_frame s s' \<and>
    consistent F caching \<sigma> (TS(c := insert literal (TS c))) s'"
proof -
  consider "TS c = {}" | l where "TS c = {l}" | "TS c \<noteq> {}" "\<And>l. TS c \<noteq> {l}" by blast
  then show ?thesis
  proof cases
    case 1 with make_first [OF F con c lit(1)] show ?thesis by simp
  next
    case 2 with make_second [OF F con c b lit(1) 2] lit(2) show ?thesis by simp
  next
    case 3 with make_more [OF F con c lit] show ?thesis by blast
  qed
qed

end
