(* ===== verification/Instance_Correct.thy ===== *)
theory Instance_Correct
  imports Instance_Step
begin

text \<open>
  The solver's invariant, its establishment by \<open>initialize\<close>, its preservation by
  \<open>flip_literal\<close> and \<open>do_flip\<close>, and what the public queries return under it.
\<close>

definition instance_inv :: "cnf_formula \<Rightarrow> bool \<Rightarrow> instance_state \<Rightarrow> bool" where
  "instance_inv F caching s \<longleftrightarrow> bf_wf (belegung s) \<and> bf_length (belegung s) = num_variables F \<and>
     consistent F caching (bf_abs (belegung s))
       (\<lambda>c. true_lits (bf_abs (belegung s)) (clauses F ! c)) s"

section \<open>Flipping one variable\<close>

definition flip_assignment :: "int \<Rightarrow> bool list \<Rightarrow> bool list" where
  "flip_assignment literal \<sigma> = \<sigma>[nat (\<bar>literal\<bar> - 1) := 0 < literal]"

lemma lit_true_flip:
  assumes "literal \<noteq> 0" "\<bar>literal\<bar> \<le> int (length \<sigma>)" "l \<noteq> 0"
  shows "lit_true (flip_assignment literal \<sigma>) l \<longleftrightarrow>
    (if l = literal then True else if l = - literal then False else lit_true \<sigma> l)"
proof (cases "\<bar>l\<bar> = \<bar>literal\<bar>")
  case True
  with assms show ?thesis
    by (auto simp: lit_true_def flip_assignment_def abs_if split: if_splits)
next
  case False
  with assms have "nat (\<bar>literal\<bar> - 1) \<noteq> nat (\<bar>l\<bar> - 1)" by (auto simp: eq_nat_nat_iff)
  with False show ?thesis by (auto simp: lit_true_def flip_assignment_def)
qed

lemma true_lits_flip:
  assumes "clean_clause nv cl" "literal \<noteq> 0" "\<bar>literal\<bar> \<le> int (length \<sigma>)" "\<not> lit_true \<sigma> literal"
  shows "true_lits (flip_assignment literal \<sigma>) cl =
    (if literal \<in> set cl then insert literal (true_lits \<sigma> cl - {- literal})
     else true_lits \<sigma> cl - {- literal})"
proof (rule set_eqI)
  fix l
  show "l \<in> true_lits (flip_assignment literal \<sigma>) cl \<longleftrightarrow>
    l \<in> (if literal \<in> set cl then insert literal (true_lits \<sigma> cl - {- literal})
      else true_lits \<sigma> cl - {- literal})"
  proof (cases "l \<in> set cl")
    case True
    then have "l \<noteq> 0" using assms(1) by (auto simp: clean_clause_def)
    with True show ?thesis
      using lit_true_flip [OF assms(2,3), of l] assms(2) by (auto simp: true_lits_def)
  qed (auto simp: true_lits_def)
qed

text \<open>A loop over an occurrence list visits different clauses, each once.\<close>

lemma occurrence_loop:
  assumes init: "consistent F caching \<sigma> TS s"
    and body: "\<And>c TS s'. c < length (clauses F) \<Longrightarrow> l \<in> set (clauses F ! c) \<Longrightarrow>
      consistent F caching \<sigma> TS s' \<Longrightarrow> same_frame s s' \<Longrightarrow> TS c = TS0 c \<Longrightarrow>
      \<exists>s''. f (int c) s' = Some s'' \<and> same_frame s' s'' \<and> consistent F caching \<sigma> (TS(c := g c)) s''"
    and TS: "TS = TS0"
  shows "\<exists>s'. foldM f (map int (occurrences (clauses F) l)) s = Some s' \<and> same_frame s s' \<and>
    consistent F caching \<sigma> (\<lambda>c. if c < length (clauses F) \<and> l \<in> set (clauses F ! c) then g c else TS0 c) s'"
proof -
  let ?P = "\<lambda>ys s'. same_frame s s' \<and>
    consistent F caching \<sigma> (\<lambda>c. if c \<in> set ys then g c else TS0 c) s'"
  have "\<exists>s'. foldM (\<lambda>c. f (int c)) (occurrences (clauses F) l) s = Some s' \<and>
      ?P (occurrences (clauses F) l) s'"
  proof (rule foldM_invariant)
    show "?P [] s" using init TS by simp
  next
    fix ys c zs s'
    assume eq: "occurrences (clauses F) l = ys @ c # zs" and P: "?P ys s'"
    then have "c \<notin> set ys" using distinct_occurrences [of "clauses F" l] by simp
    moreover have "c < length (clauses F)" "l \<in> set (clauses F ! c)"
      using eq set_occurrences [of "clauses F" l] by (auto simp: set_eq_iff)
    ultimately obtain s'' where s'': "f (int c) s' = Some s''" "same_frame s' s''"
      "consistent F caching \<sigma> ((\<lambda>c. if c \<in> set ys then g c else TS0 c)(c := g c)) s''"
      using body [of c "\<lambda>c. if c \<in> set ys then g c else TS0 c" s'] P by auto
    have upd: "(\<lambda>c. if c \<in> set ys then g c else TS0 c)(c := g c) =
        (\<lambda>d. if d \<in> set (ys @ [c]) then g d else TS0 d)" by (rule ext) simp
    have "same_frame s s''" using same_frame_trans P s''(2) by blast
    with s''(1) s''(3) [unfolded upd] show "\<exists>s''. f (int c) s' = Some s'' \<and> ?P (ys @ [c]) s''"
      by blast
  qed
  then show ?thesis by (simp add: foldM_map set_occurrences)
qed

lemma occurrence_iterators:
  assumes "formula_ok F" "1 \<le> \<bar>literal\<bar>" "\<bar>literal\<bar> \<le> num_variables F"
  obtains n0 n1 p0 p1 where
    "get_iterators_for_clauses_with_vars F (\<bar>literal\<bar> - 1) = Some (n0, n1, p0, p1)"
    "iter_elems F (if 0 < literal then n0 else p0) (if 0 < literal then n1 else p1) =
       Some (map int (occurrences (clauses F) (- literal)))"
    "iter_elems F (if 0 < literal then p0 else n0) (if 0 < literal then p1 else n1) =
       Some (map int (occurrences (clauses F) literal))"
proof -
  have "occurrences_ok F" "0 \<le> \<bar>literal\<bar> - 1" "\<bar>literal\<bar> - 1 < num_variables F"
    using assms by (auto simp: formula_ok_def)
  then obtain a b d where
    "get_iterators_for_clauses_with_vars F (\<bar>literal\<bar> - 1) = Some (a, b, b, d)"
    "iter_elems F a b = Some (map int (occurrences (clauses F) (- (\<bar>literal\<bar> - 1 + 1))))"
    "iter_elems F b d = Some (map int (occurrences (clauses F) (\<bar>literal\<bar> - 1 + 1)))"
    unfolding occurrences_ok_def by blast
  then show ?thesis using that [of a b b d] by (auto simp: abs_if split: if_splits)
qed

text \<open>
  Flipping an unsatisfied literal is defined, makes exactly that literal true and restores the
  invariant for the new assignment.
\<close>

lemma flip_literal_ok:
  assumes F: "formula_ok F" and inv: "instance_inv F caching s"
    and lit: "1 \<le> \<bar>literal\<bar>" "\<bar>literal\<bar> \<le> num_variables F" "\<not> lit_true (bf_abs (belegung s)) literal"
  shows "\<exists>s'. flip_literal F caching literal s = Some s' \<and> instance_inv F caching s' \<and>
    bf_abs (belegung s') = flip_assignment literal (bf_abs (belegung s)) \<and>
    num_flips_done s' = num_flips_done s"
proof -
  let ?cls = "clauses F" and ?m = "length (clauses F)"
  define \<sigma> where "\<sigma> = bf_abs (belegung s)"
  define \<sigma>' where "\<sigma>' = flip_assignment literal \<sigma>"
  let ?T = "\<lambda>c. true_lits \<sigma> (?cls ! c)"
  have b: "bf_wf (belegung s)" "bf_length (belegung s) = num_variables F"
    and con: "consistent F caching \<sigma> ?T s"
    using inv by (simp_all add: instance_inv_def \<sigma>_def)
  have lit0: "literal \<noteq> 0" "\<bar>literal\<bar> \<le> int (length \<sigma>)" "\<not> lit_true \<sigma> literal"
    using lit b by (auto simp: \<sigma>_def)
  have neg: "lit_true \<sigma> (- literal)" using lit0 by (simp add: lit_true_neg)
  note flip = true_lits_flip [OF clause_facts(1) [OF F] lit0, folded \<sigma>'_def]
  obtain n0 n1 p0 p1 where it:
    "get_iterators_for_clauses_with_vars F (\<bar>literal\<bar> - 1) = Some (n0, n1, p0, p1)"
    "iter_elems F (if 0 < literal then n0 else p0) (if 0 < literal then n1 else p1) =
       Some (map int (occurrences ?cls (- literal)))"
    "iter_elems F (if 0 < literal then p0 else n0) (if 0 < literal then p1 else n1) =
       Some (map int (occurrences ?cls literal))"
    using occurrence_iterators [OF F lit(1,2)] .
  \<comment> \<open>break\<close>
  have "\<exists>s1. foldM (break_clause F caching literal) (map int (occurrences ?cls (- literal))) s = Some s1 \<and>
      same_frame s s1 \<and> consistent F caching \<sigma>
        (\<lambda>c. if c < ?m \<and> - literal \<in> set (?cls ! c) then ?T c - {- literal} else ?T c) s1"
  proof (rule occurrence_loop [OF con _ refl])
    fix c TS s'
    assume c: "c < ?m" "- literal \<in> set (?cls ! c)" and con': "consistent F caching \<sigma> TS s'"
      and fr: "same_frame s s'" and TS: "TS c = ?T c"
    have "- literal \<in> TS c" using c neg TS by (simp add: true_lits_def)
    then show "\<exists>s''. break_clause F caching literal (int c) s' = Some s'' \<and> same_frame s' s'' \<and>
        consistent F caching \<sigma> (TS(c := ?T c - {- literal})) s''"
      using break_clause_ok [OF F con' c(1), of literal] b fr TS
      by (simp add: same_frame_def \<sigma>_def)
  qed
  then obtain s1 where s1: "foldM (break_clause F caching literal) (map int (occurrences ?cls (- literal))) s = Some s1"
    "same_frame s s1" and con1: "consistent F caching \<sigma>
        (\<lambda>c. if c < ?m \<and> - literal \<in> set (?cls ! c) then ?T c - {- literal} else ?T c) s1"
    by blast
  have "consistent F caching \<sigma> (\<lambda>c. ?T c - {- literal}) s1"
    by (rule consistent_cong [THEN iffD1, OF _ con1]) (auto simp: true_lits_def)
  then have con2: "consistent F caching \<sigma>' (\<lambda>c. ?T c - {- literal}) s1"
    by (rule consistent_switch) (auto simp: flip split: if_splits)
  \<comment> \<open>make\<close>
  have "\<exists>s2. foldM (make_clause F caching literal) (map int (occurrences ?cls literal)) s1 = Some s2 \<and>
      same_frame s1 s2 \<and> consistent F caching \<sigma>'
        (\<lambda>c. if c < ?m \<and> literal \<in> set (?cls ! c) then insert literal (?T c - {- literal})
              else ?T c - {- literal}) s2"
  proof (rule occurrence_loop [OF con2 _ refl])
    fix c TS s'
    assume c: "c < ?m" "literal \<in> set (?cls ! c)" and con': "consistent F caching \<sigma>' TS s'"
      and fr: "same_frame s1 s'" and TS: "TS c = ?T c - {- literal}"
    have "literal \<in> true_lits \<sigma>' (?cls ! c)" using c by (simp add: flip)
    moreover have "literal \<notin> TS c" using lit0(3) TS by (simp add: true_lits_def)
    ultimately show "\<exists>s''. make_clause F caching literal (int c) s' = Some s'' \<and> same_frame s' s'' \<and>
        consistent F caching \<sigma>' (TS(c := insert literal (?T c - {- literal}))) s''"
      using make_clause_ok [OF F con' c(1), of literal] b fr s1(2) TS by (simp add: same_frame_def)
  qed
  then obtain s2 where s2: "foldM (make_clause F caching literal) (map int (occurrences ?cls literal)) s1 = Some s2"
    "same_frame s1 s2" and con3: "consistent F caching \<sigma>'
        (\<lambda>c. if c < ?m \<and> literal \<in> set (?cls ! c) then insert literal (?T c - {- literal})
              else ?T c - {- literal}) s2"
    by blast
  have con4: "consistent F caching \<sigma>' (\<lambda>c. true_lits \<sigma>' (?cls ! c)) s2"
    by (rule consistent_cong [THEN iffD1, OF _ con3]) (simp add: flip)
  \<comment> \<open>flip\<close>
  have bs2: "belegung s2 = belegung s" "num_flips_done s2 = num_flips_done s"
    using s1(2) s2(2) by (simp_all add: same_frame_def)
  define i where "i = nat (\<bar>literal\<bar> - 1)"
  have i: "\<bar>literal\<bar> - 1 = int i" "int i < bf_length (belegung s)" using lit b(2) by (auto simp: i_def)
  obtain b1 where b1: "bf_ref (belegung s) (int i) = Some b1" "bf_wf b1" "bf_length b1 = bf_length (belegung s)"
    "last_mod_value b1 = \<sigma> ! i" "bf_abs b1 = \<sigma>"
    using bf_ref_eq [OF b(1) i(2)] unfolding \<sigma>_def by metis
  obtain b2 where b2: "bf_write b1 (int i) (\<not> \<sigma> ! i) = Some b2" "bf_wf b2"
    "bf_length b2 = bf_length b1" "bf_abs b2 = \<sigma>[i := \<not> \<sigma> ! i]"
    using bf_write_eq [OF b1(2)] i(2) b1(3,5) by metis
  have val: "(\<not> \<sigma> ! i) = (0 < literal)"
    using lit0 by (auto simp: lit_true_def i_def)
  then have \<sigma>': "bf_abs b2 = \<sigma>'" using b2(4) by (simp add: \<sigma>'_def flip_assignment_def i_def)
  let ?s' = "s2\<lparr>belegung := b2\<rparr>"
  have "flip_literal F caching literal s = Some ?s'"
    using it s1(1) s2(1) bs2 b1(1) [folded i(1)] b1(4) b2(1) [folded i(1)]
    by (cases "0 < literal") (simp_all add: flip_literal_def Let_def)
  moreover have "consistent F caching \<sigma>' (\<lambda>c. true_lits \<sigma>' (?cls ! c)) ?s'"
    using con4 by (simp add: consistent_def)
  ultimately show ?thesis
    using b2 b1(3) b(2) bs2 \<sigma>' by (auto simp: instance_inv_def \<sigma>'_def \<sigma>_def)
qed

section \<open>Initialisation\<close>

text \<open>The state after the first \<open>k\<close> iterations of the loop of \<open>initialize\<close>.\<close>

definition initialized ::
    "cnf_formula \<Rightarrow> bool \<Rightarrow> (nat \<Rightarrow> int set) \<Rightarrow> nat \<Rightarrow> instance_state \<Rightarrow> bool" where
  "initialized F caching T k s \<longleftrightarrow>
     length (unsat_clauses_location s) = length (clauses F) \<and>
     length (crit_literal_in_clause s) = length (clauses F) \<and>
     unsat_index {c. c < k \<and> T c = {}} (unsat_clauses s) (unsat_clauses_location s) \<and>
     (\<forall>c < k. T c \<noteq> {} \<longrightarrow> unsat_clauses_location s ! c = - int (card (T c))) \<and>
     (caching \<longrightarrow> int (length (num_breaks_by_flip s)) = num_variables F \<and>
       (\<forall>v < length (num_breaks_by_flip s). num_breaks_by_flip s ! v = int (breaks k T v)) \<and>
       (\<forall>c < k. \<forall>l. T c = {l} \<longrightarrow> crit_literal_in_clause s ! c = l))"

lemma breaks_Suc: "breaks (Suc k) T v = breaks k T v + (if sole (T k) v then 1 else 0)"
proof -
  have "{c. c < Suc k \<and> sole (T c) v} =
      (if sole (T k) v then insert k {c. c < k \<and> sole (T c) v} else {c. c < k \<and> sole (T c) v})"
    by (auto simp: less_Suc_eq)
  then show ?thesis by (simp add: breaks_def)
qed

lemma breaks_prefix: "k \<le> m \<Longrightarrow> breaks k T v \<le> breaks m T v"
  unfolding breaks_def by (intro card_mono) auto

lemma initialized_unsat:
  assumes F: "formula_ok F" and ini: "initialized F caching T k s" and k: "k < length (clauses F)"
    and T: "T k = {}"
  shows "\<exists>s'. make_clause_unsat (int k) s = Some s' \<and> same_frame s s' \<and> initialized F caching T (Suc k) s'"
proof -
  let ?E = "{c. c < k \<and> T c = {}}"
  have u: "unsat_index ?E (unsat_clauses s) (unsat_clauses_location s)"
    using ini by (simp add: initialized_def)
  have "length (unsat_clauses s) = card ?E" by (rule unsat_index_card [OF u])
  also have "\<dots> \<le> card {..<k}" by (intro card_mono) auto
  finally have "int (length (unsat_clauses s)) < 2 ^ 31" using k F by (simp add: formula_ok_def)
  then obtain unsat loc where mk: "make_clause_unsat (int k) s =
      Some (s\<lparr>unsat_clauses_location := loc, unsat_clauses := unsat\<rparr>)"
    "unsat_index (insert k ?E) unsat loc" "length loc = length (unsat_clauses_location s)"
    "\<forall>d. d \<noteq> k \<longrightarrow> loc ! d = unsat_clauses_location s ! d"
    using make_clause_unsat_eq [OF u, of k] ini k by (auto simp: initialized_def)
  have "insert k ?E = {c. c < Suc k \<and> T c = {}}" using T by auto
  with mk ini T show ?thesis
    by (auto simp: initialized_def same_frame_def less_Suc_eq breaks_Suc sole_def)
qed

lemma initialized_counter:
  assumes F: "formula_ok F" and ini: "initialized F True T k s" and k: "k < length (clauses F)"
    and T: "\<And>c. c < length (clauses F) \<Longrightarrow> T c \<subseteq> true_lits \<sigma> (clauses F ! c)"
    and l: "T k = {l}"
  shows "\<exists>nb. vmodify (num_breaks_by_flip s) (\<bar>l\<bar> - 1) (\<lambda>x. int16 (x + 1)) = Some nb \<and>
    int (length nb) = num_variables F \<and> (\<forall>v < length nb. nb ! v = int (breaks (Suc k) T v))"
proof -
  let ?nb = "num_breaks_by_flip s"
  define v where "v = nat (\<bar>l\<bar> - 1)"
  have "1 \<le> \<bar>l\<bar>" "\<bar>l\<bar> \<le> num_variables F" using clause_facts(3) [OF F k, of l \<sigma>] T [OF k] l by auto
  then have v: "nat \<bar>l\<bar> = Suc v" "int v = \<bar>l\<bar> - 1" "v < length ?nb"
    using ini by (auto simp: v_def initialized_def)
  have up: "breaks (Suc k) T w = breaks k T w + (if w = v then 1 else 0)" for w
    using l v(1) by (auto simp: breaks_Suc)
  have "int (breaks (Suc k) T v) < 2 ^ 15"
    using counters_bound [of F T \<sigma> v, OF F T] breaks_prefix [of "Suc k" "length (clauses F)" T v] k
    by simp
  then have "int16 (?nb ! v + 1) = int (breaks (Suc k) T v)"
    using ini v(3) by (simp add: initialized_def up int16_id)
  moreover have "vmodify ?nb (\<bar>l\<bar> - 1) (\<lambda>x. int16 (x + 1)) = Some (?nb[v := int16 (?nb ! v + 1)])"
    using v by (simp add: vmodify_in flip: v(2))
  ultimately show ?thesis
    using ini v(3) by (auto simp: initialized_def nth_list_update up)
qed

lemma init_counters:
  assumes F: "formula_ok F" and ini: "initialized F caching T k s" and k: "k < length (clauses F)"
    and b: "bf_wf (belegung s)" "bf_length (belegung s) = num_variables F"
    and T: "T = (\<lambda>c. true_lits (bf_abs (belegung s)) (clauses F ! c))"
  shows "\<exists>nb crit. (if int (card (T k)) = 1 \<and> caching then do {
             c \<leftarrow> get_clause F (int k);
             crit_literal \<leftarrow> get_critical_literal s c 0;
             nb \<leftarrow> vmodify (num_breaks_by_flip s) (\<bar>crit_literal\<bar> - 1) (\<lambda>x. int16 (x + 1));
             crit \<leftarrow> vset (crit_literal_in_clause s) (int k) crit_literal;
             Some (s\<lparr>num_breaks_by_flip := nb, crit_literal_in_clause := crit\<rparr>) }
           else Some s) = Some (s\<lparr>num_breaks_by_flip := nb, crit_literal_in_clause := crit\<rparr>) \<and>
      length crit = length (clauses F) \<and>
      (caching \<longrightarrow> int (length nb) = num_variables F \<and>
        (\<forall>v < length nb. nb ! v = int (breaks (Suc k) T v)) \<and>
        (\<forall>c < Suc k. \<forall>l. T c = {l} \<longrightarrow> crit ! c = l))"
proof (cases "card (T k) = 1 \<and> caching")
  case True
  note cl = clause_facts [OF F k]
  obtain l where l: "T k = {l}" using True card_1_singletonE by blast
  moreover have "0 \<notin> T k" using T cl(1) by (auto simp: true_lits_def clean_clause_def)
  ultimately have "get_critical_literal s (clauses F ! k) 0 = Some l"
    using get_critical_literal_unique [OF b(1), of "clauses F ! k" 0 l] b(2) cl(1) T by auto
  moreover have "initialized F True T k s" using ini True by simp
  moreover have "T c \<subseteq> true_lits (bf_abs (belegung s)) (clauses F ! c)" for c using T by simp
  ultimately obtain nb where crit: "get_critical_literal s (clauses F ! k) 0 = Some l" and
    "vmodify (num_breaks_by_flip s) (\<bar>l\<bar> - 1) (\<lambda>x. int16 (x + 1)) = Some nb"
    "int (length nb) = num_variables F" "\<forall>v < length nb. nb ! v = int (breaks (Suc k) T v)"
    using initialized_counter [where T = T and \<sigma> = "bf_abs (belegung s)", OF F _ k _ l] by blast
  then show ?thesis
    using True cl(2) ini l k
    by (intro exI [of _ nb] exI [of _ "(crit_literal_in_clause s)[k := l]"])
       (auto simp: initialized_def less_Suc_eq)
next
  case no: False
  then have ns: "caching \<Longrightarrow> T k \<noteq> {l}" for l by auto
  then have "caching \<Longrightarrow> breaks (Suc k) T v = breaks k T v" for v
    using not_sole [of "T k"] by (simp add: breaks_Suc)
  with no ini ns show ?thesis
    by (intro exI [of _ "num_breaks_by_flip s"] exI [of _ "crit_literal_in_clause s"])
       (auto simp: initialized_def less_Suc_eq)
qed

lemma init_clause_ok:
  assumes F: "formula_ok F" and ini: "initialized F caching T k s" and k: "k < length (clauses F)"
    and b: "bf_wf (belegung s)" "bf_length (belegung s) = num_variables F"
    and T: "T = (\<lambda>c. true_lits (bf_abs (belegung s)) (clauses F ! c))"
  shows "\<exists>s'. init_clause F caching (int k) s = Some s' \<and> same_frame s s' \<and>
    initialized F caching T (Suc k) s'"
proof -
  note cl = clause_facts [OF F k]
  have n: "get_num_sat_lit_in_clause F s (int k) = Some (int (card (T k)))"
    using num_sat_lit_in_clause_eq [OF b(1), of "clauses F ! k"] b(2) cl(1,2) T
    by (simp add: get_num_sat_lit_in_clause_def)
  show ?thesis
  proof (cases "T k = {}")
    case True
    with n initialized_unsat [OF F ini k True] show ?thesis by (simp add: init_clause_def)
  next
    case False
    let ?loc = "(unsat_clauses_location s)[k := - int (card (T k))]"
    have "finite (T k)" using T by simp
    with False have pos: "int (card (T k)) \<noteq> 0" by simp
    have neg: "int32 (- int (card (T k))) = - int (card (T k))"
      using int32_card [OF cl(1), of "T k" "bf_abs (belegung s)"] T by (intro int32_id) auto
    obtain nb crit where st: "(if int (card (T k)) = 1 \<and> caching then do {
             c \<leftarrow> get_clause F (int k);
             crit_literal \<leftarrow> get_critical_literal s c 0;
             nb \<leftarrow> vmodify (num_breaks_by_flip s) (\<bar>crit_literal\<bar> - 1) (\<lambda>x. int16 (x + 1));
             crit \<leftarrow> vset (crit_literal_in_clause s) (int k) crit_literal;
             Some (s\<lparr>num_breaks_by_flip := nb, crit_literal_in_clause := crit\<rparr>) }
           else Some s) = Some (s\<lparr>num_breaks_by_flip := nb, crit_literal_in_clause := crit\<rparr>)"
      and ok: "length crit = length (clauses F)"
        "caching \<longrightarrow> int (length nb) = num_variables F \<and>
          (\<forall>v < length nb. nb ! v = int (breaks (Suc k) T v)) \<and>
          (\<forall>c < Suc k. \<forall>l. T c = {l} \<longrightarrow> crit ! c = l)"
      using init_counters [OF F ini k b T] by blast
    let ?s' = "s\<lparr>num_breaks_by_flip := nb, crit_literal_in_clause := crit, unsat_clauses_location := ?loc\<rparr>"
    have "k < length (unsat_clauses_location s)" using ini k by (simp add: initialized_def)
    then have "init_clause F caching (int k) s = Some ?s'"
      using n pos neg st by (simp add: init_clause_def)
    moreover have "{c. c < Suc k \<and> T c = {}} = {c. c < k \<and> T c = {}}"
      using False by (auto simp: less_Suc_eq)
    then have "initialized F caching T (Suc k) ?s'"
      using ok ini False k unsat_index_other [of "{c. c < k \<and> T c = {}}" _ _ k]
      by (auto simp: initialized_def less_Suc_eq)
    ultimately show ?thesis by (auto simp: same_frame_def)
  qed
qed

lemma initialized_all:
  "initialized F caching T (length (clauses F)) s \<Longrightarrow> (\<And>c. T c = true_lits \<sigma> (clauses F ! c)) \<Longrightarrow>
     consistent F caching \<sigma> T s"
  by (auto simp: initialized_def consistent_def counters_ok_def)

text \<open>
  The constructor establishes the invariant for the assignment it is given, whatever the
  reserved storage and the fresh bytes held.
\<close>

lemma serial_instance_ok:
  assumes F: "formula_ok F" and b: "bf_wf b" "bf_length b = num_variables F"
  shows "\<exists>s. serial_instance F caching set_max mem junk b pfi =
      Some (s, set_max (max_num_breaks_possible F) pfi) \<and>
    instance_inv F caching s \<and> belegung s = b \<and> num_flips_done s = 0"
proof -
  let ?m = "length (clauses F)" and ?s0 = "new_instance F caching mem b"
  let ?T = "\<lambda>c. true_lits (bf_abs b) (clauses F ! c)"
  let ?P = "\<lambda>ys s. same_frame ?s0 s \<and> initialized F caching ?T (length ys) s"
  have m: "num_clauses F = int ?m" by (rule num_clauses_ok [OF F])
  have "\<exists>s. foldM (\<lambda>k. init_clause F caching (int k)) [0..<?m] ?s0 = Some s \<and> ?P [0..<?m] s"
  proof (rule foldM_invariant)
    have "0 \<le> num_variables F" using F by (simp add: formula_ok_def)
    then show "?P [] ?s0"
      by (simp add: initialized_def new_instance_def m unsat_index_def breaks_def)
  next
    fix ys k zs s
    assume "[0..<?m] = ys @ k # zs" and P: "?P ys s"
    then have k: "k = length ys" "k < ?m" using upt_split_nth by blast+
    have "belegung s = b" using P by (simp add: same_frame_def new_instance_def)
    then show "\<exists>s'. init_clause F caching (int k) s = Some s' \<and> ?P (ys @ [k]) s'"
      using init_clause_ok [OF F _ k(2), of caching ?T s] P k(1) b same_frame_trans by fastforce
  qed
  then obtain s where s: "foldM (\<lambda>k. init_clause F caching (int k)) [0..<?m] ?s0 = Some s"
    "same_frame ?s0 s" "initialized F caching ?T ?m s" by auto
  then have "belegung s = b" "num_flips_done s = 0" by (simp_all add: same_frame_def new_instance_def)
  moreover have "consistent F caching (bf_abs b) ?T s" using initialized_all [OF s(3)] by simp
  moreover have "initialize F caching set_max ?s0 pfi = Some (s, set_max (max_num_breaks_possible F) pfi)"
    using s(1) by (simp add: initialize_def m upto_int_upt foldM_map)
  ultimately show ?thesis using b by (simp add: serial_instance_def bf_copy_eq instance_inv_def)
qed

section \<open>The queries under the invariant\<close>

lemma found_solution_iff:
  assumes inv: "instance_inv F caching s"
  shows "found_solution s \<longleftrightarrow> satisfies (bf_abs (belegung s)) (clauses F)"
proof -
  let ?E = "{c. c < length (clauses F) \<and> true_lits (bf_abs (belegung s)) (clauses F ! c) = {}}"
  have u: "unsat_index ?E (unsat_clauses s) (unsat_clauses_location s)"
    using inv by (simp add: instance_inv_def consistent_def)
  have "found_solution s \<longleftrightarrow> ?E = {}"
    unfolding found_solution_def set_empty [symmetric] unsat_index_set [OF u] by blast
  then show ?thesis by (auto simp: satisfies_def true_lits_def all_set_conv_all_nth)
qed

lemma check_clauses_ok:
  assumes F: "formula_ok F" and b: "bf_wf (belegung s)" "bf_length (belegung s) = num_variables F"
    and idx: "\<forall>i \<in> set is. i < length (clauses F)"
  shows "check_clauses F s (map int is) =
    Some (\<forall>i \<in> set is. true_lits (bf_abs (belegung s)) (clauses F ! i) \<noteq> {})"
  using idx
proof (induction "is")
  case (Cons i "is")
  then have "get_clause F (int i) = Some (clauses F ! i)"
    "is_clause_satisfied s (clauses F ! i) = Some (true_lits (bf_abs (belegung s)) (clauses F ! i) \<noteq> {})"
    using clause_facts [OF F, of i] b is_clause_satisfied_eq [OF b(1)] by auto
  with Cons show ?case by simp
qed simp

lemma check_assignment_ok:
  assumes F: "formula_ok F" and inv: "instance_inv F caching s"
  shows "check_assignment F s = Some (satisfies (bf_abs (belegung s)) (clauses F))"
  using check_clauses_ok [OF F, of s "[0..<length (clauses F)]"] inv
  by (auto simp: check_assignment_def num_clauses_ok [OF F] upto_int_upt instance_inv_def
      satisfies_def true_lits_def all_set_conv_all_nth)

end
