(* ===== verification/Random_Generator.thy ===== *)
theory Random_Generator
  imports Prelude
begin

text \<open>
  \<open>sat/random_generator.hpp\<close>: \<open>lin_cong_random_generator\<close>, the generator the
  solver is instantiated with, around \<open>std::minstd_rand\<close>, that is
  \<open>linear_congruential_engine<uint_fast32_t, 48271, 0, 2147483647>\<close>. The value a
  default-constructed generator takes from \<open>std::random_device\<close> is an argument. Then the class
  \<open>random_generator\<close> around the generator of the C library, whose functions are arguments.
  The locale \<open>random_source\<close> is what the solver needs of either.
\<close>

record rgen =
  rg_seed :: nat
  rg_engine :: nat

abbreviation (input) minstd_m :: nat where "minstd_m \<equiv> 2147483647"

definition minstd_seed :: "nat \<Rightarrow> nat" where
  "minstd_seed s = (if s mod minstd_m = 0 then 1 else s mod minstd_m)"

definition minstd_next :: "nat \<Rightarrow> nat" where
  "minstd_next x = (48271 * x) mod minstd_m"

definition minstd_min :: nat where "minstd_min = 1"

definition minstd_max :: nat where "minstd_max = minstd_m - 1"

definition rgen_new :: "nat \<Rightarrow> rgen" where
  "rgen_new use_seed = \<lparr>rg_seed = use_seed, rg_engine = minstd_seed use_seed\<rparr>"

definition rgen_move :: "rgen \<Rightarrow> rgen" where
  "rgen_move other = \<lparr>rg_seed = rg_seed other, rg_engine = rg_engine other\<rparr>"

definition rgen_get_seed :: "rgen \<Rightarrow> nat" where
  "rgen_get_seed g = rg_seed g"

definition rgen_rand :: "rgen \<Rightarrow> nat \<times> rgen" where
  "rgen_rand g =
     (let x = minstd_next (rg_engine g) in (x - minstd_min, g\<lparr>rg_engine := x\<rparr>))"

definition rgen_get_rand_max :: nat where
  "rgen_get_rand_max = minstd_max - minstd_min"

section \<open>The engine never leaves its range\<close>

definition rgen_wf :: "rgen \<Rightarrow> bool" where
  "rgen_wf g \<longleftrightarrow> 1 \<le> rg_engine g \<and> rg_engine g < minstd_m"

lemma coprime_minstd: "coprime (48271 :: nat) minstd_m"
  by (simp add: coprime_iff_gcd_eq_1 gcd_non_0_nat)

lemma minstd_next_range:
  assumes "1 \<le> x" "x < minstd_m"
  shows "1 \<le> minstd_next x \<and> minstd_next x < minstd_m"
proof -
  have "\<not> minstd_m dvd 48271 * x"
  proof
    assume "minstd_m dvd 48271 * x"
    then have "minstd_m dvd x"
      using coprime_minstd by (simp add: coprime_dvd_mult_right_iff coprime_commute)
    with assms show False by (auto dest: dvd_imp_le)
  qed
  then show ?thesis by (simp add: minstd_next_def mod_greater_zero_iff_not_dvd Suc_le_eq)
qed

lemma rgen_wf_new: "rgen_wf (rgen_new s)"
  by (auto simp: rgen_wf_def rgen_new_def minstd_seed_def Suc_le_eq)

lemma rgen_wf_rand: "rgen_wf g \<Longrightarrow> rgen_wf (snd (rgen_rand g))"
  using minstd_next_range [of "rg_engine g"] by (simp add: rgen_wf_def rgen_rand_def Let_def)

lemma rgen_rand_bound: "rgen_wf g \<Longrightarrow> fst (rgen_rand g) \<le> rgen_get_rand_max"
  using minstd_next_range [of "rg_engine g"]
  by (simp add: rgen_wf_def rgen_rand_def Let_def rgen_get_rand_max_def minstd_max_def minstd_min_def)
    arith

lemma rgen_rand_pos: "rgen_wf g \<Longrightarrow> minstd_min \<le> minstd_next (rg_engine g)"
  using minstd_next_range [of "rg_engine g"] by (simp add: rgen_wf_def minstd_min_def)

section \<open>The interface of a random source\<close>

text \<open>What the solver needs of \<open>random_generator_t\<close>: draws between 0 and \<open>rand_max\<close>.\<close>

locale random_source =
  fixes good :: "'g \<Rightarrow> bool"
    and rand :: "'g \<Rightarrow> nat \<times> 'g"
    and rand_max :: nat
  assumes rand_le: "good g \<Longrightarrow> fst (rand g) \<le> rand_max"
    and rand_good: "good g \<Longrightarrow> good (snd (rand g))"
begin

lemma draws_good: "good g \<Longrightarrow> good (snd (draws rand n g))"
  by (induction n) (auto simp: split_def Let_def rand_good)

lemma draws_le: "good g \<Longrightarrow> \<forall>x \<in> set (fst (draws rand n g)). x \<le> rand_max"
  by (induction n) (auto simp: split_def Let_def rand_le draws_good)

end

interpretation lc: random_source rgen_wf rgen_rand rgen_get_rand_max
  by unfold_locales (simp_all add: rgen_rand_bound rgen_wf_rand)

section \<open>The generator of the C library\<close>

text \<open>
  \<open>random_generator\<close> wraps \<open>srand\<close> and \<open>rand\<close>. Their state is one for the whole process, so
  the object holds only the seed; the state is passed along, and the library's seeding and
  step are arguments.
\<close>

record 'st c_random =
  c_srand :: "nat \<Rightarrow> 'st"
  c_rand :: "'st \<Rightarrow> nat \<times> 'st"
  c_rand_max :: nat

definition crgen_new :: "'st c_random \<Rightarrow> nat \<Rightarrow> 'st \<Rightarrow> nat \<times> 'st" where
  "crgen_new lib use_seed state = (use_seed, c_srand lib use_seed)"

definition crgen_move :: "nat \<Rightarrow> nat" where "crgen_move other = other"

definition crgen_get_seed :: "nat \<Rightarrow> nat" where "crgen_get_seed seed = seed"

definition crgen_rand :: "'st c_random \<Rightarrow> 'st \<Rightarrow> nat \<times> 'st" where
  "crgen_rand lib state = c_rand lib state"

definition crgen_get_rand_max :: "'st c_random \<Rightarrow> nat" where "crgen_get_rand_max lib = c_rand_max lib"

text \<open>
  With a library whose numbers do not exceed \<open>RAND_MAX\<close> it is a random source as well. But a
  second generator starts the sequence of the first one again.
\<close>

lemma crgen_random_source:
  "(\<And>s. fst (c_rand lib s) \<le> c_rand_max lib) \<Longrightarrow> random_source (\<lambda>_. True) (crgen_rand lib) (crgen_get_rand_max lib)"
  by unfold_locales (simp_all add: crgen_rand_def crgen_get_rand_max_def)

lemma crgen_shared_state:
  "snd (crgen_new lib seed (snd (draws (crgen_rand lib) n (snd (crgen_new lib seed state))))) =
   snd (crgen_new lib seed state)"
  by (simp add: crgen_new_def)

end
