(* ===== verification/Sampling.thy ===== *)
theory Sampling
  imports Prob_Functions Random_Generator
begin

text \<open>
  The arithmetic of \<open>prec_t\<close>: the laws the choice of a literal relies on, as the
  interface \<open>sampling\<close>, and their proof for the 53-bit rounding of \<open>double\<close> (with
  an exponent that neither overflows nor underflows; what an underflow does is a property of
  its own).
\<close>

text \<open>The partial sums of the loop of \<open>do_flip\<close>.\<close>

fun partial_sums :: "'p prec_ops \<Rightarrow> 'p \<Rightarrow> 'p list \<Rightarrow> 'p list" where
  "partial_sums ops a [] = []"
| "partial_sums ops a (x # xs) = p_add ops a x # partial_sums ops (p_add ops a x) xs"

lemma length_partial_sums [simp]: "length (partial_sums ops a xs) = length xs"
  by (induction xs arbitrary: a) auto

lemma partial_sums_snoc:
  "partial_sums ops a (xs @ [x]) = partial_sums ops a xs @ [p_add ops (foldl (p_add ops) a xs) x]"
  by (induction xs arbitrary: a) auto

lemma last_partial_sums: "xs \<noteq> [] \<Longrightarrow> last (partial_sums ops a xs) = foldl (p_add ops) a xs"
  by (cases xs rule: rev_cases) (simp_all add: partial_sums_snoc)

section \<open>The interface\<close>

locale sampling =
  fixes ops :: "'p prec_ops"
    and rand_max :: nat
  assumes add_pos: "p_less ops (p_zero ops) a \<Longrightarrow> p_less ops (p_zero ops) b \<Longrightarrow>
      p_less ops (p_zero ops) (p_add ops a b)"
    and zero_add_pos: "p_less ops (p_zero ops) b \<Longrightarrow>
      p_less ops (p_zero ops) (p_add ops (p_zero ops) b)"
    and scaled_less: "k \<le> rand_max \<Longrightarrow> p_less ops (p_zero ops) l \<Longrightarrow>
      p_less ops (p_mul ops (p_div ops (p_of_int ops (int k)) (p_of_int ops (int (rand_max + 1)))) l) l"
begin

abbreviation pos :: "'p \<Rightarrow> bool" where
  "pos x \<equiv> p_less ops (p_zero ops) x"

lemma foldl_pos: "pos a \<Longrightarrow> \<forall>x \<in> set xs. pos x \<Longrightarrow> pos (foldl (p_add ops) a xs)"
  by (induction xs arbitrary: a) (auto simp: add_pos)

lemma total_pos: "xs \<noteq> [] \<Longrightarrow> \<forall>x \<in> set xs. pos x \<Longrightarrow> pos (foldl (p_add ops) (p_zero ops) xs)"
  by (cases xs) (auto simp: zero_add_pos foldl_pos)

end

section \<open>Arithmetic with 53 significant bits\<close>

text \<open>
  \<open>round53\<close> rounds a real to the nearest multiple of \<open>2 ^ (e - 52)\<close>, where
  \<open>2 ^ e\<close> is the binary order of magnitude of the number.
\<close>

definition ulp53 :: "real \<Rightarrow> real" where
  "ulp53 x = 2 powr (real_of_int \<lfloor>log 2 \<bar>x\<bar>\<rfloor> - 52)"

definition round53 :: "real \<Rightarrow> real" where
  "round53 x = (if x = 0 then 0 else of_int (round (x / ulp53 x)) * ulp53 x)"

definition double_ops :: "real prec_ops" where
  "double_ops = \<lparr>p_of_int = \<lambda>i. round53 (of_int i), p_add = \<lambda>a b. round53 (a + b),
     p_mul = \<lambda>a b. round53 (a * b), p_div = \<lambda>a b. round53 (a / b), p_neg = \<lambda>a. - a,
     p_pow = \<lambda>a b. round53 (a powr b), p_less = \<lambda>a b. a < b\<rparr>"

abbreviation (input) eps53 :: real where "eps53 \<equiv> 1 / 2 ^ 53"

lemma round53_error: "\<bar>round53 x - x\<bar> \<le> eps53 * \<bar>x\<bar>"
proof (cases "x = 0")
  case False
  let ?u = "ulp53 x"
  have u: "0 < ?u" by (simp add: ulp53_def)
  have "2 powr real_of_int \<lfloor>log 2 \<bar>x\<bar>\<rfloor> \<le> 2 powr (log 2 \<bar>x\<bar>)" by (intro powr_mono) auto
  also have "\<dots> = \<bar>x\<bar>" using False by simp
  finally have "?u * 2 ^ 52 \<le> \<bar>x\<bar>" by (simp add: ulp53_def powr_diff flip: powr_realpow)
  moreover have "round53 x - x = (of_int (round (x / ?u)) - x / ?u) * ?u"
    using u False by (simp add: round53_def left_diff_distrib)
  then have "\<bar>round53 x - x\<bar> = \<bar>of_int (round (x / ?u)) - x / ?u\<bar> * ?u"
    using u by (simp add: abs_mult)
  moreover have "\<bar>of_int (round (x / ?u)) - x / ?u\<bar> \<le> 1 / 2" by (rule of_int_round_abs_le)
  ultimately have "\<bar>round53 x - x\<bar> \<le> 1 / 2 * ?u" using u by (simp only: mult_right_mono)
  moreover have "1 / 2 * ?u = eps53 * (?u * 2 ^ 52)" by simp
  moreover have "eps53 * (?u * 2 ^ 52) \<le> eps53 * \<bar>x\<bar>"
    using \<open>?u * 2 ^ 52 \<le> \<bar>x\<bar>\<close> by (rule mult_left_mono) simp
  ultimately show ?thesis by simp
qed (simp add: round53_def)

lemma round53_zero [simp]: "round53 0 = 0"
  by (simp add: round53_def)

lemma round53_bounds: "0 \<le> x \<Longrightarrow> x * (1 - eps53) \<le> round53 x \<and> round53 x \<le> x * (1 + eps53)"
proof -
  assume "0 \<le> x"
  with round53_error [of x] have "round53 x - x \<le> eps53 * x" "- (round53 x - x) \<le> eps53 * x"
    by (simp_all only: abs_le_iff abs_of_nonneg)
  then show ?thesis by argo
qed

lemma round53_pos: "0 < x \<Longrightarrow> 0 < round53 x"
proof -
  assume "0 < x"
  then have "0 < x * (1 - eps53)" by simp
  also have "\<dots> \<le> round53 x" using round53_bounds [of x] \<open>0 < x\<close> by simp
  finally show ?thesis .
qed

lemma round53_nonneg: "0 \<le> x \<Longrightarrow> 0 \<le> round53 x"
  using round53_pos [of x] by (cases "x = 0") auto

text \<open>A draw scaled to \<open>l\<close> stays below \<open>l\<close>: four roundings are too small to make up for
  the one unit between \<open>rand_max\<close> and \<open>rand_max + 1\<close>.\<close>

lemma scaled_draw_less:
  assumes k: "k \<le> rgen_get_rand_max" and l: "0 < (l :: real)"
  shows "round53 (round53 (round53 (real k) / round53 (real (rgen_get_rand_max + 1))) * l) < l"
proof -
  let ?M = "2147483645 :: real" and ?u = "1 + eps53"
  define a b q where "a = round53 (real k)" and "b = round53 (real (rgen_get_rand_max + 1))"
    and "q = round53 (a / b)"
  have M: "real rgen_get_rand_max = ?M"
    by (simp add: rgen_get_rand_max_def minstd_max_def minstd_min_def)
  have a: "0 \<le> a" "a \<le> ?M * ?u"
  proof -
    have "a \<le> real k * ?u" using round53_bounds [of "real k"] by (simp add: a_def)
    also have "\<dots> \<le> ?M * ?u" using k M by (intro mult_right_mono) auto
    finally show "a \<le> ?M * ?u" .
  qed (simp add: a_def round53_nonneg)
  have "b = round53 (?M + 1)" using M unfolding b_def by (metis of_nat_1 of_nat_add)
  then have b: "(?M + 1) * (1 - eps53) \<le> b" using round53_bounds [of "?M + 1"] by simp
  then have b0: "0 < b" by (rule less_le_trans [rotated]) simp
  have "a / b \<le> ?M * ?u / ((?M + 1) * (1 - eps53))"
    using a b by (intro frac_le) auto
  then have ab: "0 \<le> a / b" "a / b \<le> ?M * ?u / ((?M + 1) * (1 - eps53))" using a b0 by auto
  have q: "0 \<le> q" "q \<le> a / b * ?u"
    using round53_bounds [OF ab(1)] round53_nonneg [OF ab(1)] by (simp_all add: q_def)
  have "round53 (q * l) \<le> q * l * ?u" using round53_bounds [of "q * l"] q(1) l by simp
  also have "\<dots> \<le> (?M * ?u / ((?M + 1) * (1 - eps53)) * ?u) * l * ?u"
  proof -
    have "q \<le> ?M * ?u / ((?M + 1) * (1 - eps53)) * ?u"
      by (rule order_trans [OF q(2)]) (intro mult_right_mono ab(2), simp)
    then show ?thesis using l by (intro mult_right_mono) auto
  qed
  also have "\<dots> < l" using l by (simp add: field_simps)
  finally show ?thesis by (simp add: a_def b_def q_def)
qed

interpretation dbl: sampling double_ops rgen_get_rand_max
proof unfold_locales
  show "p_less double_ops (p_zero double_ops) (p_add double_ops a b)"
    if "p_less double_ops (p_zero double_ops) a" "p_less double_ops (p_zero double_ops) b" for a b
    using that by (simp add: double_ops_def round53_pos)
  show "p_less double_ops (p_zero double_ops) (p_add double_ops (p_zero double_ops) b)"
    if "p_less double_ops (p_zero double_ops) b" for b
    using that by (simp add: double_ops_def round53_pos)
  show "p_less double_ops (p_mul double_ops (p_div double_ops (p_of_int double_ops (int k))
      (p_of_int double_ops (int (rgen_get_rand_max + 1)))) l) l"
    if "k \<le> rgen_get_rand_max" "p_less double_ops (p_zero double_ops) l" for k l
    using scaled_draw_less [OF that(1), of l] that(2) by (simp add: double_ops_def)
qed

section \<open>The functions of the program are positive\<close>

lemma polynomial_pos:
  assumes "0 < poly_eps pf" "0 \<le> k"
  shows "p_less double_ops (p_zero double_ops) (polynomial_calc double_ops pf k)"
proof -
  have "0 \<le> round53 (of_int k)" using assms(2) by (simp add: round53_nonneg)
  then have "0 < round53 (poly_eps pf + round53 (of_int k))" using assms(1) by (intro round53_pos) linarith
  then show ?thesis by (simp add: double_ops_def polynomial_calc_def round53_pos)
qed

lemma exponential_pos:
  "0 < exp_cb pf \<Longrightarrow> p_less double_ops (p_zero double_ops) (exponential_calc double_ops pf k)"
  by (simp add: double_ops_def exponential_calc_def round53_pos)

end
