(* ===== verification/Instance_Search.thy ===== *)
theory Instance_Search
  imports Instance_Correct Sampling
begin

text \<open>
  One step of the search, \<open>do_flip\<close>: what the break counts mean, how the literal is
  drawn, and the preservation of the solver's invariant.
\<close>

section \<open>Break counts\<close>

text \<open>
  The number of clauses that the assignment satisfies and that it no longer satisfies when the
  variable of the (unsatisfied) literal is flipped: the \<open>break\<close> of the ProbSAT paper.
\<close>

definition break_score :: "clause list \<Rightarrow> bool list \<Rightarrow> int \<Rightarrow> nat" where
  "break_score cls \<sigma> literal = card {c. c < length cls \<and> true_lits \<sigma> (cls ! c) \<noteq> {} \<and>
     true_lits (flip_assignment literal \<sigma>) (cls ! c) = {}}"

lemma breaks_eq_score:
  assumes F: "formula_ok F" and \<sigma>: "int (length \<sigma>) = num_variables F"
    and lit: "1 \<le> \<bar>literal\<bar>" "\<bar>literal\<bar> \<le> num_variables F" "\<not> lit_true \<sigma> literal"
  shows "breaks (length (clauses F)) (\<lambda>c. true_lits \<sigma> (clauses F ! c)) (nat (\<bar>literal\<bar> - 1)) =
    break_score (clauses F) \<sigma> literal"
proof -
  have "sole (true_lits \<sigma> (clauses F ! c)) (nat (\<bar>literal\<bar> - 1)) \<longleftrightarrow>
      true_lits \<sigma> (clauses F ! c) \<noteq> {} \<and> true_lits (flip_assignment literal \<sigma>) (clauses F ! c) = {}"
    if c: "c < length (clauses F)" for c
  proof -
    let ?T = "true_lits \<sigma> (clauses F ! c)"
    have flip: "true_lits (flip_assignment literal \<sigma>) (clauses F ! c) = {} \<longleftrightarrow>
        literal \<notin> set (clauses F ! c) \<and> ?T \<subseteq> {- literal}"
      using true_lits_flip [OF clause_facts(1) [OF F c], of literal \<sigma>] lit \<sigma> by auto
    have sole: "sole ?T (nat (\<bar>literal\<bar> - 1)) \<longleftrightarrow> ?T = {- literal}"
    proof
      assume "sole ?T (nat (\<bar>literal\<bar> - 1))"
      then obtain l where l: "?T = {l}" "\<bar>l\<bar> = \<bar>literal\<bar>" using lit(1) by (auto simp: sole_def)
      moreover have "l \<noteq> literal" using l(1) lit(3) by (auto simp: true_lits_def)
      ultimately show "?T = {- literal}" by (auto simp: abs_eq_iff)
    qed (use lit(1) in \<open>auto simp: sole_def\<close>)
    have "literal \<notin> set (clauses F ! c)" if T: "?T = {- literal}"
    proof
      assume "literal \<in> set (clauses F ! c)"
      moreover have "- literal \<in> ?T" unfolding T by simp
      then have "- literal \<in> set (clauses F ! c)" by (simp add: true_lits_def)
      ultimately have "literal = - literal"
        using clean_clause_one_polarity [OF clause_facts(1) [OF F c], of literal "- literal"] by linarith
      with lit(1) show False by simp
    qed
    with flip sole show ?thesis by auto
  qed
  then show ?thesis unfolding breaks_def break_score_def by (metis (mono_tags, lifting) Collect_cong)
qed

lemma cached_breaks:
  assumes F: "formula_ok F" and inv: "instance_inv F True s"
    and lit: "1 \<le> \<bar>literal\<bar>" "\<bar>literal\<bar> \<le> num_variables F" "\<not> lit_true (bf_abs (belegung s)) literal"
  shows "get_num_breaks_by_flip F s literal True =
    Some (int (break_score (clauses F) (bf_abs (belegung s)) literal))"
proof -
  have "counters_ok F (\<lambda>c. true_lits (bf_abs (belegung s)) (clauses F ! c)) (num_breaks_by_flip s)"
    using inv by (simp add: instance_inv_def consistent_def)
  moreover have "int (length (bf_abs (belegung s))) = num_variables F"
    using inv by (auto simp: instance_inv_def bf_wf_def)
  ultimately show ?thesis
    using breaks_eq_score [OF F _ lit] lit
    by (auto simp: get_num_breaks_by_flip_def counters_ok_def vget_def nat_less_iff)
qed

lemma count_loop:
  assumes F: "formula_ok F" and b: "bf_wf (belegung s)" "bf_length (belegung s) = num_variables F"
    and cs: "\<forall>c \<in> set cs. c < length (clauses F)" "0 \<le> n" "n + int (length cs) < 2 ^ 15"
  shows "foldM (\<lambda>c num_breaks. do {
         k \<leftarrow> get_num_sat_lit_in_clause F s c;
         Some (if 1 = k then int16 (num_breaks + 1) else num_breaks) }) (map int cs) n =
    Some (n + int (length (filter (\<lambda>c. card (true_lits (bf_abs (belegung s)) (clauses F ! c)) = 1) cs)))"
  using cs
proof (induction cs arbitrary: n)
  case (Cons c cs)
  then have "get_num_sat_lit_in_clause F s (int c) =
      Some (int (card (true_lits (bf_abs (belegung s)) (clauses F ! c))))"
    using num_sat_lit_in_clause_eq [OF b(1), of "clauses F ! c"] b(2) clause_facts [OF F, of c]
    by (simp add: get_num_sat_lit_in_clause_def)
  moreover have "int16 (n + 1) = n + 1" using Cons.prems by (intro int16_id) auto
  ultimately show ?case using Cons by (simp add: eq_commute [of "Suc 0"] eq_commute [of 1])
qed simp

lemma recomputed_breaks:
  assumes F: "formula_ok F" and inv: "instance_inv F caching s"
    and lit: "1 \<le> \<bar>literal\<bar>" "\<bar>literal\<bar> \<le> num_variables F" "\<not> lit_true (bf_abs (belegung s)) literal"
  shows "get_num_breaks_by_flip F s literal False =
    Some (int (break_score (clauses F) (bf_abs (belegung s)) literal))"
proof -
  let ?\<sigma> = "bf_abs (belegung s)" and ?cls = "clauses F"
  let ?one = "\<lambda>c. card (true_lits ?\<sigma> (?cls ! c)) = 1"
  let ?occ = "occurrences ?cls (- literal)"
  have b: "bf_wf (belegung s)" "bf_length (belegung s) = num_variables F"
    using inv by (simp_all add: instance_inv_def)
  have len: "int (length ?\<sigma>) = num_variables F" using b by (auto simp: bf_wf_def)
  obtain n0 n1 p0 p1 where it:
    "get_iterators_for_clauses_with_vars F (\<bar>literal\<bar> - 1) = Some (n0, n1, p0, p1)"
    "iter_elems F (if 0 < literal then n0 else p0) (if 0 < literal then n1 else p1) = Some (map int ?occ)"
    using occurrence_iterators [OF F lit(1,2)] by metis
  have "length ?occ < 2 ^ 15" using F by (simp add: formula_ok_def)
  then have "get_num_breaks_by_flip F s literal False = Some (int (length (filter ?one ?occ)))"
    using it count_loop [OF F b, of ?occ 0]
    by (auto simp: get_num_breaks_by_flip_def Let_def set_occurrences split: if_splits)
  moreover have "length (filter ?one ?occ) = card {c. c < length ?cls \<and> - literal \<in> set (?cls ! c) \<and> ?one c}"
    using distinct_card [OF distinct_filter [OF distinct_occurrences], of ?one ?cls "- literal"]
    by (simp add: set_occurrences conj_assoc)
  moreover have "{c. c < length ?cls \<and> - literal \<in> set (?cls ! c) \<and> ?one c} =
      {c. c < length ?cls \<and> sole (true_lits ?\<sigma> (?cls ! c)) (nat (\<bar>literal\<bar> - 1))}"
  proof -
    have neg: "lit_true ?\<sigma> (- literal)" using lit by (auto simp: lit_true_neg)
    have "- literal \<in> set (?cls ! c) \<and> ?one c \<longleftrightarrow> sole (true_lits ?\<sigma> (?cls ! c)) (nat (\<bar>literal\<bar> - 1))" for c
    proof
      assume one: "- literal \<in> set (?cls ! c) \<and> ?one c"
      then obtain x where x: "true_lits ?\<sigma> (?cls ! c) = {x}" using card_1_singletonE by blast
      have "- literal \<in> true_lits ?\<sigma> (?cls ! c)" using one neg by (simp add: true_lits_def)
      then have "x = - literal" unfolding x by simp
      then show "sole (true_lits ?\<sigma> (?cls ! c)) (nat (\<bar>literal\<bar> - 1))" using x lit(1) by auto
    next
      assume "sole (true_lits ?\<sigma> (?cls ! c)) (nat (\<bar>literal\<bar> - 1))"
      then obtain l where l: "true_lits ?\<sigma> (?cls ! c) = {l}" "\<bar>l\<bar> = \<bar>literal\<bar>"
        using lit(1) by (auto simp: sole_def)
      then have "l \<in> true_lits ?\<sigma> (?cls ! c)" by simp
      moreover from this l(2) lit(3) have "l = - literal" by (auto simp: true_lits_def abs_eq_iff)
      ultimately show "- literal \<in> set (?cls ! c) \<and> ?one c" using l(1) by (simp add: true_lits_def)
    qed
    then show ?thesis by blast
  qed
  ultimately show ?thesis using breaks_eq_score [OF F len lit] by (simp add: breaks_def)
qed

lemma num_breaks_eq:
  assumes F: "formula_ok F" and inv: "instance_inv F caching s"
    and lit: "1 \<le> \<bar>literal\<bar>" "\<bar>literal\<bar> \<le> num_variables F" "\<not> lit_true (bf_abs (belegung s)) literal"
  shows "get_num_breaks_by_flip F s literal caching =
    Some (int (break_score (clauses F) (bf_abs (belegung s)) literal))"
  using cached_breaks [OF F _ lit] recomputed_breaks [OF F inv lit] inv by (cases caching) auto

lemma break_score_bound:
  assumes F: "formula_ok F" and \<sigma>: "int (length \<sigma>) = num_variables F"
    and lit: "1 \<le> \<bar>literal\<bar>" "\<bar>literal\<bar> \<le> num_variables F" "\<not> lit_true \<sigma> literal"
  shows "int (break_score (clauses F) \<sigma> literal) \<le> max_num_breaks_possible F"
proof -
  let ?v = "nat (\<bar>literal\<bar> - 1)" and ?T = "\<lambda>c. true_lits \<sigma> (clauses F ! c)"
  have "breaks (length (clauses F)) ?T ?v \<le>
      length (occurrences (clauses F) (if \<sigma> ! ?v then int ?v + 1 else - (int ?v + 1)))"
    by (rule breaks_le_occurrences) simp
  moreover have "int (length (occurrences (clauses F) l)) \<le> max_num_breaks_possible F" for l
    using F by (simp add: formula_ok_def)
  ultimately show ?thesis
    unfolding breaks_eq_score [OF F \<sigma> lit, symmetric] using order_trans zle_int by blast
qed

section \<open>Choosing a literal\<close>

text \<open>The loop with \<open>break\<close>: the first position whose partial sum exceeds the drawn value.\<close>

lemma pick_literal_first:
  assumes "length f = length cl" "length cl \<le> 256" "j < length cl" "p_less ops r (f ! j)"
    and "\<forall>i < j. \<not> p_less ops r (f ! i)"
  shows "pick_literal ops r f cl (clause_indices cl) = Some (cl ! j)"
proof -
  have skip: "pick_literal ops r f cl (map int [k..<n]) = pick_literal ops r f cl (map int [j..<n])"
    if "k \<le> j" "n = length cl" for k n
    using that
  proof (induction "j - k" arbitrary: k)
    case (Suc d)
    then have k: "k < j" "k < n" using assms(3) by simp_all
    then have "[k..<n] = k # [Suc k..<n]" by (simp add: upt_conv_Cons)
    moreover have "\<not> p_less ops r (f ! k)" using assms(5) k by blast
    ultimately have "pick_literal ops r f cl (map int [k..<n]) =
        pick_literal ops r f cl (map int [Suc k..<n])"
      using k Suc.prems assms(1) by simp
    with Suc k show ?case by simp
  qed simp
  have "[j..<length cl] = j # [Suc j..<length cl]" using assms(3) by (simp add: upt_conv_Cons)
  then have "pick_literal ops r f cl (map int [j..<length cl]) = Some (cl ! j)"
    using assms by (simp add: vec_simps)
  with skip [of 0 "length cl"] show ?thesis by (simp add: clause_indices_nat)
qed

lemma pick_literal_none:
  assumes "length f = length cl" "\<forall>i < length cl. \<not> p_less ops r (f ! i)" "\<forall>i \<in> set is. i < length cl"
  shows "pick_literal ops r f cl (map int is) = Some 0"
  using assms(3) by (induction "is") (use assms in auto)

lemma least_index:
  assumes "P (n :: nat)" "n < m"
  obtains j where "j < m" "P j" "\<forall>i < j. \<not> P i"
  using assms LeastI [of P n] Least_le [of P n] not_less_Least [of _ P] by (metis le_less_trans)

end
