(* ===== verification/Search.thy ===== *)
theory Search
  imports Instance_Search
begin

text \<open>
  The step \<open>do_flip\<close>, proved once against the three interfaces it uses (the
  probability function, the random source, the arithmetic), and then for the solver of
  \<open>probsat.hpp\<close>: cached function, linear congruential generator, 53-bit arithmetic.
\<close>

text \<open>The weights of the literals of a clause: the probability function at their break scores.\<close>

definition weights :: "(int \<Rightarrow> 'p) \<Rightarrow> cnf_formula \<Rightarrow> bool list \<Rightarrow> clause \<Rightarrow> 'p list" where
  "weights f F \<sigma> cl = map (\<lambda>l. f (int (break_score (clauses F) \<sigma> l))) cl"

context prob_func
begin

lemma sums_loop:
  assumes F: "formula_ok F" and inv: "instance_inv F caching s" and c: "c < length (clauses F)"
    and un: "true_lits (bf_abs (belegung s)) (clauses F ! c) = {}"
    and pfi: "ready (max_num_breaks_possible F) pfi"
  shows "\<exists>pfi'. sum_probabilities F caching ops calc s (clauses F ! c) pfi =
      Some (partial_sums ops (p_zero ops) (weights f F (bf_abs (belegung s)) (clauses F ! c)),
        foldl (p_add ops) (p_zero ops) (weights f F (bf_abs (belegung s)) (clauses F ! c)), pfi') \<and>
    (\<forall>M. ready M pfi \<longrightarrow> ready M pfi')"
proof -
  let ?\<sigma> = "bf_abs (belegung s)" and ?cl = "clauses F ! c"
  let ?w = "\<lambda>l. f (int (break_score (clauses F) ?\<sigma> l))"
  let ?P = "\<lambda>is (fs, sum, pfi'). fs = partial_sums ops (p_zero ops) (map ?w (take (length is) ?cl)) \<and>
      sum = foldl (p_add ops) (p_zero ops) (map ?w (take (length is) ?cl)) \<and>
      (\<forall>M. ready M pfi \<longrightarrow> ready M pfi')"
  note cl = clause_facts(1) [OF F c]
  have len: "int (length ?\<sigma>) = num_variables F" using inv by (auto simp: instance_inv_def bf_wf_def)
  have "\<exists>st. foldM (\<lambda>i (fs, sum_f, pfi). do {
         literal \<leftarrow> clause_get ?cl (int i);
         num_breaks \<leftarrow> get_num_breaks_by_flip F s literal caching;
         (cf, pfi') \<leftarrow> calc pfi num_breaks;
         let sum_f' = p_add ops sum_f cf;
         Some (fs @ [sum_f'], sum_f', pfi') }) [0..<length ?cl] ([], p_zero ops, pfi) = Some st \<and>
      ?P [0..<length ?cl] st"
  proof (rule foldM_invariant)
    fix ys k zs st assume eq: "[0..<length ?cl] = ys @ k # zs" and P: "?P ys st"
    obtain fs sum pfi1 where st: "st = (fs, sum, pfi1)" by (cases st)
    have k: "k = length ys" "k < length ?cl" using upt_split_nth [OF eq] by blast+
    have lit: "1 \<le> \<bar>?cl ! k\<bar>" "\<bar>?cl ! k\<bar> \<le> num_variables F" "\<not> lit_true ?\<sigma> (?cl ! k)"
      using cl un nth_mem [OF k(2)] by (auto simp: clean_clause_def true_lits_def)
    have "length ?cl \<le> 256" using cl by (simp add: clean_clause_def)
    then have get: "clause_get ?cl (int k) = Some (?cl ! k)" using k(2) by (simp add: vec_simps)
    have "ready (max_num_breaks_possible F) pfi1" using P pfi st by simp
    then obtain pfi2 where c2: "calc pfi1 (int (break_score (clauses F) ?\<sigma> (?cl ! k))) = Some (?w (?cl ! k), pfi2)"
      "\<forall>M. ready M pfi1 \<longrightarrow> ready M pfi2"
      using calc_ready [OF _ _ break_score_bound [OF F len lit]] by auto
    have "take (Suc k) ?cl = take k ?cl @ [?cl ! k]" using k(2) by (simp add: take_Suc_conv_app_nth)
    then show "\<exists>st'. (case st of (fs, sum_f, pfi) \<Rightarrow> do {
         literal \<leftarrow> clause_get ?cl (int k);
         num_breaks \<leftarrow> get_num_breaks_by_flip F s literal caching;
         (cf, pfi') \<leftarrow> calc pfi num_breaks;
         let sum_f' = p_add ops sum_f cf;
         Some (fs @ [sum_f'], sum_f', pfi') }) = Some st' \<and> ?P (ys @ [k]) st'"
      using P st k(1) get num_breaks_eq [OF F inv lit] c2 by (simp add: partial_sums_snoc Let_def)
  qed simp
  then show ?thesis
    by (auto simp: sum_probabilities_def clause_indices_nat foldM_map weights_def)
qed

end

locale search = prob_func ready calc set_max f + random_source good rand rand_max + sampling ops rand_max
  for ready :: "int \<Rightarrow> 'c \<Rightarrow> bool" and calc :: "'c \<Rightarrow> int \<Rightarrow> ('p \<times> 'c) option"
    and set_max :: "int \<Rightarrow> 'c \<Rightarrow> 'c" and f :: "int \<Rightarrow> 'p" and good :: "'g \<Rightarrow> bool"
    and rand :: "'g \<Rightarrow> nat \<times> 'g" and rand_max :: nat and ops :: "'p prec_ops"
begin

text \<open>Some partial sum exceeds the drawn value, so a literal of the clause is chosen.\<close>

lemma literal_chosen:
  assumes cl: "cl \<noteq> []" "length cl \<le> 256" and pos: "\<forall>x \<in> set (weights f F \<sigma> cl). pos x" and g: "good g"
  shows "\<exists>r g' j. get_random_value ops rand rand_max (foldl (p_add ops) (p_zero ops) (weights f F \<sigma> cl)) g =
      (r, g') \<and> good g' \<and> j < length cl \<and>
    pick_literal ops r (partial_sums ops (p_zero ops) (weights f F \<sigma> cl)) cl (clause_indices cl) = Some (cl ! j) \<and>
    p_less ops r (partial_sums ops (p_zero ops) (weights f F \<sigma> cl) ! j) \<and>
    (\<forall>i < j. \<not> p_less ops r (partial_sums ops (p_zero ops) (weights f F \<sigma> cl) ! i))"
proof -
  let ?w = "weights f F \<sigma> cl" and ?S = "partial_sums ops (p_zero ops) (weights f F \<sigma> cl)"
  let ?sum = "foldl (p_add ops) (p_zero ops) ?w"
  obtain k g' where rnd: "rand g = (k, g')" by (cases "rand g")
  let ?r = "p_mul ops (p_div ops (p_of_int ops (int k)) (p_of_int ops (int (rand_max + 1)))) ?sum"
  have w: "?w \<noteq> []" "length ?w = length cl" using cl by (simp_all add: weights_def)
  have "k \<le> rand_max" "good g'" using rand_le [OF g] rand_good [OF g] rnd by simp_all
  then have "p_less ops ?r ?sum" using scaled_less total_pos [OF w(1) pos] by blast
  moreover have "?S ! (length cl - 1) = ?sum"
    using last_partial_sums [OF w(1), of ops "p_zero ops"] w
    by (metis last_conv_nth length_partial_sums list.size(3) length_0_conv)
  ultimately obtain j where j: "j < length cl" "p_less ops ?r (?S ! j)" "\<forall>i < j. \<not> p_less ops ?r (?S ! i)"
    using least_index [of "\<lambda>i. p_less ops ?r (?S ! i)" "length cl - 1" "length cl"] cl(1) by auto
  moreover have "pick_literal ops ?r ?S cl (clause_indices cl) = Some (cl ! j)"
    using pick_literal_first [OF _ cl(2) j(1), of ?S ops ?r] j w(2) by simp
  ultimately show ?thesis
    using rnd \<open>good g'\<close> by (intro exI [of _ ?r] exI [of _ g'] exI [of _ j]) (simp add: get_random_value_def)
qed

text \<open>The choices of one step: which clause, which random value, which literal.\<close>

lemma do_flip_choice:
  assumes F: "formula_ok F" and inv: "instance_inv F caching s" and un: "\<not> found_solution s"
    and pfi: "ready (max_num_breaks_possible F) pfi" and g: "good g"
    and pos: "\<forall>k. 0 \<le> k \<and> k \<le> max_num_breaks_possible F \<longrightarrow> pos (f k)"
  shows "\<exists>s' pfi' g' c j r. c < length (clauses F) \<and> true_lits (bf_abs (belegung s)) (clauses F ! c) = {} \<and>
    int c = unsat_clauses s ! (num_flips_done s mod length (unsat_clauses s)) \<and>
    get_random_value ops rand rand_max
      (foldl (p_add ops) (p_zero ops) (weights f F (bf_abs (belegung s)) (clauses F ! c))) g = (r, g') \<and> good g' \<and>
    j < length (clauses F ! c) \<and>
    p_less ops r (partial_sums ops (p_zero ops) (weights f F (bf_abs (belegung s)) (clauses F ! c)) ! j) \<and>
    (\<forall>i < j. \<not> p_less ops r (partial_sums ops (p_zero ops) (weights f F (bf_abs (belegung s)) (clauses F ! c)) ! i)) \<and>
    flip_literal F caching (clauses F ! c ! j) s = Some s' \<and> instance_inv F caching s' \<and>
    bf_abs (belegung s') = flip_assignment (clauses F ! c ! j) (bf_abs (belegung s)) \<and>
    num_flips_done s' = num_flips_done s \<and> ready (max_num_breaks_possible F) pfi' \<and>
    do_flip F caching ops calc rand rand_max s pfi g =
      Some (s'\<lparr>num_flips_done := (num_flips_done s' + 1) mod 2 ^ 64\<rparr>, pfi', g')"
proof -
  let ?\<sigma> = "bf_abs (belegung s)" and ?E = "{c. c < length (clauses F) \<and> true_lits (bf_abs (belegung s)) (clauses F ! c) = {}}"
  have u: "unsat_index ?E (unsat_clauses s) (unsat_clauses_location s)"
    and len: "int (length ?\<sigma>) = num_variables F"
    using inv by (auto simp: instance_inv_def consistent_def bf_wf_def)
  have ne: "unsat_clauses s \<noteq> []" using un by (simp add: found_solution_def)
  then have m: "num_flips_done s mod length (unsat_clauses s) < length (unsat_clauses s)" by simp
  obtain c where c: "c \<in> ?E" "unsat_clauses s ! (num_flips_done s mod length (unsat_clauses s)) = int c"
    using unsat_index_at [OF u m] by metis
  then have c': "c < length (clauses F)" "true_lits ?\<sigma> (clauses F ! c) = {}" by simp_all
  note cl = clause_facts [OF F c'(1)]
  have cl': "clauses F ! c \<noteq> []" "length (clauses F ! c) \<le> 256" using cl(1) by (simp_all add: clean_clause_def)
  have lits: "1 \<le> \<bar>l\<bar> \<and> \<bar>l\<bar> \<le> num_variables F \<and> \<not> lit_true ?\<sigma> l" if "l \<in> set (clauses F ! c)" for l
    using cl(1) c'(2) that by (auto simp: clean_clause_def true_lits_def)
  have "\<forall>x \<in> set (weights f F ?\<sigma> (clauses F ! c)). pos x"
    using lits break_score_bound [OF F len] pos by (auto simp: weights_def)
  from literal_chosen [OF cl' this g] obtain r g' j where j: "j < length (clauses F ! c)"
    "get_random_value ops rand rand_max (foldl (p_add ops) (p_zero ops) (weights f F ?\<sigma> (clauses F ! c))) g = (r, g')"
    "good g'" "p_less ops r (partial_sums ops (p_zero ops) (weights f F ?\<sigma> (clauses F ! c)) ! j)"
    "\<forall>i < j. \<not> p_less ops r (partial_sums ops (p_zero ops) (weights f F ?\<sigma> (clauses F ! c)) ! i)"
    "pick_literal ops r (partial_sums ops (p_zero ops) (weights f F ?\<sigma> (clauses F ! c))) (clauses F ! c)
       (clause_indices (clauses F ! c)) = Some (clauses F ! c ! j)" by blast
  obtain pfi' where sums: "sum_probabilities F caching ops calc s (clauses F ! c) pfi =
      Some (partial_sums ops (p_zero ops) (weights f F ?\<sigma> (clauses F ! c)),
        foldl (p_add ops) (p_zero ops) (weights f F ?\<sigma> (clauses F ! c)), pfi')"
    "ready (max_num_breaks_possible F) pfi'" using sums_loop [OF F inv c' pfi] pfi by blast
  obtain s' where s': "flip_literal F caching (clauses F ! c ! j) s = Some s'" "instance_inv F caching s'"
    "bf_abs (belegung s') = flip_assignment (clauses F ! c ! j) ?\<sigma>" "num_flips_done s' = num_flips_done s"
    using flip_literal_ok [OF F inv, of "clauses F ! c ! j"] lits [OF nth_mem [OF j(1)]] by blast
  have "get_index_of_random_unsatisfied_clause s = Some (int c)"
    using ne m c(2) by (simp add: get_index_of_random_unsatisfied_clause_def)
  then have "do_flip F caching ops calc rand rand_max s pfi g =
      Some (s'\<lparr>num_flips_done := (num_flips_done s' + 1) mod 2 ^ 64\<rparr>, pfi', g')"
    using cl(2) sums(1) j(2,6) s'(1) by (simp add: do_flip_def)
  with c(2) [symmetric] c' j(1-5) sums(2) s' show ?thesis
    by (intro exI [of _ s'] exI [of _ pfi'] exI [of _ g'] exI [of _ c] exI [of _ j] exI [of _ r] conjI)
qed

lemma do_flip_step:
  assumes F: "formula_ok F" and inv: "instance_inv F caching s" and un: "\<not> found_solution s"
    and pfi: "ready (max_num_breaks_possible F) pfi" and g: "good g"
    and pos: "\<forall>k. 0 \<le> k \<and> k \<le> max_num_breaks_possible F \<longrightarrow> pos (f k)"
  shows "\<exists>s' pfi' g' c l. do_flip F caching ops calc rand rand_max s pfi g = Some (s', pfi', g') \<and>
    instance_inv F caching s' \<and> ready (max_num_breaks_possible F) pfi' \<and> good g' \<and>
    c < length (clauses F) \<and> true_lits (bf_abs (belegung s)) (clauses F ! c) = {} \<and>
    l \<in> true_lits (bf_abs (belegung s')) (clauses F ! c) \<and>
    bf_abs (belegung s') = flip_assignment l (bf_abs (belegung s)) \<and>
    num_flips_done s' = (num_flips_done s + 1) mod 2 ^ 64"
proof -
  obtain s' pfi' g' c j where s': "c < length (clauses F)" "true_lits (bf_abs (belegung s)) (clauses F ! c) = {}"
    "good g'" "j < length (clauses F ! c)" "instance_inv F caching s'"
    "bf_abs (belegung s') = flip_assignment (clauses F ! c ! j) (bf_abs (belegung s))"
    "num_flips_done s' = num_flips_done s" "ready (max_num_breaks_possible F) pfi'"
    "do_flip F caching ops calc rand rand_max s pfi g =
      Some (s'\<lparr>num_flips_done := (num_flips_done s' + 1) mod 2 ^ 64\<rparr>, pfi', g')"
    using do_flip_choice [OF assms] by blast
  let ?l = "clauses F ! c ! j" and ?s' = "s'\<lparr>num_flips_done := (num_flips_done s' + 1) mod 2 ^ 64\<rparr>"
  note cl = clause_facts(1) [OF F s'(1)]
  have l: "?l \<in> set (clauses F ! c)" using s'(4) by simp
  then have "?l \<noteq> 0" "\<bar>?l\<bar> \<le> int (length (bf_abs (belegung s)))" "\<not> lit_true (bf_abs (belegung s)) ?l"
    using cl s'(2) inv by (auto simp: clean_clause_def true_lits_def instance_inv_def bf_wf_def)
  then have "?l \<in> true_lits (bf_abs (belegung ?s')) (clauses F ! c)"
    using true_lits_flip [OF cl, of ?l "bf_abs (belegung s)"] s'(6) l by simp
  moreover have "instance_inv F caching ?s'" using s'(5) by (simp add: instance_inv_def consistent_def)
  ultimately show ?thesis
    using s' by (intro exI [of _ ?s'] exI [of _ pfi'] exI [of _ g'] exI [of _ c] exI [of _ ?l]) simp
qed

end

section \<open>The solver of the program\<close>

interpretation ps: search "\<lambda>N c. cache_ok double_ops pfi N (fst c)" "cached_calc_locks double_ops pfi"
    "\<lambda>N c. (cached_set_max double_ops N (fst c), snd c)" pfi
    rgen_wf rgen_rand rgen_get_rand_max double_ops for pfi
  ..

text \<open>A formula and a start the properties are applied to.\<close>

definition example_formula :: cnf_formula where
  "example_formula = \<lparr>num_variables = 2, clauses = [[1, 2], [-1, 2], [1, -2]],
     occurrence_offset = [(0, 1), (3, 1), (6, 0)], clauses_with_vars = [1, 0, 2, 2, 0, 1],
     max_num_breaks_possible = 2\<rparr>"

definition example_start :: bitfield where
  "example_start = \<lparr>bf_length = 2, last_mod_index = 2, last_mod_value = False, bf_array = [0]\<rparr>"

lemma example_occurrences:
  "length (occurrences [[1, 2], [-1, 2], [1, -2]] l) \<le> 2"
proof (cases "l = 1 \<or> l = - 1 \<or> l = 2 \<or> l = - 2")
  case True
  then show ?thesis by (auto simp: occurrences_def upt_rec)
next
  case False
  then show ?thesis by (simp add: occurrences_def upt_rec)
qed

lemma example_formula_ok: "formula_ok example_formula"
proof -
  have "0 \<le> v \<and> v < 2 \<longleftrightarrow> v = 0 \<or> v = (1 :: int)" for v by auto
  then have "occurrences_ok example_formula"
    by (auto simp: occurrences_ok_def example_formula_def get_iterators_for_clauses_with_vars_def
        vget_def iter_elems_def occurrences_def upt_rec)
  moreover have "length (occurrences (clauses example_formula) l) < 2 ^ 15 \<and>
      int (length (occurrences (clauses example_formula) l)) \<le> max_num_breaks_possible example_formula" for l
  proof -
    have "length (occurrences (clauses example_formula) l) \<le> 2"
      using example_occurrences [of l] by (simp add: example_formula_def)
    then show ?thesis by (simp add: example_formula_def)
  qed
  moreover have "clean_clauses (num_variables example_formula) (clauses example_formula)"
    by (simp add: clean_clauses_def clean_clause_def example_formula_def)
  ultimately show ?thesis unfolding formula_ok_def by (simp add: example_formula_def)
qed

lemma example_start_ok: "bf_wf example_start" "bf_length example_start = num_variables example_formula"
  "bf_abs example_start = [False, False]"
  by (simp_all add: example_start_def example_formula_def bf_wf_def to_bytelength_div bf_abs_def
      bf_bit_def upt_rec)

lemma example_instance:
  "\<exists>s. serial_instance example_formula caching set_max mem junk example_start pfi =
      Some (s, set_max 2 pfi) \<and>
    instance_inv example_formula caching s \<and> bf_abs (belegung s) = [False, False] \<and>
    \<not> found_solution s \<and> num_flips_done s = 0"
proof -
  obtain s where s: "serial_instance example_formula caching set_max mem junk example_start pfi =
      Some (s, set_max (max_num_breaks_possible example_formula) pfi)"
    "instance_inv example_formula caching s" "belegung s = example_start" "num_flips_done s = 0"
    using serial_instance_ok [OF example_formula_ok example_start_ok(1,2), where caching = caching
        and set_max = set_max and mem = mem and junk = junk and pfi = pfi] by blast
  moreover have "\<not> satisfies [False, False] (clauses example_formula)"
    by (simp add: satisfies_def example_formula_def lit_true_def)
  ultimately show ?thesis
    using found_solution_iff [OF s(2)] example_start_ok(3) by (simp add: example_formula_def)
qed

lemma example_cache: "cache_ok double_ops pfi 2 (cached_set_max double_ops 2 [])"
  by (auto simp: cache_ok_def cached_set_max_def double_ops_def nth_append)

section \<open>Properties of the solver\<close>

text \<open>
  C3: the constructor of \<open>serial_instance\<close>. For every formula in the reader's normal form and
  every assignment of the right length, \<open>initialize\<close> runs without leaving a container and
  without a counter overflow, whatever the memory reserved for \<open>unsat_clauses_location\<close>
  held, and establishes the solver's invariant for exactly that assignment: the list of
  unsatisfied clauses with its back pointers, the numbers of satisfied literals, the critical
  literals and the break counters.
\<close>

theorem serial_instance_correct:
  assumes "formula_ok F" and "bf_wf b" and "bf_length b = num_variables F"
  shows "\<exists>s. serial_instance F caching set_max mem junk b pfi =
      Some (s, set_max (max_num_breaks_possible F) pfi) \<and>
    instance_inv F caching s \<and> belegung s = b \<and> num_flips_done s = 0"
  using assms by (rule serial_instance_ok)

theorem serial_instance_correct_witness:
  "\<exists>s. serial_instance example_formula True (\<lambda>_ u. u) (\<lambda>_. 77) (\<lambda>_. 0) example_start () = Some (s, ()) \<and>
     instance_inv example_formula True s"
  using serial_instance_correct [OF example_formula_ok example_start_ok(1,2), of True "\<lambda>_ u. u" "\<lambda>_. 77" "\<lambda>_. 0" "()"]
  by auto



text \<open>
  C21: the distribution of a step. The clause is the unsatisfied one at position
  \<open>num_flips mod size\<close> of the list; with \<open>S\<close> the partial sums of the function at the
  break scores of its literals, the flipped literal is the first one whose partial sum exceeds
  the draw scaled to the last sum, so literal \<open>j\<close> is taken exactly when the scaled draw lies
  between its two neighbouring sums.
\<close>

theorem do_flip_distribution:
  assumes "formula_ok F" and "instance_inv F caching s" and "\<not> found_solution s"
    and "cache_ok double_ops pfi (max_num_breaks_possible F) cache" and "rgen_wf g"
    and "\<forall>k. 0 \<le> k \<and> k \<le> max_num_breaks_possible F \<longrightarrow> p_less double_ops (p_zero double_ops) (pfi k)"
  shows "\<exists>s' cache' g' cl j r. cl = clauses F ! nat (unsat_clauses s ! (num_flips_done s mod length (unsat_clauses s))) \<and>
    get_random_value double_ops rgen_rand rgen_get_rand_max
      (foldl (p_add double_ops) (p_zero double_ops) (weights pfi F (bf_abs (belegung s)) cl)) g = (r, g') \<and>
    j < length cl \<and>
    r < partial_sums double_ops (p_zero double_ops) (weights pfi F (bf_abs (belegung s)) cl) ! j \<and>
    (\<forall>i < j. partial_sums double_ops (p_zero double_ops) (weights pfi F (bf_abs (belegung s)) cl) ! i \<le> r) \<and>
    do_flip F caching double_ops (cached_calc_locks double_ops pfi) rgen_rand rgen_get_rand_max s (cache, locks) g =
      Some (s', cache', g') \<and>
    bf_abs (belegung s') = flip_assignment (cl ! j) (bf_abs (belegung s))"
proof -
  have "cache_ok double_ops pfi (max_num_breaks_possible F) (fst (cache, locks))" using assms(4) by simp
  from ps.do_flip_choice [OF assms(1,2,3) this assms(5,6)] obtain s' cache' g' c j r where
    c: "int c = unsat_clauses s ! (num_flips_done s mod length (unsat_clauses s))" and
    st: "get_random_value double_ops rgen_rand rgen_get_rand_max
      (foldl (p_add double_ops) (p_zero double_ops) (weights pfi F (bf_abs (belegung s)) (clauses F ! c))) g = (r, g')"
    "j < length (clauses F ! c)"
    "p_less double_ops r (partial_sums double_ops (p_zero double_ops) (weights pfi F (bf_abs (belegung s)) (clauses F ! c)) ! j)"
    "\<forall>i < j. \<not> p_less double_ops r (partial_sums double_ops (p_zero double_ops) (weights pfi F (bf_abs (belegung s)) (clauses F ! c)) ! i)"
    "bf_abs (belegung s') = flip_assignment (clauses F ! c ! j) (bf_abs (belegung s))"
    "do_flip F caching double_ops (cached_calc_locks double_ops pfi) rgen_rand rgen_get_rand_max s (cache, locks) g =
      Some (s'\<lparr>num_flips_done := (num_flips_done s' + 1) mod 2 ^ 64\<rparr>, cache', g')"
    by blast
  have less: "p_less double_ops = (<)" by (simp add: double_ops_def fun_eq_iff)
  show ?thesis
    using st unfolding less not_less c [symmetric] nat_int
    by (intro exI [of _ "s'\<lparr>num_flips_done := (num_flips_done s' + 1) mod 2 ^ 64\<rparr>"] exI [of _ cache'] exI [of _ g']
        exI [of _ "clauses F ! c"] exI [of _ j] exI [of _ r]) simp
qed

theorem do_flip_distribution_witness:
  "\<exists>s s' cache' g' j. serial_instance example_formula True (\<lambda>_ u. u) (\<lambda>_. 77) (\<lambda>_. 0) example_start () = Some (s, ()) \<and>
     j < length (clauses example_formula ! nat (unsat_clauses s ! (num_flips_done s mod length (unsat_clauses s)))) \<and>
     do_flip example_formula True double_ops (cached_calc_locks double_ops (\<lambda>_. 1))
       rgen_rand rgen_get_rand_max s (cached_set_max double_ops 2 [], \<lambda>n. odd n) (rgen_new 42) = Some (s', cache', g') \<and>
     bf_abs (belegung s') = flip_assignment
       (clauses example_formula ! nat (unsat_clauses s ! (num_flips_done s mod length (unsat_clauses s))) ! j) (bf_abs (belegung s))"
proof -
  obtain s where s: "serial_instance example_formula True (\<lambda>_ u. u) (\<lambda>_. 77) (\<lambda>_. 0) example_start () = Some (s, ())"
    "instance_inv example_formula True s" "\<not> found_solution s"
    using example_instance [of True "\<lambda>_ u. u" "\<lambda>_. 77" "\<lambda>_. 0" "()"] by auto
  have "cache_ok double_ops (\<lambda>_. 1) (max_num_breaks_possible example_formula) (cached_set_max double_ops 2 [])"
    using example_cache [of "\<lambda>_. 1"] by (simp add: example_formula_def)
  moreover have "\<forall>k. 0 \<le> k \<and> k \<le> max_num_breaks_possible example_formula \<longrightarrow>
      p_less double_ops (p_zero double_ops) (1 :: real)" by (simp add: double_ops_def)
  ultimately show ?thesis
    using do_flip_distribution [OF example_formula_ok s(2,3) _ rgen_wf_new [of 42], of "\<lambda>_. 1" _ "\<lambda>n. odd n"] s(1)
    by blast
qed

text \<open>
  What happens when no partial sum exceeds the scaled draw, which the arithmetic allows: all
  values of the function at the break scores of the clause have underflowed to 0 (a steep
  function and large scores), or their sum is an infinity (an \<open>eps\<close> of 0 and a score of 0). The loop then leaves
  \<open>rlit\<close> at 0, which only \<open>ADDITIONAL_CHECKS\<close> would notice, and \<open>flip_literal(0)\<close>
  reads \<open>occurrence_offset[-1]\<close>: the step has undefined behaviour.
\<close>

theorem do_flip_without_choice:
  assumes "formula_ok F" and "instance_inv F caching s" and "\<not> found_solution s"
    and "cache_ok ops pfi (max_num_breaks_possible F) cache"
    and "cl = clauses F ! nat (unsat_clauses s ! (num_flips_done s mod length (unsat_clauses s)))"
    and "\<forall>x \<in> set (partial_sums ops (p_zero ops) (weights pfi F (bf_abs (belegung s)) cl)).
      \<not> p_less ops (fst (get_random_value ops rgen_rand rgen_get_rand_max
        (foldl (p_add ops) (p_zero ops) (weights pfi F (bf_abs (belegung s)) cl)) g)) x"
  shows "do_flip F caching ops (cached_calc_locks ops pfi) rgen_rand rgen_get_rand_max s (cache, locks) g = None"
proof -
  let ?E = "{c. c < length (clauses F) \<and> true_lits (bf_abs (belegung s)) (clauses F ! c) = {}}"
  have u: "unsat_index ?E (unsat_clauses s) (unsat_clauses_location s)"
    using assms(2) by (simp add: instance_inv_def consistent_def)
  have ne: "unsat_clauses s \<noteq> []" using assms(3) by (simp add: found_solution_def)
  then have m: "num_flips_done s mod length (unsat_clauses s) < length (unsat_clauses s)" by simp
  obtain c where c: "c \<in> ?E" "unsat_clauses s ! (num_flips_done s mod length (unsat_clauses s)) = int c"
    using unsat_index_at [OF u m] by metis
  let ?w = "weights pfi F (bf_abs (belegung s)) (clauses F ! c)"
  obtain r g' where r: "get_random_value ops rgen_rand rgen_get_rand_max (foldl (p_add ops) (p_zero ops) ?w) g = (r, g')"
    by (cases "get_random_value ops rgen_rand rgen_get_rand_max (foldl (p_add ops) (p_zero ops) ?w) g")
  have cl: "cl = clauses F ! c" using assms(5) c(2) by simp
  have none: "pick_literal ops r (partial_sums ops (p_zero ops) ?w) (clauses F ! c) (clause_indices (clauses F ! c)) = Some 0"
    unfolding clause_indices_nat
    by (rule pick_literal_none) (use assms(6) r in \<open>simp_all add: cl weights_def\<close>)
  have "cache_ok ops pfi (max_num_breaks_possible F) (fst (cache, locks))" using assms(4) by simp
  then obtain c' where "sum_probabilities F caching ops (cached_calc_locks ops pfi) s (clauses F ! c) (cache, locks) =
      Some (partial_sums ops (p_zero ops) ?w, foldl (p_add ops) (p_zero ops) ?w, c')"
    using pl.sums_loop [OF assms(1,2), of c ops pfi "(cache, locks)" ops] c(1) by blast
  moreover have "get_index_of_random_unsatisfied_clause s = Some (int c)"
    using ne m c(2) by (simp add: get_index_of_random_unsatisfied_clause_def)
  moreover have "get_clause F (int c) = Some (clauses F ! c)" using clause_facts [OF assms(1), of c] c(1) by simp
  moreover have "flip_literal F caching 0 s = None"
    by (simp add: flip_literal_def get_iterators_for_clauses_with_vars_def vget_def)
  ultimately show ?thesis using r none by (simp add: do_flip_def)
qed

lemma example_break_scores:
  "0 < break_score (clauses example_formula) [False, False] 1"
  "0 < break_score (clauses example_formula) [False, False] 2"
proof -
  have t: "true_lits [False, False] [- 1, 2] = {- 1}" "true_lits [False, False] [1, - 2] = {- 2}"
    "true_lits (flip_assignment 1 [False, False]) [- 1, 2] = {}"
    "true_lits (flip_assignment 2 [False, False]) [1, - 2] = {}"
    by (auto simp: true_lits_def lit_true_def flip_assignment_def)
  have pos: "c < length cls \<Longrightarrow> true_lits \<sigma> (cls ! c) \<noteq> {} \<Longrightarrow> true_lits (flip_assignment l \<sigma>) (cls ! c) = {} \<Longrightarrow>
      0 < break_score cls \<sigma> l" for c cls \<sigma> l
    unfolding break_score_def card_gt_0_iff by auto
  show "0 < break_score (clauses example_formula) [False, False] 1"
    by (rule pos [of 1]) (simp_all add: example_formula_def t)
  show "0 < break_score (clauses example_formula) [False, False] 2"
    by (rule pos [of 2]) (simp_all add: example_formula_def t)
qed

lemma example_unsat:
  assumes "instance_inv example_formula caching s" "bf_abs (belegung s) = [False, False]"
  shows "unsat_clauses s = [0]"
proof -
  have "{c. c < length (clauses example_formula) \<and> true_lits [False, False] (clauses example_formula ! c) = {}} = {0}"
    by (auto simp: example_formula_def true_lits_filter lit_true_def less_Suc_eq numeral_3_eq_3)
  then have u: "unsat_index {0} (unsat_clauses s) (unsat_clauses_location s)"
    using assms by (simp add: instance_inv_def consistent_def)
  from unsat_index_card [OF u] obtain x where x: "unsat_clauses s = [x]" by (auto simp: length_Suc_conv)
  with unsat_index_set [OF u] show ?thesis by simp
qed

theorem do_flip_without_choice_witness:
  "\<exists>s. serial_instance example_formula True (\<lambda>_ u. u) (\<lambda>_. 77) (\<lambda>_. 0) example_start () = Some (s, ()) \<and>
     do_flip example_formula True double_ops (cached_calc_locks double_ops (\<lambda>k. if k = 0 then 1 else 0))
       rgen_rand rgen_get_rand_max s (cached_set_max double_ops 2 [], \<lambda>_. True) (rgen_new 42) = None"
proof -
  let ?pfi = "\<lambda>k :: int. if k = 0 then 1 else (0 :: real)"
  obtain s where s: "serial_instance example_formula True (\<lambda>_ u. u) (\<lambda>_. 77) (\<lambda>_. 0) example_start () = Some (s, ())"
    "instance_inv example_formula True s" "\<not> found_solution s" "bf_abs (belegung s) = [False, False]"
    using example_instance [of True "\<lambda>_ u. u" "\<lambda>_. 77" "\<lambda>_. 0" "()"] by auto
  have cl: "[1, 2] = clauses example_formula ! nat (unsat_clauses s ! (num_flips_done s mod length (unsat_clauses s)))"
    using example_unsat [OF s(2,4)] by (simp add: example_formula_def)
  have "cache_ok double_ops ?pfi (max_num_breaks_possible example_formula) (cached_set_max double_ops 2 [])"
    using example_cache [of ?pfi] by (simp add: example_formula_def)
  moreover have "weights ?pfi example_formula (bf_abs (belegung s)) [1, 2] = [0, 0]"
    using example_break_scores s(4) by (simp add: weights_def)
  then have "\<forall>x \<in> set (partial_sums double_ops (p_zero double_ops) (weights ?pfi example_formula (bf_abs (belegung s)) [1, 2])).
      \<not> p_less double_ops (fst (get_random_value double_ops rgen_rand rgen_get_rand_max
        (foldl (p_add double_ops) (p_zero double_ops) (weights ?pfi example_formula (bf_abs (belegung s)) [1, 2])) (rgen_new 42))) x"
    by (simp add: double_ops_def get_random_value_def split_def Let_def)
  ultimately show ?thesis
    using do_flip_without_choice [OF example_formula_ok s(2,3) _ cl, where locks = "\<lambda>_. True"] s(1) by blast
qed



text \<open>
  C22: the two ways to obtain a break count agree. With caching the counter of the variable is
  read, without it the clauses of the negated literal are scanned; both return the number of
  clauses that are satisfied now and unsatisfied after the flip, and that number stays within
  the bound announced to the probability function, so a cache of that size is never left.
\<close>

theorem break_count_correct:
  assumes "formula_ok F" and "instance_inv F True s"
    and "1 \<le> \<bar>literal\<bar>" and "\<bar>literal\<bar> \<le> num_variables F" and "\<not> lit_true (bf_abs (belegung s)) literal"
  shows "get_num_breaks_by_flip F s literal True = Some (int (break_score (clauses F) (bf_abs (belegung s)) literal)) \<and>
    get_num_breaks_by_flip F s literal False = Some (int (break_score (clauses F) (bf_abs (belegung s)) literal)) \<and>
    int (break_score (clauses F) (bf_abs (belegung s)) literal) \<le> max_num_breaks_possible F"
proof -
  have "int (length (bf_abs (belegung s))) = num_variables F"
    using assms(2) by (auto simp: instance_inv_def bf_wf_def)
  then show ?thesis
    using cached_breaks [OF assms] recomputed_breaks [OF assms] break_score_bound [OF assms(1) _ assms(3-5)] by blast
qed

theorem break_count_correct_witness:
  "\<exists>s. serial_instance example_formula True (\<lambda>_ u. u) (\<lambda>_. 77) (\<lambda>_. 0) example_start () = Some (s, ()) \<and>
     get_num_breaks_by_flip example_formula s 2 True = get_num_breaks_by_flip example_formula s 2 False"
proof -
  obtain s where s: "serial_instance example_formula True (\<lambda>_ u. u) (\<lambda>_. 77) (\<lambda>_. 0) example_start () = Some (s, ())"
    "instance_inv example_formula True s" "bf_abs (belegung s) = [False, False]"
    using example_instance [of True "\<lambda>_ u. u" "\<lambda>_. 77" "\<lambda>_. 0" "()"] by auto
  moreover have "1 \<le> \<bar>2 :: int\<bar>" "\<bar>2\<bar> \<le> num_variables example_formula" "\<not> lit_true (bf_abs (belegung s)) 2"
    by (simp_all add: s(3) example_formula_def lit_true_def)
  ultimately show ?thesis using break_count_correct [OF example_formula_ok, of s 2] by auto
qed

text \<open>
  C14: the result of a run. Under the invariant the solver stops exactly when its assignment
  satisfies every clause, and the independent check before the result is printed
  (\<open>check_assignment\<close>, which scans all clauses) never contradicts it.
\<close>

theorem found_solution_correct:
  assumes "formula_ok F" and "instance_inv F caching s"
  shows "(found_solution s \<longleftrightarrow> satisfies (bf_abs (belegung s)) (clauses F)) \<and>
    check_assignment F s = Some (found_solution s)"
  using found_solution_iff [OF assms(2)] check_assignment_ok [OF assms] by simp

theorem found_solution_correct_witness:
  "\<exists>s. serial_instance example_formula True (\<lambda>_ u. u) (\<lambda>_. 77) (\<lambda>_. 0) example_start () = Some (s, ()) \<and>
     check_assignment example_formula s = Some False"
proof -
  obtain s where s: "serial_instance example_formula True (\<lambda>_ u. u) (\<lambda>_. 77) (\<lambda>_. 0) example_start () = Some (s, ())"
    "instance_inv example_formula True s" "\<not> found_solution s"
    using example_instance [of True "\<lambda>_ u. u" "\<lambda>_. 77" "\<lambda>_. 0" "()"] by auto
  then show ?thesis using found_solution_correct [OF example_formula_ok s(2)] by auto
qed

end
