(* ===== verification/Input_Limits.thy ===== *)
theory Input_Limits
  imports Dimacs Search
begin

text \<open>
  What the reader accepts beyond the normal form, and what follows for the solver.
\<close>

theorem read_stores_clean_clauses_witness:
  "read (istream_of (''p cnf 2 2'' @ [CHR 0x0A] @ ''1 -2 0'' @ [CHR 0x0A] @ ''2 -2 0'')) [] [] =
     Some (Inr (2, [[1, -2]], [(0, 1), (2, 1)])) \<and> stored_clause [1, -2]"
proof -
  have r: "read (istream_of (''p cnf 2 2'' @ [CHR 0x0A] @ ''1 -2 0'' @ [CHR 0x0A] @ ''2 -2 0'')) [] [] =
     Some (Inr (2, [[1, -2]], [(0, 1), (2, 1)]))" by code_simp
  from read_stores_clean_clauses [OF r] r show ?thesis by simp
qed

text \<open>A file with a clause that is always true, and the formula \<open>initialize\<close> makes of it.\<close>

definition tautology_file :: string where
  "tautology_file = ''p cnf 2 3'' @ [CHR 0x0A] @ ''1 0'' @ [CHR 0x0A] @ ''-1 2 0'' @ [CHR 0x0A] @ ''1 -1 0'' @ [CHR 0x0A]"

definition tautology_formula :: cnf_formula where
  "tautology_formula = \<lparr>num_variables = 2, clauses = [[1], [-1, 2]], occurrence_offset = [(0, 2), (4, 0), (5, 0)],
     clauses_with_vars = [1, 0, 0, 0, 1], max_num_breaks_possible = 2\<rparr>"

lemma tautology_initialized: "initialize_formula (Some tautology_file) formula_new = Some (Inr tautology_formula)"
  unfolding tautology_file_def tautology_formula_def by code_simp

definition tautology_start :: bitfield where
  "tautology_start = \<lparr>bf_length = 2, last_mod_index = 2, last_mod_value = False, bf_array = [1]\<rparr>"



text \<open>
  With sharing between threads enabled, every first initialisation that succeeds ends with an
  \<open>unlock\<close> of a mutex the thread does not hold (the guard at the start has released it), which
  is undefined behaviour; a second call returns at once.
\<close>

theorem shared_initialization_unlocks_unheld:
  assumes "clauses F = []" and "initialize_formula file F = Some (Inr F')"
  shows "initialize_shared file F = Some (Inl Undefined_behaviour) \<and>
    (clauses F' \<noteq> [] \<longrightarrow> initialize_shared file F' = Some (Inr F'))"
  using assms by (simp add: initialize_shared_def mutex_unlock_def)

theorem shared_initialization_unlocks_unheld_witness:
  "initialize_shared (Some tautology_file) formula_new = Some (Inl Undefined_behaviour)"
  using shared_initialization_unlocks_unheld [OF _ tautology_initialized] by (simp add: formula_new_def)

end
