(* ===== verification/Occurrence_Lists.thy ===== *)
theory Occurrence_Lists
  imports Cnf_Constructor Search
begin

text \<open>
  The other layout of the occurrence lists in \<open>sat/cnf_formula.hpp\<close>: one pair of vectors per
  variable, filled by appending. It is what \<open>initialize\<close> builds when \<open>USE_CONT_DATASTRUCT\<close> is
  off, and what the checks of \<open>ADDITIONAL_CHECKS\<close> build to compare the continuous layout with.
\<close>

section \<open>The lists\<close>

type_synonym occurrence_lists = "(int list \<times> int list) list \<times> int"

definition push_occurrence :: "int \<Rightarrow> int \<Rightarrow> occurrence_lists \<Rightarrow> occurrence_lists option" where
  "push_occurrence clause_index lit st = (case st of (occs, max_breaks) \<Rightarrow> do {
     let var_index = \<bar>lit\<bar> - 1;
     (neg, pos) \<leftarrow> vget occs var_index;
     if 0 > lit then do {
       occ1 \<leftarrow> vset occs var_index (neg @ [clause_index], pos);
       Some (occ1, max max_breaks (int32 (int (length (neg @ [clause_index]))))) }
     else do {
       occ1 \<leftarrow> vset occs var_index (neg, pos @ [clause_index]);
       Some (occ1, max max_breaks (int32 (int (length (pos @ [clause_index]))))) } })"

definition push_clause :: "cnf_formula \<Rightarrow> int \<Rightarrow> occurrence_lists \<Rightarrow> occurrence_lists option" where
  "push_clause F clause_index st = do {
     c \<leftarrow> get_clause F clause_index;
     foldM (\<lambda>i st. do { lit \<leftarrow> clause_get c i; push_occurrence clause_index lit st }) (clause_indices c) st }"

definition collect_occurrences :: "cnf_formula \<Rightarrow> occurrence_lists option" where
  "collect_occurrences F =
     foldM (push_clause F) [0..num_clauses F - 1]
       (replicate (nat (num_variables F)) ([], []), max_num_breaks_possible F)"

text \<open>The elements behind the two iterator pairs of a variable in this layout.\<close>

definition list_iterators :: "occurrence_lists \<Rightarrow> int \<Rightarrow> (int list \<times> int list) option" where
  "list_iterators st var_index = vget (fst st) var_index"

section \<open>The checks\<close>

text \<open>
  The comparison of one list: the elements from \<open>it_start\<close> on have to be those of the list,
  and the iterator behind them has to be \<open>it_end\<close>.
\<close>

fun check_list :: "cnf_formula \<Rightarrow> int \<Rightarrow> int \<Rightarrow> int list \<Rightarrow> unit result" where
  "check_list F it_start it_end [] = require (it_start = it_end) Assertion_failed"
| "check_list F it_start it_end (x # xs) =
     rbind (defined (vget (clauses_with_vars F) it_start)) (\<lambda>y.
     rbind (require (y = x) Assertion_failed) (\<lambda>_. check_list F (it_start + 1) it_end xs))"

definition check_variable :: "cnf_formula \<Rightarrow> occurrence_lists \<Rightarrow> int \<Rightarrow> unit result" where
  "check_variable F st i =
     rbind (defined (vget (fst st) i)) (\<lambda>(neg, pos).
     rbind (defined (get_iterators_for_clauses_with_vars F i)) (\<lambda>(n0, n1, p0, p1).
     rbind (require (n1 - n0 \<ge> 0) Assertion_failed) (\<lambda>_.
     rbind (require (p1 - p0 \<ge> 0) Assertion_failed) (\<lambda>_.
     rbind (require (n1 - n0 = int (length neg)) Assertion_failed) (\<lambda>_.
     rbind (require (p1 - p0 = int (length pos)) Assertion_failed) (\<lambda>_.
     rbind (check_list F n0 n1 neg) (\<lambda>_. check_list F p0 p1 pos)))))))"

definition additional_checks :: "cnf_formula \<Rightarrow> occurrence_lists \<Rightarrow> unit result" where
  "additional_checks F st = foldR (\<lambda>i _. check_variable F st i) [0..num_variables F - 1] ()"

section \<open>What the lists hold\<close>

text \<open>The occurrences of a literal among the first \<open>k\<close> clauses.\<close>

definition occurrences_upto :: "clause list \<Rightarrow> nat \<Rightarrow> int \<Rightarrow> int list" where
  "occurrences_upto cls k l = map int (filter (\<lambda>c. l \<in> set (cls ! c)) [0..<k])"

definition lists_hold :: "nat \<Rightarrow> (int \<Rightarrow> int list) \<Rightarrow> (int list \<times> int list) list \<Rightarrow> bool" where
  "lists_hold nv f occs \<longleftrightarrow> length occs = nv \<and> (\<forall>v < nv. occs ! v = (f (- int (Suc v)), f (int (Suc v))))"

lemma push_occurrence_ok:
  assumes "lists_hold nv f (fst st)" "l \<noteq> 0" "\<bar>l\<bar> \<le> int nv"
  shows "\<exists>st'. push_occurrence c l st = Some st' \<and> lists_hold nv (\<lambda>k. if k = l then f k @ [c] else f k) (fst st')"
proof -
  obtain occs m where st: "st = (occs, m)" by (cases st)
  obtain v where v: "v < nv" "\<bar>l\<bar> - 1 = int v"
    using assms(2,3) that [of "nat (\<bar>l\<bar> - 1)"] by auto
  have g: "vget occs (int v) = Some (f (- int (Suc v)), f (int (Suc v)))"
    using assms(1) v(1) by (simp add: lists_hold_def st vget_def)
  have s: "vset occs (int v) y = Some (occs[v := y])" for y
    using assms(1) v(1) by (simp add: lists_hold_def st vset_def)
  have l: "l = (if 0 > l then - int (Suc v) else int (Suc v))" using v(2) by auto
  show ?thesis
  proof (cases "0 > l")
    case True
    then have e: "l = - int (Suc v)" using l by simp
    have "lists_hold nv (\<lambda>k. if k = l then f k @ [c] else f k) (occs[v := (f l @ [c], f (int (Suc v)))])"
      using assms(1) v(1) e st by (auto simp: lists_hold_def nth_list_update)
    then show ?thesis using True g s e by (simp add: push_occurrence_def st v(2) Let_def)
  next
    case False
    then have e: "l = int (Suc v)" using l by simp
    have "lists_hold nv (\<lambda>k. if k = l then f k @ [c] else f k) (occs[v := (f (- int (Suc v)), f l @ [c])])"
      using assms(1) v(1) e st by (auto simp: lists_hold_def nth_list_update)
    then show ?thesis using False g s e by (simp add: push_occurrence_def st v(2) Let_def)
  qed
qed

lemma push_literals_ok:
  assumes "lists_hold nv f (fst st)" "\<forall>l \<in> set ls. l \<noteq> 0 \<and> \<bar>l\<bar> \<le> int nv" "distinct ls"
  shows "\<exists>st'. foldM (push_occurrence c) ls st = Some st' \<and>
    lists_hold nv (\<lambda>k. if k \<in> set ls then f k @ [c] else f k) (fst st')"
  using assms
proof (induction ls arbitrary: f st)
  case (Cons l ls)
  let ?f = "\<lambda>k. if k = l then f k @ [c] else f k"
  obtain st1 where st1: "push_occurrence c l st = Some st1" "lists_hold nv ?f (fst st1)"
    using push_occurrence_ok [OF Cons.prems(1), of l c] Cons.prems(2) by auto
  obtain st2 where st2: "foldM (push_occurrence c) ls st1 = Some st2"
    "lists_hold nv (\<lambda>k. if k \<in> set ls then ?f k @ [c] else ?f k) (fst st2)"
    using Cons.IH [OF st1(2)] Cons.prems(2,3) by auto
  have "(\<lambda>k. if k \<in> set ls then ?f k @ [c] else ?f k) = (\<lambda>k. if k \<in> set (l # ls) then f k @ [c] else f k)"
    using Cons.prems(3) by (intro ext) auto
  then show ?case using st1(1) st2 by simp
qed simp

lemma push_clause_ok:
  assumes cls: "clean_clauses nv (clauses F)" and c: "c < length (clauses F)"
    and h: "lists_hold (nat nv) (occurrences_upto (clauses F) c) (fst st)"
  shows "\<exists>st'. push_clause F (int c) st = Some st' \<and>
    lists_hold (nat nv) (occurrences_upto (clauses F) (Suc c)) (fst st')"
proof -
  let ?cl = "clauses F ! c"
  have cl: "clean_clause nv ?cl" using cls c by (simp add: clean_clauses_def)
  have run: "push_clause F (int c) st = foldM (push_occurrence (int c)) ?cl st"
    using clause_loop [of ?cl "[0..<length ?cl]" "push_occurrence (int c)" st] cl c
    by (simp add: push_clause_def get_clause_def clause_indices_nat map_nth clean_clause_def)
  have range: "\<forall>l \<in> set ?cl. l \<noteq> 0 \<and> \<bar>l\<bar> \<le> int (nat nv)"
  proof
    fix l assume "l \<in> set ?cl"
    then have "l \<noteq> 0" "\<bar>l\<bar> \<le> nv" using cl by (simp_all add: clean_clause_def)
    then show "l \<noteq> 0 \<and> \<bar>l\<bar> \<le> int (nat nv)" by linarith
  qed
  have "(\<lambda>k. if k \<in> set ?cl then occurrences_upto (clauses F) c k @ [int c] else occurrences_upto (clauses F) c k) =
      occurrences_upto (clauses F) (Suc c)"
    by (intro ext) (simp add: occurrences_upto_def)
  then show ?thesis
    using push_literals_ok [OF h range clean_clause_distinct [OF cl], of "int c"] run by simp
qed

lemma collect_occurrences_ok:
  assumes "formula_ok F"
  shows "\<exists>st. collect_occurrences F = Some st \<and>
    lists_hold (nat (num_variables F)) (\<lambda>l. map int (occurrences (clauses F) l)) (fst st)"
proof -
  let ?n = "length (clauses F)" and ?nv = "num_variables F"
  have cls: "clean_clauses ?nv (clauses F)" using assms by (simp add: formula_ok_def)
  have "\<exists>st. foldM (\<lambda>c. push_clause F (int c)) [0..<?n] (replicate (nat ?nv) ([], []), max_num_breaks_possible F) = Some st \<and>
      lists_hold (nat ?nv) (occurrences_upto (clauses F) (length [0..<?n])) (fst st)"
  proof (rule foldM_invariant [where P = "\<lambda>ys st. lists_hold (nat ?nv) (occurrences_upto (clauses F) (length ys)) (fst st)"])
    show "lists_hold (nat ?nv) (occurrences_upto (clauses F) (length ([] :: nat list)))
        (fst (replicate (nat ?nv) ([], []), max_num_breaks_possible F))"
      by (simp add: lists_hold_def occurrences_upto_def)
  next
    fix ys c zs and st :: occurrence_lists
    assume split: "[0..<?n] = ys @ c # zs" and h: "lists_hold (nat ?nv) (occurrences_upto (clauses F) (length ys)) (fst st)"
    have n: "length ys < ?n" using arg_cong [OF split, of length] by simp
    have "[0..<?n] ! length ys = c" by (subst split) simp
    then have "c = length ys" "c < ?n" using n by simp_all
    then show "\<exists>st'. push_clause F (int c) st = Some st' \<and>
        lists_hold (nat ?nv) (occurrences_upto (clauses F) (length (ys @ [c]))) (fst st')"
      using push_clause_ok [OF cls, of c st] h by simp
  qed
  moreover have "occurrences_upto (clauses F) ?n = (\<lambda>l. map int (occurrences (clauses F) l))"
    by (intro ext) (simp add: occurrences_upto_def occurrences_def)
  ultimately show ?thesis
    by (simp add: collect_occurrences_def num_clauses_ok [OF assms] upto_int_upt foldM_map)
qed

lemma check_list_ok:
  assumes "iter_elems F a b = Some xs"
  shows "check_list F a b xs = Inr ()"
proof -
  have ab: "0 \<le> a" "a \<le> b" "b \<le> int (length (clauses_with_vars F))"
    and xs: "xs = take (nat (b - a)) (drop (nat a) (clauses_with_vars F))"
    using assms by (auto simp: iter_elems_def split: if_splits)
  have "check_list F (int i) (int (i + n)) (take n (drop i (clauses_with_vars F))) = Inr ()"
    if "i + n \<le> length (clauses_with_vars F)" for i n
    using that
  proof (induction n arbitrary: i)
    case (Suc n)
    then have "take (Suc n) (drop i (clauses_with_vars F)) =
        clauses_with_vars F ! i # take n (drop (Suc i) (clauses_with_vars F))"
      by (simp add: Cons_nth_drop_Suc [symmetric])
    then show ?case using Suc.IH [of "Suc i"] Suc.prems
      by (simp add: vget_def require_def add.commute)
  qed (simp add: require_def)
  from this [of "nat a" "nat (b - a)"] show ?thesis using ab xs by simp
qed

lemma additional_checks_ok:
  assumes F: "formula_ok F"
    and h: "lists_hold (nat (num_variables F)) (\<lambda>l. map int (occurrences (clauses F) l)) (fst st)"
  shows "additional_checks F st = Inr ()"
proof -
  have "check_variable F st i = Inr ()" if i: "0 \<le> i" "i < num_variables F" for i
  proof -
    obtain a b d where it: "get_iterators_for_clauses_with_vars F i = Some (a, b, b, d)"
      "iter_elems F a b = Some (map int (occurrences (clauses F) (- (i + 1))))"
      "iter_elems F b d = Some (map int (occurrences (clauses F) (i + 1)))"
      using F i by (auto simp: formula_ok_def occurrences_ok_def)
    have len: "length xs = nat (y - x)" "x \<le> y" if "iter_elems F x y = Some xs" for x y xs
      using that by (auto simp: iter_elems_def split: if_splits)
    have "vget (fst st) i = Some (map int (occurrences (clauses F) (- (i + 1))), map int (occurrences (clauses F) (i + 1)))"
      using h i by (auto simp: lists_hold_def vget_def add.commute)
    then show ?thesis
      using it len [OF it(2)] len [OF it(3)] check_list_ok [OF it(2)] check_list_ok [OF it(3)]
      by (simp add: check_variable_def require_def)
  qed
  then have "foldR (\<lambda>i _. check_variable F st i) is () = Inr ()" if "set is \<subseteq> {0..num_variables F - 1}" for "is"
    using that by (induction "is") auto
  then show ?thesis by (simp add: additional_checks_def)
qed

text \<open>
  C23: The two layouts of the occurrence lists agree. For a formula with correct occurrence lists
  in the continuous layout, building the layout of one pair of vectors per variable leaves no
  container, its iterators yield for every variable the same two lists of clauses, and every
  assertion of the additional checks, which compare the two, holds.
\<close>

theorem occurrence_layouts_agree:
  assumes "formula_ok F"
  shows "\<exists>st. collect_occurrences F = Some st \<and> additional_checks F st = Inr () \<and>
    (\<forall>v. 0 \<le> v \<and> v < num_variables F \<longrightarrow> (\<exists>a b d neg pos.
       list_iterators st v = Some (neg, pos) \<and> get_iterators_for_clauses_with_vars F v = Some (a, b, b, d) \<and>
       iter_elems F a b = Some neg \<and> iter_elems F b d = Some pos))"
proof -
  obtain st where st: "collect_occurrences F = Some st"
    "lists_hold (nat (num_variables F)) (\<lambda>l. map int (occurrences (clauses F) l)) (fst st)"
    using collect_occurrences_ok [OF assms] by blast
  have "\<exists>a b d neg pos. list_iterators st v = Some (neg, pos) \<and>
      get_iterators_for_clauses_with_vars F v = Some (a, b, b, d) \<and>
      iter_elems F a b = Some neg \<and> iter_elems F b d = Some pos"
    if v: "0 \<le> v" "v < num_variables F" for v
  proof -
    have "list_iterators st v =
        Some (map int (occurrences (clauses F) (- (v + 1))), map int (occurrences (clauses F) (v + 1)))"
      using st(2) v by (auto simp: lists_hold_def list_iterators_def vget_def add.commute)
    then show ?thesis using assms v by (auto simp: formula_ok_def occurrences_ok_def)
  qed
  then show ?thesis using st(1) additional_checks_ok [OF assms st(2)] by blast
qed

theorem occurrence_layouts_agree_witness:
  "\<exists>st. collect_occurrences example_formula = Some st \<and> additional_checks example_formula st = Inr ()"
  using occurrence_layouts_agree [OF example_formula_ok] by blast

end
