(* ===== verification/Solver_Run.thy ===== *)
theory Solver_Run
  imports Search
begin

text \<open>
  One run of the solver, the part the program \<open>probsat\<close> and the threads of a worker share: a
  random start, and flips until the formula is satisfied or the caller's bound is reached.
  The loop has no bound of its own, so it is a partial function: \<open>None\<close> is a run that does
  not end.
\<close>

section \<open>The loop\<close>

definition rand_bit :: "('g \<Rightarrow> nat \<times> 'g) \<Rightarrow> 'g \<Rightarrow> bool \<times> 'g" where
  "rand_bit rand g = (let (k, g') = rand g in (k mod 2 \<noteq> 0, g'))"

definition do_init_configuration ::
    "cnf_formula \<Rightarrow> ('g \<Rightarrow> nat \<times> 'g) \<Rightarrow> bitfield \<Rightarrow> 'g \<Rightarrow> (bitfield \<times> 'g) option" where
  "do_init_configuration F rand b g =
     foldM (\<lambda>i (b, g). let (v, g') = rand_bit rand g in do { b' \<leftarrow> bf_write b i v; Some (b', g') })
       [0..num_variables F - 1] (b, g)"

text \<open>
  \<open>stop n\<close> is the caller's test after the \<open>n\<close>-th flip, \<open>flip\<close> is \<open>do_flip\<close>.
\<close>

partial_function (option) solve_loop ::
    "(nat \<Rightarrow> bool) \<Rightarrow> (instance_state \<Rightarrow> 'c \<Rightarrow> 'g \<Rightarrow> (instance_state \<times> 'c \<times> 'g) option) \<Rightarrow>
     instance_state \<Rightarrow> 'c \<Rightarrow> 'g \<Rightarrow> (instance_state \<times> 'c \<times> 'g) result option" where
  "solve_loop stop flip s pfi g =
     (if found_solution s then Some (Inr (s, pfi, g))
      else (case flip s pfi g of
          None \<Rightarrow> Some (Inl Undefined_behaviour)
        | Some (s', pfi', g') \<Rightarrow>
            if stop (get_num_flips s') then Some (Inr (s', pfi', g')) else solve_loop stop flip s' pfi' g'))"

declare solve_loop.simps [code]

section \<open>What a run guarantees\<close>

lemma init_configuration_ok:
  assumes "bf_wf b" "bf_length b = num_variables F"
  shows "\<exists>b'. do_init_configuration F rand b g =
      Some (b', snd (draws (rand_bit rand) (nat (num_variables F)) g)) \<and> bf_wf b' \<and>
      bf_length b' = num_variables F \<and>
      bf_abs b' = fst (draws (rand_bit rand) (nat (num_variables F)) g)"
proof -
  have len: "int (length (bf_abs b)) = num_variables F" "0 \<le> num_variables F"
    using assms by (auto simp: bf_wf_def)
  obtain b' where b': "do_init_configuration F rand b g =
      Some (b', snd (draws (rand_bit rand) (nat (num_variables F)) g))" "bf_wf b'"
    "bf_abs b' = fst (draws (rand_bit rand) (nat (num_variables F)) g)"
    using bf.fill [OF assms(1) len(1), of "rand_bit rand" g] by (auto simp: do_init_configuration_def)
  then have "nat (bf_length b') = nat (num_variables F)" "0 \<le> bf_length b'"
    by (metis bf_length_abs length_draws, simp add: bf_wf_def)
  then show ?thesis using b' len(2) by auto
qed

context search
begin

lemma draws_bit_good: "good g \<Longrightarrow> good (snd (draws (rand_bit rand) n g))"
  by (induction n) (auto simp: split_def Let_def rand_bit_def rand_good)

text \<open>With a bound the loop ends, in a state of the invariant, for one of its two reasons.\<close>

lemma solve_loop_ends:
  assumes F: "formula_ok F" and pos: "\<forall>k. 0 \<le> k \<and> k \<le> max_num_breaks_possible F \<longrightarrow> pos (f k)"
    and stop: "stop M" "M < 2 ^ 64"
    and inv: "instance_inv F caching s" "ready (max_num_breaks_possible F) pfi" "good g"
      "num_flips_done s < M \<or> found_solution s \<and> num_flips_done s \<le> M"
  shows "\<exists>s' pfi' g'. solve_loop stop (do_flip F caching ops calc rand rand_max) s pfi g = Some (Inr (s', pfi', g')) \<and>
    instance_inv F caching s' \<and> ready (max_num_breaks_possible F) pfi' \<and> good g' \<and>
    (found_solution s' \<or> stop (num_flips_done s')) \<and> num_flips_done s' \<le> M"
  using inv
proof (induction "M - num_flips_done s" arbitrary: s pfi g rule: less_induct)
  case less
  show ?case
  proof (cases "found_solution s")
    case True
    then show ?thesis using less.prems by (auto simp: solve_loop.simps [of stop _ s])
  next
    case False
    obtain s1 pfi1 g1 where s1: "do_flip F caching ops calc rand rand_max s pfi g = Some (s1, pfi1, g1)"
      "instance_inv F caching s1" "ready (max_num_breaks_possible F) pfi1" "good g1"
      "num_flips_done s1 = (num_flips_done s + 1) mod 2 ^ 64"
      using do_flip_step [OF F less.prems(1) False less.prems(2,3) pos] by blast
    have n: "num_flips_done s1 = num_flips_done s + 1" "num_flips_done s < M"
      using s1(5) less.prems(4) False stop(2) by auto
    show ?thesis
    proof (cases "stop (num_flips_done s1)")
      case True
      then show ?thesis using s1 n False by (auto simp: solve_loop.simps [of stop _ s] get_num_flips_def)
    next
      case nostop: False
      then have "num_flips_done s1 < M" using n stop(1) by (cases "num_flips_done s1 = M") auto
      then show ?thesis
        using less.hyps [OF _ s1(2-4)] n nostop False s1(1)
        by (simp add: solve_loop.simps [of stop _ s] get_num_flips_def)
    qed
  qed
qed

text \<open>Without a bound: if the loop ends, it is defined and ended for one of its two reasons.\<close>

lemma solve_loop_result:
  assumes "solve_loop stop (do_flip F caching ops calc rand rand_max) s pfi g = Some r"
    and F: "formula_ok F" and pos: "\<forall>k. 0 \<le> k \<and> k \<le> max_num_breaks_possible F \<longrightarrow> pos (f k)"
    and "instance_inv F caching s" "ready (max_num_breaks_possible F) pfi" "good g"
  shows "\<exists>s' pfi' g'. r = Inr (s', pfi', g') \<and> instance_inv F caching s' \<and>
    ready (max_num_breaks_possible F) pfi' \<and> good g' \<and> (found_solution s' \<or> stop (num_flips_done s'))"
proof -
  let ?P = "\<lambda>stop' flip s pfi g r. stop' = stop \<and> flip = do_flip F caching ops calc rand rand_max \<and>
    instance_inv F caching s \<and> ready (max_num_breaks_possible F) pfi \<and> good g \<longrightarrow>
    (\<exists>s' pfi' g'. r = Inr (s', pfi', g') \<and> instance_inv F caching s' \<and>
      ready (max_num_breaks_possible F) pfi' \<and> good g' \<and> (found_solution s' \<or> stop (num_flips_done s')))"
  have "?P stop (do_flip F caching ops calc rand rand_max) s pfi g r"
  proof (rule solve_loop.raw_induct [where P = ?P, OF _ assms(1)], intro impI, elim conjE)
    fix loop stop' flip s pfi g r
    assume IH: "\<And>stop' flip s pfi g r. loop stop' flip s pfi g = Some r \<Longrightarrow> ?P stop' flip s pfi g r"
      and body: "(if found_solution s then Some (Inr (s, pfi, g))
        else case flip s pfi g of None \<Rightarrow> Some (Inl Undefined_behaviour)
          | Some (s', pfi', g') \<Rightarrow>
              if stop' (get_num_flips s') then Some (Inr (s', pfi', g')) else loop stop' flip s' pfi' g') = Some r"
      and prem: "stop' = stop" "flip = do_flip F caching ops calc rand rand_max"
        "instance_inv F caching s" "ready (max_num_breaks_possible F) pfi" "good g"
    show "\<exists>s' pfi' g'. r = Inr (s', pfi', g') \<and> instance_inv F caching s' \<and>
      ready (max_num_breaks_possible F) pfi' \<and> good g' \<and> (found_solution s' \<or> stop (num_flips_done s'))"
    proof (cases "found_solution s")
      case True
      then show ?thesis using body prem by auto
    next
      case False
      obtain s1 pfi1 g1 where s1: "flip s pfi g = Some (s1, pfi1, g1)"
        "instance_inv F caching s1" "ready (max_num_breaks_possible F) pfi1" "good g1"
        using do_flip_step [OF F prem(3) False prem(4,5) pos] prem(2) by blast
      show ?thesis
      proof (cases "stop (num_flips_done s1)")
        case True
        then have "r = Inr (s1, pfi1, g1)" using body prem(1) s1(1) False by (simp add: get_num_flips_def)
        then show ?thesis using s1 True by blast
      next
        case no: False
        then have "loop stop' flip s1 pfi1 g1 = Some r"
          using body prem(1) s1(1) False by (simp add: get_num_flips_def)
        from IH [OF this] show ?thesis using prem(1,2) s1 by blast
      qed
    qed
  qed
  then show ?thesis using assms(4-6) by blast
qed

end

end
