(* ===== verification/Params.thy ===== *)
theory Params
  imports Strings Dimacs
begin

text \<open>
  The command line of \<open>probsat\<close> (\<open>util/parse_params.hpp\<close>, the parsers of \<open>probsat.hpp\<close>):
  the global options as a record, one function per parser on the queue of the parameters, and
  the loop that calls them. Reading a floating point number is an argument.
\<close>

record 'p options =
  opt_num_iterations :: nat
  opt_max_flips :: nat
  opt_seed :: nat
  opt_eps :: 'p
  opt_cb :: 'p
  opt_output_solution :: nat

definition options_default :: "nat \<Rightarrow> 'p \<Rightarrow> 'p \<Rightarrow> 'p options" where
  "options_default device_seed eps cb = \<lparr> opt_num_iterations = 1, opt_max_flips = 0,
     opt_seed = device_seed, opt_eps = eps, opt_cb = cb, opt_output_solution = 0 \<rparr>"

text \<open>
  Formatted input of an unsigned number of \<open>w\<close> bits: a minus sign is accepted and the value
  negated modulo \<open>2 ^ w\<close>; text after the digits is left in the stream.
\<close>

definition extract_unsigned :: "nat \<Rightarrow> string \<Rightarrow> nat option" where
  "extract_unsigned w s = (case scan_long s of
     None \<Rightarrow> None
   | Some (v, _) \<Rightarrow> if \<bar>v\<bar> < 2 ^ w then Some (nat (v mod 2 ^ w)) else None)"

text \<open>A parser may end the process (\<open>exit\<close>), throw, or return the options and the queue.\<close>

datatype param_stop = Param_exits | Param_throws cpp_error

type_synonym 'p param_function = "'p options \<Rightarrow> string list \<Rightarrow> param_stop + ('p options \<times> string list)"

definition throw_param :: "string \<Rightarrow> param_stop + 'a" where
  "throw_param msg = Inl (Param_throws (Runtime_error msg))"

definition pop_front :: "string list \<Rightarrow> param_stop + string list" where
  "pop_front q = (case q of [] \<Rightarrow> Inl (Param_throws Undefined_behaviour) | _ # rest \<Rightarrow> Inr rest)"

definition front :: "string list \<Rightarrow> param_stop + string" where
  "front q = (case q of [] \<Rightarrow> Inl (Param_throws Undefined_behaviour) | p # _ \<Rightarrow> Inr p)"

lemma queue_simps [simp]: "pop_front (p # q) = Inr q" "front (p # q) = Inr p"
  by (simp_all add: pop_front_def front_def)

definition parse_param_help :: "'p param_function" where
  "parse_param_help opt params = Inl Param_exits"

definition parse_output_solution :: "'p param_function" where
  "parse_output_solution opt params =
     rbind (pop_front params) (\<lambda>params. Inr (opt\<lparr> opt_output_solution := 20 \<rparr>, params))"

definition parse_cb_eps :: "(string \<Rightarrow> 'p option) \<Rightarrow> 'p param_function" where
  "parse_cb_eps read_prec opt params =
     rbind (front params) (\<lambda>type. rbind (pop_front params) (\<lambda>params.
     let pmsg = (if ''--cb'' = type then ''cb value'' else ''eps value'') in
     if params = [] then throw_param (pmsg @ '' is required'')
     else rbind (front params) (\<lambda>value. case read_prec value of
         None \<Rightarrow> throw_param (''can't parse '' @ value @ '' as '' @ pmsg)
       | Some x \<Rightarrow> rbind (pop_front params) (\<lambda>params.
           Inr (if ''--cb'' = type then opt\<lparr> opt_cb := x \<rparr> else opt\<lparr> opt_eps := x \<rparr>, params)))))"

definition parse_maxflips_and_seed :: "'p param_function" where
  "parse_maxflips_and_seed opt params =
     rbind (front params) (\<lambda>type. rbind (pop_front params) (\<lambda>params.
     let pmsg = (if ''--seed'' = type then ''seed'' else ''maximum number of flips'') in
     if params = [] then throw_param (pmsg @ '' is required'')
     else rbind (front params) (\<lambda>value.
       case extract_unsigned (if ''--seed'' = type then 32 else 64) value of
         None \<Rightarrow> throw_param (''can't parse '' @ value @ '' as '' @ pmsg)
       | Some x \<Rightarrow> rbind (pop_front params) (\<lambda>params.
           Inr (if ''--seed'' = type then opt\<lparr> opt_seed := x \<rparr> else opt\<lparr> opt_max_flips := x \<rparr>, params)))))"

definition parse_num_iterations :: "'p param_function" where
  "parse_num_iterations opt params =
     rbind (pop_front params) (\<lambda>params.
     if params = [] then throw_param ''number of iterations is required''
     else rbind (front params) (\<lambda>value. case extract_unsigned 64 value of
         None \<Rightarrow> throw_param (''can't parse '' @ value @ '' as number of iterations'')
       | Some x \<Rightarrow> rbind (pop_front params) (\<lambda>params. Inr (opt\<lparr> opt_num_iterations := x \<rparr>, params))))"

definition param_parse_registry :: "(string \<Rightarrow> 'p option) \<Rightarrow> string \<Rightarrow> 'p param_function option" where
  "param_parse_registry read_prec name =
     (if name \<in> {''--help'', ''-h''} then Some parse_param_help
      else if name \<in> {''--maxflips'', ''--seed''} then Some parse_maxflips_and_seed
      else if name \<in> {''--cb'', ''--eps''} then Some (parse_cb_eps read_prec)
      else if name = ''--runs'' then Some parse_num_iterations
      else if name \<in> {''-a'', ''--printSolution''} then Some parse_output_solution
      else None)"

text \<open>Every parser takes at least the name of the parameter from the queue.\<close>

lemma pop_front_Inr: "pop_front q = Inr q' \<Longrightarrow> length q' \<le> length q"
  by (auto simp: pop_front_def split: list.splits)

lemma parse_cb_eps_shorter: "parse_cb_eps rd opt (p # q) = Inr (opt', q') \<Longrightarrow> length q' \<le> length q"
  by (auto simp: parse_cb_eps_def throw_param_def rbind_Inr_iff Let_def dest: pop_front_Inr
      split: if_splits option.splits)

lemma parse_maxflips_shorter:
  "parse_maxflips_and_seed opt (p # q) = Inr (opt', q') \<Longrightarrow> length q' \<le> length q"
  by (auto simp: parse_maxflips_and_seed_def throw_param_def rbind_Inr_iff Let_def dest: pop_front_Inr
      split: if_splits option.splits)

lemma parse_num_shorter: "parse_num_iterations opt (p # q) = Inr (opt', q') \<Longrightarrow> length q' \<le> length q"
  by (auto simp: parse_num_iterations_def throw_param_def rbind_Inr_iff dest: pop_front_Inr
      split: if_splits option.splits)

lemma parsers_shorten:
  assumes "param_parse_registry read_prec name = Some f" "f opt (p # q) = Inr (opt', q')"
  shows "length q' \<le> length q"
proof -
  consider "f = parse_param_help" | "f = parse_maxflips_and_seed" | "f = parse_cb_eps read_prec"
    | "f = parse_num_iterations" | "f = parse_output_solution"
    using assms(1) unfolding param_parse_registry_def by (metis option.distinct(1) option.inject)
  then show ?thesis
    using assms(2) parse_cb_eps_shorter parse_maxflips_shorter parse_num_shorter
    by cases (auto simp: parse_param_help_def parse_output_solution_def)
qed

text \<open>
  \<open>parse_params\<close>: the number of parameters left, \<open>- 1\<close> after an error; \<open>Inl\<close> is the exit code
  of a parser that ends the process.
\<close>

function parse_params ::
    "(string \<Rightarrow> 'p option) \<Rightarrow> 'p options \<Rightarrow> string list \<Rightarrow> int + (int \<times> 'p options)" where
  "parse_params read_prec opt params = (case params of
     [] \<Rightarrow> Inr (0, opt)
   | param # _ \<Rightarrow> (case param_parse_registry read_prec param of
       None \<Rightarrow> Inr (int (length params), opt)
     | Some param_func \<Rightarrow> (case param_func opt params of
         Inl (Param_throws e) \<Rightarrow> Inr (- 1, opt)
       | Inl Param_exits \<Rightarrow> Inl 0
       | Inr (opt', params') \<Rightarrow> parse_params read_prec opt' params')))"
  by pat_completeness auto
termination
  by (relation "measure (\<lambda>(r, opt, params). length params)") (auto dest!: parsers_shorten)

declare parse_params.simps [simp del]

section \<open>What a well-formed command line sets\<close>

datatype 'p param_setting =
    Set_max_flips nat
  | Set_seed nat
  | Set_cb string 'p
  | Set_eps string 'p
  | Set_runs nat
  | Set_print bool

fun show_setting :: "'p param_setting \<Rightarrow> string list" where
  "show_setting (Set_max_flips n) = [''--maxflips'', show_int (int n)]"
| "show_setting (Set_seed n) = [''--seed'', show_int (int n)]"
| "show_setting (Set_cb t x) = [''--cb'', t]"
| "show_setting (Set_eps t x) = [''--eps'', t]"
| "show_setting (Set_runs n) = [''--runs'', show_int (int n)]"
| "show_setting (Set_print long) = [if long then ''--printSolution'' else ''-a'']"

fun apply_setting :: "'p param_setting \<Rightarrow> 'p options \<Rightarrow> 'p options" where
  "apply_setting (Set_max_flips n) opt = opt\<lparr> opt_max_flips := n \<rparr>"
| "apply_setting (Set_seed n) opt = opt\<lparr> opt_seed := n \<rparr>"
| "apply_setting (Set_cb t x) opt = opt\<lparr> opt_cb := x \<rparr>"
| "apply_setting (Set_eps t x) opt = opt\<lparr> opt_eps := x \<rparr>"
| "apply_setting (Set_runs n) opt = opt\<lparr> opt_num_iterations := n \<rparr>"
| "apply_setting (Set_print long) opt = opt\<lparr> opt_output_solution := 20 \<rparr>"

fun setting_ok :: "(string \<Rightarrow> 'p option) \<Rightarrow> 'p param_setting \<Rightarrow> bool" where
  "setting_ok read_prec (Set_max_flips n) = (n < 2 ^ 64)"
| "setting_ok read_prec (Set_seed n) = (n < 2 ^ 32)"
| "setting_ok read_prec (Set_cb t x) = (read_prec t = Some x)"
| "setting_ok read_prec (Set_eps t x) = (read_prec t = Some x)"
| "setting_ok read_prec (Set_runs n) = (n < 2 ^ 64)"
| "setting_ok read_prec (Set_print long) = True"

lemma extract_unsigned_show: "n < 2 ^ w \<Longrightarrow> extract_unsigned w (show_int (int n)) = Some n"
proof -
  assume n: "n < 2 ^ w"
  then have "int n < 2 ^ w" by (metis of_nat_less_iff of_nat_numeral of_nat_power)
  then show ?thesis using scan_long_show [of "[]" "int n"] by (simp add: extract_unsigned_def)
qed

lemma parse_setting:
  assumes "setting_ok read_prec x"
  shows "parse_params read_prec opt (show_setting x @ rest) = parse_params read_prec (apply_setting x opt) rest"
  using assms
  by (cases x) (simp_all add: parse_params.simps [of read_prec opt] param_parse_registry_def
      parse_maxflips_and_seed_def parse_cb_eps_def parse_num_iterations_def parse_output_solution_def
      extract_unsigned_show Let_def)

text \<open>
  A command line made of well-formed settings and the name of a formula is understood:
  every setting is applied in order, the last one wins, and exactly the name is left. The
  loop always ends, since every parser removes its parameter from the queue.
\<close>

theorem parse_params_settings:
  assumes "\<forall>x \<in> set settings. setting_ok read_prec x" "param_parse_registry read_prec fname = None"
  shows "parse_params read_prec opt (concat (map show_setting settings) @ [fname]) =
    Inr (1, foldl (\<lambda>opt x. apply_setting x opt) opt settings)"
  using assms(1)
proof (induction settings arbitrary: opt)
  case Nil
  then show ?case using assms(2) by (simp add: parse_params.simps)
next
  case (Cons x settings)
  then show ?case using parse_setting [of read_prec x opt] by simp
qed

theorem parse_params_settings_witness:
  "parse_params (\<lambda>t. if t = ''3'' then Some (3 :: int) else None) (options_default 7 1 2)
     [''--maxflips'', ''100'', ''--cb'', ''3'', ''-a'', ''f.cnf''] =
   Inr (1, \<lparr> opt_num_iterations = 1, opt_max_flips = 100, opt_seed = 7, opt_eps = 1, opt_cb = 3,
     opt_output_solution = 20 \<rparr>)"
proof -
  have "show_int (int 100) = ''100''" by code_simp
  then show ?thesis
    using parse_params_settings [of "[Set_max_flips 100, Set_cb ''3'' 3, Set_print False]"
        "\<lambda>t. if t = ''3'' then Some (3 :: int) else None" "''f.cnf''" "options_default 7 1 2"]
    by (simp add: param_parse_registry_def options_default_def)
qed

text \<open>
  What the parsers reject and what they accept. A parameter without its value, or with a
  value that does not start with a number or does not fit, makes \<open>parse_params\<close> return
  \<open>- 1\<close>. A negative number is accepted and wraps, so \<open>--maxflips -1\<close> asks for \<open>2 ^ 64 - 1\<close>
  flips, and text after the digits is ignored.
\<close>

theorem parse_params_errors:
  "parse_params read_prec opt [''--runs''] = Inr (- 1, opt) \<and>
   parse_params read_prec opt [''--seed'', ''4294967296'', f] = Inr (- 1, opt) \<and>
   parse_params read_prec opt [''--maxflips'', ''many'', f] = Inr (- 1, opt) \<and>
   parse_params read_prec opt [''--help''] = Inl 0 \<and>
   parse_params read_prec opt [''--maxflips'', ''-1''] = Inr (0, opt\<lparr> opt_max_flips := 2 ^ 64 - 1 \<rparr>) \<and>
   parse_params read_prec opt [''--runs'', ''12ab''] = Inr (0, opt\<lparr> opt_num_iterations := 12 \<rparr>)"
proof -
  have "extract_unsigned 32 ''4294967296'' = None" "extract_unsigned 64 ''many'' = None"
    "extract_unsigned 64 ''-1'' = Some (2 ^ 64 - 1)" "extract_unsigned 64 ''12ab'' = Some 12"
    by (simp_all add: extract_unsigned_def scan_long_def scan_sign_def is_space_def is_digit_def
        digits_val_def digit_val_def)
  then show ?thesis
    by (simp add: parse_params.simps param_parse_registry_def parse_num_iterations_def throw_param_def
        parse_maxflips_and_seed_def parse_param_help_def)
qed

end
