(* ===== verification/Probsat.thy ===== *)
theory Probsat
  imports Solver_Run Params
begin

text \<open>
  The sequential program (\<open>probsat.cpp\<close>): one iteration, the iterations, and \<open>main\<close>. The
  output is a list of lines; durations and rates are left out. \<open>None\<close> is a program that does
  not end. What comes from outside is the record of the environment: files, the values of
  \<open>std::random_device\<close>, the content of fresh memory, the outcomes of \<open>try_lock\<close> and the
  reading of floating point numbers.
\<close>

record 'p probsat_env =
  pe_ops :: "'p prec_ops"
  pe_files :: "string \<Rightarrow> string option"
  pe_device :: "nat \<Rightarrow> nat"
  pe_mem :: "nat \<Rightarrow> int"
  pe_junk :: "nat \<Rightarrow> 8 word"
  pe_locks :: "nat \<Rightarrow> bool"
  pe_read_prec :: "string \<Rightarrow> 'p option"
  pe_eps :: 'p
  pe_cb :: 'p

datatype line =
    Usage string
  | Processing string
  | Num_vars int
  | Num_clauses int
  | Iteration nat nat
  | Seed nat
  | No_solution nat
  | Done nat
  | Satisfiable
  | Values string
  | Error cpp_error

text \<open>
  The values of a solution: lines of \<open>output_solution\<close> values, each the index of the
  variable, negated if it is false. The non-constant access brings the bit field up to date.
\<close>

definition solution_text :: "cnf_formula \<Rightarrow> nat \<Rightarrow> bitfield \<Rightarrow> string option" where
  "solution_text F output_solution config =
     map_option fst (foldM (\<lambda>i (t, b). do {
         b' \<leftarrow> bf_ref b i;
         let sep = (if 0 = i mod int output_solution
                    then (if 0 < i then [CHR 0x0A] else []) @ ''v'' else []);
         Some (t @ sep @ '' '' @ show_int (if last_mod_value b' then i else - i), b') })
       [0..num_variables F - 1] ([], config))"

text \<open>
  An iteration ends with the lines it prints, whether it found a solution, and the objects
  that live on: \<open>belegung\<close> (the solver works on a copy) and the probability function.
\<close>

record 'p iteration =
  it_lines :: "line list"
  it_found :: bool
  it_belegung :: bitfield
  it_cache :: "'p list \<times> (nat \<Rightarrow> bool)"

definition report_solution ::
    "'p options \<Rightarrow> cnf_formula \<Rightarrow> bitfield \<Rightarrow> instance_state \<Rightarrow> line list result" where
  "report_solution opt F config solver =
     rbind (defined (check_assignment F solver)) (\<lambda>ok.
     rbind (require ok Assertion_failed) (\<lambda>_.
     if 0 < opt_output_solution opt
     then rbind (defined (solution_text F (opt_output_solution opt) config)) (\<lambda>t.
       Inr [Satisfiable, Values t])
     else Inr [Satisfiable]))"

definition reached :: "nat \<Rightarrow> nat \<Rightarrow> bool" where
  "reached max_flips n \<longleftrightarrow> 0 < max_flips \<and> max_flips \<le> n"

definition probsat_iteration ::
    "'p probsat_env \<Rightarrow> 'p options \<Rightarrow> cnf_formula \<Rightarrow> nat \<Rightarrow> bitfield \<Rightarrow> 'p list \<times> (nat \<Rightarrow> bool) \<Rightarrow>
     'p iteration result option" where
  "probsat_iteration env opt F it b cache =
     (let ops = pe_ops env; pf = polynomial_calc ops \<lparr> poly_eps = opt_eps opt, poly_cb = opt_cb opt \<rparr>;
          rgen = rgen_new (opt_seed opt)
      in case do_init_configuration F rgen_rand b rgen of
        None \<Rightarrow> Some (Inl Undefined_behaviour)
      | Some (config, g) \<Rightarrow>
          (case serial_instance F True (\<lambda>N c. (cached_set_max ops N (fst c), snd c))
                  (pe_mem env) (pe_junk env) config cache of
             None \<Rightarrow> Some (Inl Undefined_behaviour)
           | Some (solver, cache1) \<Rightarrow> do {
               r \<leftarrow> solve_loop (reached (opt_max_flips opt))
                 (do_flip F True ops (cached_calc_locks ops pf) rgen_rand rgen_get_rand_max) solver cache1 g;
               Some (rbind r (\<lambda>(solver, cache2, g).
                 rbind (if found_solution solver then report_solution opt F config solver else Inr []) (\<lambda>solution.
                 Inr \<lparr> it_lines = [Iteration it (opt_num_iterations opt), Seed (rgen_get_seed rgen)] @
                         (if reached (opt_max_flips opt) (get_num_flips solver)
                          then [No_solution (get_num_flips solver)] else []) @
                         [Done (get_num_flips solver)] @ solution,
                       it_found = found_solution solver, it_belegung = config, it_cache = cache2 \<rparr>))) }))"

fun probsat_iterations ::
    "'p probsat_env \<Rightarrow> cnf_formula \<Rightarrow> nat \<Rightarrow> nat \<Rightarrow> 'p options \<Rightarrow> bitfield \<Rightarrow> 'p list \<times> (nat \<Rightarrow> bool) \<Rightarrow>
     line list \<Rightarrow> line list result option" where
  "probsat_iterations env F it 0 opt b cache out = Some (Inr out)"
| "probsat_iterations env F it (Suc remaining) opt b cache out =
     (case probsat_iteration env opt F it b cache of
        None \<Rightarrow> None
      | Some (Inl e) \<Rightarrow> Some (Inl e)
      | Some (Inr i) \<Rightarrow>
          if it_found i then Some (Inr (out @ it_lines i))
          else probsat_iterations env F (it + 1) remaining (opt\<lparr> opt_seed := pe_device env it \<rparr>)
                 (it_belegung i) (it_cache i) (out @ it_lines i))"

text \<open>
  An exception is printed and the program still returns \<open>EXIT_SUCCESS\<close>; a failed assertion or
  undefined behaviour is not caught.
\<close>

datatype probsat_outcome = Exits int "line list" | Aborts cpp_error

definition after_try :: "line list result \<Rightarrow> probsat_outcome" where
  "after_try r = (case r of
     Inr out \<Rightarrow> Exits 0 out
   | Inl Assertion_failed \<Rightarrow> Aborts Assertion_failed
   | Inl Undefined_behaviour \<Rightarrow> Aborts Undefined_behaviour
   | Inl e \<Rightarrow> Exits 0 [Error e])"

definition solve_file :: "'p probsat_env \<Rightarrow> 'p options \<Rightarrow> string \<Rightarrow> line list result option" where
  "solve_file env opt fname = do {
     res \<leftarrow> initialize_formula (pe_files env fname) formula_new;
     case res of
       Inl e \<Rightarrow> Some (Inl e)
     | Inr F \<Rightarrow> (case bf_new (pe_junk env) (num_variables F) of
         None \<Rightarrow> Some (Inl Undefined_behaviour)
       | Some b \<Rightarrow> probsat_iterations env F 1 (opt_num_iterations opt) opt b ([], pe_locks env)
           [Processing fname, Num_vars (num_variables F), Num_clauses (num_clauses F)]) }"

definition probsat_main :: "'p probsat_env \<Rightarrow> string list \<Rightarrow> probsat_outcome option" where
  "probsat_main env argv =
     (if 2 > length argv then Some (Exits 1 [Usage ''[parameters like --help] boolean_formula.cnf''])
      else case parse_params (pe_read_prec env) (options_default (pe_device env 0) (pe_eps env) (pe_cb env)) (tl argv) of
        Inl code \<Rightarrow> Some (Exits code [Usage ''[parameters] boolean_formula.cnf''])
      | Inr (params_left, opt) \<Rightarrow>
          if 0 > params_left then Some (Exits 1 [])
          else if 1 > params_left then Some (Exits 1 [Usage ''at least one boolean formula is required''])
          else if 1 < params_left then Some (Exits 1 [Usage ''privision of multiple boolean formulas not supported''])
          else map_option after_try (solve_file env opt (last argv)))"

section \<open>The printed values\<close>

definition values_text :: "nat \<Rightarrow> bool list \<Rightarrow> string" where
  "values_text per_line \<sigma> = concat (map (\<lambda>i.
     (if i mod per_line = 0 then (if 0 < i then [CHR 0x0A] else []) @ ''v'' else []) @ '' '' @
     show_int (if \<sigma> ! i then int i else - int i)) [0..<length \<sigma>])"

lemma solution_text_eq:
  assumes b: "bf_wf b" "bf_length b = num_variables F"
  shows "solution_text F per_line b = Some (values_text per_line (bf_abs b))"
proof -
  let ?\<sigma> = "bf_abs b"
  let ?item = "\<lambda>i. (if i mod per_line = 0 then (if 0 < i then [CHR 0x0A] else []) @ ''v'' else []) @ '' '' @
     show_int (if ?\<sigma> ! i then int i else - int i)"
  let ?f = "\<lambda>i (t, b). do {
         b' \<leftarrow> bf_ref b i;
         let sep = (if 0 = i mod int per_line then (if 0 < i then [CHR 0x0A] else []) @ ''v'' else []);
         Some (t @ sep @ '' '' @ show_int (if last_mod_value b' then i else - i), b') }"
  have n: "num_variables F = int (length ?\<sigma>)" using b by (simp add: bf_wf_def)
  have "\<exists>st. foldM (\<lambda>i. ?f (int i)) [0..<length ?\<sigma>] ([], b) = Some st \<and>
      (\<lambda>is (t, b'). t = concat (map ?item is) \<and> bf_wf b' \<and> bf_abs b' = ?\<sigma> \<and> bf_length b' = bf_length b) [0..<length ?\<sigma>] st"
  proof (rule foldM_invariant)
    fix ys i zs st assume eq: "[0..<length ?\<sigma>] = ys @ i # zs"
      and P: "case st of (t, b') \<Rightarrow> t = concat (map ?item ys) \<and> bf_wf b' \<and> bf_abs b' = ?\<sigma> \<and> bf_length b' = bf_length b"
    obtain t b1 where st: "st = (t, b1)" by (cases st)
    have i: "i < length ?\<sigma>" using upt_split_nth [OF eq] by simp
    have b1: "bf_wf b1" "bf_abs b1 = ?\<sigma>" "bf_length b1 = bf_length b" using P st by auto
    have "int i < bf_length b1" using i b1(3) by simp
    from bf_ref_eq [OF b1(1) this] obtain b2 where b2: "bf_ref b1 (int i) = Some b2" "bf_wf b2"
      "bf_abs b2 = ?\<sigma>" "last_mod_value b2 = ?\<sigma> ! i" "bf_length b2 = bf_length b" using b1 by metis
    have "int i mod int per_line = int (i mod per_line)" by (simp add: zmod_int)
    then show "\<exists>st'. ?f (int i) st = Some st' \<and>
        (case st' of (t, b') \<Rightarrow> t = concat (map ?item (ys @ [i])) \<and> bf_wf b' \<and> bf_abs b' = ?\<sigma> \<and> bf_length b' = bf_length b)"
      using P b2 by (simp add: st Let_def)
  qed (simp add: b)
  then show ?thesis
    unfolding solution_text_def n upto_int_upt foldM_map by (auto simp: values_text_def)
qed

end
