(* ===== verification/Probsat_Correct.thy ===== *)
theory Probsat_Correct
  imports Probsat
begin

text \<open>
  The properties of the sequential program, for its 53-bit arithmetic: it ends when the number
  of flips is bounded, it reports a solution only if the last assignment satisfies the formula,
  and what it prints of it.
\<close>

section \<open>One iteration\<close>

definition start_of :: "cnf_formula \<Rightarrow> nat \<Rightarrow> bool list" where
  "start_of F seed = fst (draws (rand_bit rgen_rand) (nat (num_variables F)) (rgen_new seed))"

definition option_function :: "real options \<Rightarrow> int \<Rightarrow> real" where
  "option_function opt = polynomial_calc double_ops \<lparr> poly_eps = opt_eps opt, poly_cb = opt_cb opt \<rparr>"

text \<open>What an iteration returns: \<open>n\<close> flips led from the drawn start to the assignment \<open>\<sigma>\<close>.\<close>

definition iteration_ok ::
    "real options \<Rightarrow> cnf_formula \<Rightarrow> nat \<Rightarrow> nat \<Rightarrow> bool list \<Rightarrow> real iteration \<Rightarrow> bool" where
  "iteration_ok opt F it n \<sigma> i \<longleftrightarrow>
     length \<sigma> = nat (num_variables F) \<and> it_found i = satisfies \<sigma> (clauses F) \<and>
     (it_found i \<or> reached (opt_max_flips opt) n) \<and>
     bf_wf (it_belegung i) \<and> bf_length (it_belegung i) = num_variables F \<and>
     bf_abs (it_belegung i) = start_of F (opt_seed opt) \<and>
     cache_ok double_ops (option_function opt) (max_num_breaks_possible F) (fst (it_cache i)) \<and>
     it_lines i = [Iteration it (opt_num_iterations opt), Seed (opt_seed opt)] @
       (if reached (opt_max_flips opt) n then [No_solution n] else []) @ [Done n] @
       (if it_found i
        then Satisfiable # (if 0 < opt_output_solution opt
          then [Values (values_text (opt_output_solution opt) (start_of F (opt_seed opt)))] else [])
        else [])"

text \<open>The state in which an iteration enters its loop.\<close>

lemma iteration_start:
  assumes F: "formula_ok F" and b: "bf_wf b" "bf_length b = num_variables F"
    and cache: "cache_ok double_ops (option_function opt) M (fst cache)"
  obtains config g solver where
    "do_init_configuration F rgen_rand b (rgen_new (opt_seed opt)) = Some (config, g)" "rgen_wf g"
    "bf_wf config" "bf_length config = num_variables F" "bf_abs config = start_of F (opt_seed opt)"
    "serial_instance F True (\<lambda>N c. (cached_set_max double_ops N (fst c), snd c)) mem junk config cache =
      Some (solver, (cached_set_max double_ops (max_num_breaks_possible F) (fst cache), snd cache))"
    "instance_inv F True solver" "num_flips_done solver = 0"
    "cache_ok double_ops (option_function opt) (max_num_breaks_possible F)
       (cached_set_max double_ops (max_num_breaks_possible F) (fst cache))"
proof -
  let ?g = "snd (draws (rand_bit rgen_rand) (nat (num_variables F)) (rgen_new (opt_seed opt)))"
  obtain config where c: "do_init_configuration F rgen_rand b (rgen_new (opt_seed opt)) = Some (config, ?g)"
    "bf_wf config" "bf_length config = num_variables F" "bf_abs config = start_of F (opt_seed opt)"
    using init_configuration_ok [OF b, of rgen_rand "rgen_new (opt_seed opt)"] unfolding start_of_def by blast
  have g: "rgen_wf ?g" by (rule ps.draws_bit_good) (rule rgen_wf_new)
  obtain solver where s: "serial_instance F True (\<lambda>N c. (cached_set_max double_ops N (fst c), snd c)) mem junk config cache =
      Some (solver, (cached_set_max double_ops (max_num_breaks_possible F) (fst cache), snd cache))"
    "instance_inv F True solver" "num_flips_done solver = 0"
    using serial_instance_ok [OF F c(2,3), where caching = True and mem = mem and junk = junk and pfi = cache
        and set_max = "\<lambda>N c. (cached_set_max double_ops N (fst c), snd c)"] by blast
  have "cache_ok double_ops (option_function opt) (max_num_breaks_possible F)
      (cached_set_max double_ops (max_num_breaks_possible F) (fst cache))"
    using cache_ok_set_max [OF cache] by blast
  from that [OF c(1) g c(2,3,4) s this] show thesis .
qed

text \<open>What follows the loop.\<close>

lemma report_solution_eq:
  assumes F: "formula_ok F" and inv: "instance_inv F True solver" and found: "found_solution solver"
    and b: "bf_wf config" "bf_length config = num_variables F"
  shows "report_solution opt F config solver = Inr (Satisfiable #
    (if 0 < opt_output_solution opt
     then [Values (values_text (opt_output_solution opt) (bf_abs config))] else []))"
  using found check_assignment_ok [OF F inv] solution_text_eq [OF b] found_solution_iff [OF inv]
  by (simp add: report_solution_def require_def)

definition loop_of ::
    "real options \<Rightarrow> cnf_formula \<Rightarrow> instance_state \<Rightarrow> real list \<times> (nat \<Rightarrow> bool) \<Rightarrow> rgen \<Rightarrow>
     (instance_state \<times> (real list \<times> (nat \<Rightarrow> bool)) \<times> rgen) result option" where
  "loop_of opt F = solve_loop (reached (opt_max_flips opt))
     (do_flip F True double_ops (cached_calc_locks double_ops (option_function opt)) rgen_rand rgen_get_rand_max)"

definition carried_over ::
    "real probsat_env \<Rightarrow> real options \<Rightarrow> cnf_formula \<Rightarrow> nat \<Rightarrow> bitfield \<Rightarrow> real list \<times> (nat \<Rightarrow> bool) \<Rightarrow>
     (instance_state \<times> (real list \<times> (nat \<Rightarrow> bool)) \<times> rgen) result option \<Rightarrow> bool" where
  "carried_over env opt F it b cache r \<longleftrightarrow>
     (r = None \<longrightarrow> probsat_iteration env opt F it b cache = None) \<and>
     (\<forall>s' cache' g'. r = Some (Inr (s', cache', g')) \<longrightarrow> instance_inv F True s' \<longrightarrow>
        cache_ok double_ops (option_function opt) (max_num_breaks_possible F) (fst cache') \<longrightarrow>
        found_solution s' \<or> reached (opt_max_flips opt) (num_flips_done s') \<longrightarrow>
        (\<exists>i. probsat_iteration env opt F it b cache = Some (Inr i) \<and>
          iteration_ok opt F it (num_flips_done s') (bf_abs (belegung s')) i))"

lemma iteration_end:
  assumes F: "formula_ok F" and b: "bf_wf b" "bf_length b = num_variables F"
    and cache: "cache_ok double_ops (option_function opt) M (fst cache)"
    and ops: "pe_ops env = double_ops" and eps: "0 < opt_eps opt"
  obtains solver cache1 g where
    "rgen_wf g" "instance_inv F True solver" "num_flips_done solver = 0"
    "cache_ok double_ops (option_function opt) (max_num_breaks_possible F) (fst cache1)"
    "carried_over env opt F it b cache (loop_of opt F solver cache1 g)"
proof -
  obtain config g solver where st:
    "do_init_configuration F rgen_rand b (rgen_new (opt_seed opt)) = Some (config, g)" "rgen_wf g"
    "bf_wf config" "bf_length config = num_variables F" "bf_abs config = start_of F (opt_seed opt)"
    "serial_instance F True (\<lambda>N c. (cached_set_max double_ops N (fst c), snd c)) (pe_mem env) (pe_junk env) config cache =
      Some (solver, (cached_set_max double_ops (max_num_breaks_possible F) (fst cache), snd cache))"
    "instance_inv F True solver" "num_flips_done solver = 0"
    "cache_ok double_ops (option_function opt) (max_num_breaks_possible F)
       (cached_set_max double_ops (max_num_breaks_possible F) (fst cache))"
    by (rule iteration_start [OF F b cache])
  let ?cache1 = "(cached_set_max double_ops (max_num_breaks_possible F) (fst cache), snd cache)"
  let ?loop = "loop_of opt F solver ?cache1 g"
  have eq: "probsat_iteration env opt F it b cache = do {
      r \<leftarrow> ?loop;
      Some (rbind r (\<lambda>(solver, cache2, g).
        rbind (if found_solution solver then report_solution opt F config solver else Inr []) (\<lambda>solution.
        Inr \<lparr> it_lines = [Iteration it (opt_num_iterations opt), Seed (rgen_get_seed (rgen_new (opt_seed opt)))] @
                (if reached (opt_max_flips opt) (get_num_flips solver)
                 then [No_solution (get_num_flips solver)] else []) @
                [Done (get_num_flips solver)] @ solution,
              it_found = found_solution solver, it_belegung = config, it_cache = cache2 \<rparr>))) }"
    using st(1,6) by (simp add: probsat_iteration_def ops option_function_def loop_of_def Let_def)
  have res: "\<exists>i. probsat_iteration env opt F it b cache = Some (Inr i) \<and>
      iteration_ok opt F it (num_flips_done s') (bf_abs (belegung s')) i"
    if r: "?loop = Some (Inr (s', cache', g'))" and inv: "instance_inv F True s'"
      and c: "cache_ok double_ops (option_function opt) (max_num_breaks_possible F) (fst cache')"
      and e: "found_solution s' \<or> reached (opt_max_flips opt) (num_flips_done s')" for s' cache' g'
  proof -
    have len: "length (bf_abs (belegung s')) = nat (num_variables F)" using inv by (auto simp: instance_inv_def)
    show ?thesis
      unfolding eq r
      using report_solution_eq [OF F inv _ st(3,4), of opt] found_solution_iff [OF inv] st(3,4,5) c e len
      by (cases "found_solution s'") (auto simp: iteration_ok_def get_num_flips_def rgen_get_seed_def rgen_new_def)
  qed
  show thesis
  proof (rule that [OF st(2,7,8), of ?cache1])
    show "carried_over env opt F it b cache ?loop"
      unfolding carried_over_def using res eq by auto
  qed (use st(9) in simp)
qed

lemma option_function_pos:
  "0 < opt_eps opt \<Longrightarrow> \<forall>k. 0 \<le> k \<and> k \<le> N \<longrightarrow> p_less double_ops (p_zero double_ops) (option_function opt k)"
  using polynomial_pos [of "\<lparr> poly_eps = opt_eps opt, poly_cb = opt_cb opt \<rparr>"] by (simp add: option_function_def)

lemma iteration_returns:
  assumes F: "formula_ok F" and b: "bf_wf b" "bf_length b = num_variables F"
    and cache: "cache_ok double_ops (option_function opt) M (fst cache)"
    and ops: "pe_ops env = double_ops" and eps: "0 < opt_eps opt"
    and r: "probsat_iteration env opt F it b cache = Some r"
  shows "\<exists>n \<sigma> i. r = Inr i \<and> iteration_ok opt F it n \<sigma> i"
proof -
  from iteration_end [OF F b cache ops eps, of it]
  obtain solver cache1 g where st: "rgen_wf g" "instance_inv F True solver" "num_flips_done solver = 0"
    "cache_ok double_ops (option_function opt) (max_num_breaks_possible F) (fst cache1)"
    "carried_over env opt F it b cache (loop_of opt F solver cache1 g)"
    by blast
  let ?loop = "loop_of opt F solver cache1 g"
  obtain lr where lr: "?loop = Some lr" using st(5) r by (cases ?loop) (auto simp: carried_over_def)
  from ps.solve_loop_result [OF lr [unfolded loop_of_def] F option_function_pos [OF eps] st(2,4,1)]
  obtain s' cache' g' where "lr = Inr (s', cache', g')" "instance_inv F True s'"
    "cache_ok double_ops (option_function opt) (max_num_breaks_possible F) (fst cache')"
    "found_solution s' \<or> reached (opt_max_flips opt) (num_flips_done s')" by blast
  then obtain i where "probsat_iteration env opt F it b cache = Some (Inr i)"
    "iteration_ok opt F it (num_flips_done s') (bf_abs (belegung s')) i"
    using st(5) unfolding lr carried_over_def by blast
  then show ?thesis using r by auto
qed

lemma iteration_ends:
  assumes F: "formula_ok F" and b: "bf_wf b" "bf_length b = num_variables F"
    and cache: "cache_ok double_ops (option_function opt) M (fst cache)"
    and ops: "pe_ops env = double_ops" and eps: "0 < opt_eps opt"
    and bound: "0 < opt_max_flips opt" "opt_max_flips opt < 2 ^ 64"
  shows "\<exists>i. probsat_iteration env opt F it b cache = Some i"
proof -
  from iteration_end [OF F b cache ops eps, of it]
  obtain solver cache1 g where st: "rgen_wf g" "instance_inv F True solver" "num_flips_done solver = 0"
    "cache_ok double_ops (option_function opt) (max_num_breaks_possible F) (fst cache1)"
    "carried_over env opt F it b cache (loop_of opt F solver cache1 g)"
    by blast
  have "reached (opt_max_flips opt) (opt_max_flips opt)" using bound by (simp add: reached_def)
  from ps.solve_loop_ends [where stop = "reached (opt_max_flips opt)" and M = "opt_max_flips opt",
      OF F option_function_pos [OF eps] this bound(2) st(2,4,1)] st(3) bound(1)
  obtain s' cache' g' where
    "loop_of opt F solver cache1 g = Some (Inr (s', cache', g'))" "instance_inv F True s'"
    "cache_ok double_ops (option_function opt) (max_num_breaks_possible F) (fst cache')"
    "found_solution s' \<or> reached (opt_max_flips opt) (num_flips_done s')" unfolding loop_of_def by auto
  then show ?thesis using st(5) unfolding carried_over_def by blast
qed

section \<open>All iterations\<close>

definition failures :: "line list \<Rightarrow> nat" where
  "failures out = length (filter (\<lambda>l. case l of No_solution n \<Rightarrow> True | _ \<Rightarrow> False) out)"

definition satisfiable :: "cnf_formula \<Rightarrow> bool" where
  "satisfiable F \<longleftrightarrow> (\<exists>\<sigma>. length \<sigma> = nat (num_variables F) \<and> satisfies \<sigma> (clauses F))"

lemma option_function_seed [simp]: "option_function (opt\<lparr> opt_seed := s \<rparr>) = option_function opt"
  by (simp add: option_function_def)

lemma iteration_lines:
  assumes "iteration_ok opt F it n \<sigma> i"
  shows "Satisfiable \<in> set (it_lines i) \<longleftrightarrow> it_found i" "it_found i \<longrightarrow> satisfiable F"
    "\<not> it_found i \<longrightarrow> failures (it_lines i) = 1"
  using assms by (auto simp: iteration_ok_def satisfiable_def failures_def)

lemma iterations_return:
  assumes F: "formula_ok F" and b: "bf_wf b" "bf_length b = num_variables F"
    and cache: "cache_ok double_ops (option_function opt) M (fst cache)"
    and ops: "pe_ops env = double_ops" and eps: "0 < opt_eps opt"
    and r: "probsat_iterations env F it n opt b cache out = Some r"
  shows "\<exists>new. r = Inr (out @ new) \<and> (Satisfiable \<in> set new \<longrightarrow> satisfiable F) \<and>
    (Satisfiable \<notin> set new \<longrightarrow> failures new = n)"
  using b cache eps r
proof (induction n arbitrary: it opt b cache M out)
  case 0
  then show ?case by (intro exI [of _ "[]"]) (simp add: failures_def)
next
  case (Suc n)
  obtain ri where ri: "probsat_iteration env opt F it b cache = Some ri"
    using Suc.prems(5) by (cases "probsat_iteration env opt F it b cache") auto
  obtain m \<sigma> i where i: "ri = Inr i" "iteration_ok opt F it m \<sigma> i"
    using iteration_returns [OF F Suc.prems(1-3) ops Suc.prems(4) ri] by blast
  note lines = iteration_lines [OF i(2)]
  show ?case
  proof (cases "it_found i")
    case True
    then show ?thesis using Suc.prems(5) ri i(1) lines by auto
  next
    case False
    have st: "bf_wf (it_belegung i)" "bf_length (it_belegung i) = num_variables F"
      "cache_ok double_ops (option_function (opt\<lparr> opt_seed := pe_device env it \<rparr>)) (max_num_breaks_possible F) (fst (it_cache i))"
      using i(2) by (simp_all add: iteration_ok_def)
    have "probsat_iterations env F (it + 1) n (opt\<lparr> opt_seed := pe_device env it \<rparr>) (it_belegung i) (it_cache i)
        (out @ it_lines i) = Some r" using Suc.prems(5) ri i(1) False by simp
    from Suc.IH [OF st _ this] Suc.prems(4) obtain new where
      "r = Inr ((out @ it_lines i) @ new)" "Satisfiable \<in> set new \<longrightarrow> satisfiable F"
      "Satisfiable \<notin> set new \<longrightarrow> failures new = n" by auto
    then show ?thesis using lines False
      by (intro exI [of _ "it_lines i @ new"]) (auto simp: failures_def)
  qed
qed

lemma iterations_end:
  assumes F: "formula_ok F" and b: "bf_wf b" "bf_length b = num_variables F"
    and cache: "cache_ok double_ops (option_function opt) M (fst cache)"
    and ops: "pe_ops env = double_ops" and eps: "0 < opt_eps opt"
    and bound: "0 < opt_max_flips opt" "opt_max_flips opt < 2 ^ 64"
  shows "\<exists>r. probsat_iterations env F it n opt b cache out = Some r"
  using b cache eps bound
proof (induction n arbitrary: it opt b cache M out)
  case (Suc n)
  obtain ri where ri: "probsat_iteration env opt F it b cache = Some ri"
    using iteration_ends [OF F Suc.prems(1-3) ops Suc.prems(4-6)] by blast
  obtain m \<sigma> i where i: "ri = Inr i" "iteration_ok opt F it m \<sigma> i"
    using iteration_returns [OF F Suc.prems(1-3) ops Suc.prems(4) ri] by blast
  have st: "bf_wf (it_belegung i)" "bf_length (it_belegung i) = num_variables F"
    "cache_ok double_ops (option_function (opt\<lparr> opt_seed := pe_device env it \<rparr>)) (max_num_breaks_possible F) (fst (it_cache i))"
    using i(2) by (simp_all add: iteration_ok_def)
  show ?case
    using Suc.IH [OF st, of "it + 1" "out @ it_lines i"] Suc.prems(4-6) ri i(1) by (cases "it_found i") auto
qed simp

end
