(* ===== verification/Probsat_Properties.thy ===== *)
theory Probsat_Properties
  imports Probsat_Correct
begin

text \<open>
  The theorems about the sequential program as a whole, from the command line and the file to
  the lines it prints.
\<close>

section \<open>Command line and file\<close>

definition command_line :: "'p param_setting list \<Rightarrow> string \<Rightarrow> string list" where
  "command_line settings fname = ''./probsat'' # concat (map show_setting settings) @ [fname]"

definition options_of :: "'p probsat_env \<Rightarrow> 'p param_setting list \<Rightarrow> 'p options" where
  "options_of env settings = foldl (\<lambda>opt x. apply_setting x opt)
     (options_default (pe_device env 0) (pe_eps env) (pe_cb env)) settings"

definition well_formed :: "'p probsat_env \<Rightarrow> 'p param_setting list \<Rightarrow> string \<Rightarrow> bool" where
  "well_formed env settings fname \<longleftrightarrow> (\<forall>x \<in> set settings. setting_ok (pe_read_prec env) x) \<and>
     param_parse_registry (pe_read_prec env) fname = None"

lemma parse_settings:
  assumes "\<forall>x \<in> set settings. setting_ok rd x" "param_parse_registry rd fname = None"
  shows "parse_params rd opt (concat (map show_setting settings) @ [fname]) =
    Inr (1, foldl (\<lambda>opt x. apply_setting x opt) opt settings)"
  using assms(1)
proof (induction settings arbitrary: opt)
  case (Cons x settings)
  then show ?case using parse_setting [of rd x opt] by simp
qed (simp add: parse_params.simps assms(2))

lemma main_solves_file:
  assumes "well_formed env settings fname"
  shows "probsat_main env (command_line settings fname) =
    map_option after_try (solve_file env (options_of env settings) fname)"
  using assms parse_settings [of settings "pe_read_prec env" fname]
  by (simp add: probsat_main_def command_line_def well_formed_def options_of_def)

lemma max_flips_bounded:
  assumes "\<forall>x \<in> set settings. setting_ok rd x" "opt_max_flips opt < 2 ^ 64"
  shows "opt_max_flips (foldl (\<lambda>opt x. apply_setting x opt) opt settings) < 2 ^ 64"
  using assms
proof (induction settings arbitrary: opt)
  case (Cons x settings)
  then show ?case by (cases x) auto
qed simp

text \<open>Formulas within the limits of the integer types, as they are printed to a file.\<close>

definition within_limits :: "int \<Rightarrow> clause list \<Rightarrow> bool" where
  "within_limits nv cls \<longleftrightarrow> clean_clauses nv cls \<and> 1 \<le> nv \<and> nv + 7 < 2 ^ 31 \<and> 1 \<le> length cls \<and>
     int (length cls) < 2 ^ 31 - 1 \<and> (\<forall>l. lit_count cls l < 2 ^ 15) \<and> bucket_offset cls (nat nv) < 2 ^ 31"

lemma solve_file_printed:
  assumes "within_limits nv cls" "pe_files env fname = Some (dimacs nv cls)"
  obtains F b where "formula_ok F" "num_variables F = nv" "clauses F = cls" "bf_wf b" "bf_length b = num_variables F"
    "solve_file env opt fname = probsat_iterations env F 1 (opt_num_iterations opt) opt b ([], pe_locks env)
       [Processing fname, Num_vars nv, Num_clauses (num_clauses F)]"
proof -
  obtain F where F: "initialize_formula (Some (dimacs nv cls)) formula_new = Some (Inr F)" "formula_ok F"
    "num_variables F = nv" "clauses F = cls"
    using initialize_formula_printed [of nv cls] assms(1) unfolding within_limits_def by blast
  obtain b where b: "bf_new (pe_junk env) nv = Some b" "bf_wf b" "bf_length b = nv"
  proof -
    have "0 \<le> nv" "nv + 7 < 2 ^ 31" using assms(1) by (simp_all add: within_limits_def)
    from bf_new_eq [OF this, of "pe_junk env"] that show thesis by blast
  qed
  show thesis
    by (rule that [of F b]) (use F b assms(2) in \<open>simp_all add: solve_file_def\<close>)
qed

lemma empty_cache: "cache_ok double_ops f (- 1) (fst ([], locks))"
  by (simp add: cache_ok_def double_ops_def)


definition example_probsat :: "string option \<Rightarrow> real probsat_env" where
  "example_probsat content = \<lparr> pe_ops = double_ops, pe_files = (\<lambda>_. content), pe_device = (\<lambda>n. 42 + n),
     pe_mem = (\<lambda>_. 0), pe_junk = (\<lambda>_. 0), pe_locks = (\<lambda>_. True), pe_read_prec = (\<lambda>_. None),
     pe_eps = 9 / 10, pe_cb = 206 / 100 \<rparr>"

definition example_settings :: "real param_setting list" where
  "example_settings = [Set_max_flips 100, Set_print False]"

lemma example_probsat_facts:
  "well_formed (example_probsat c) example_settings ''f.cnf''"
  "pe_files (example_probsat c) fname = c" "pe_ops (example_probsat c) = double_ops"
  "opt_eps (options_of (example_probsat c) example_settings) = 9 / 10"
  "opt_max_flips (options_of (example_probsat c) example_settings) = 100"
  by (simp_all add: well_formed_def example_probsat_def example_settings_def options_of_def options_default_def param_parse_registry_def)






end
