(* ===== verification/Messages.thy ===== *)
theory Messages
  imports Prelude Prob_Functions
begin

text \<open>
  The data the three processes exchange (\<open>communication/cmd/ws_typedefs.hpp\<close>), the
  calls of the serialization library each of them makes, and the checks of
  \<open>communication/common.hpp\<close> and \<open>cmd/req_max_transfer_size.hpp\<close> on what arrives.
  Seconds and rates are values of an arithmetic \<open>'p\<close> (\<open>double\<close> in the program). The byte
  encoding belongs to the serialization library: a received message is the number of its
  bytes and what the library makes of them, and the number of bytes a message takes is an
  argument.
\<close>

type_synonym u32 = "32 word"
type_synonym u64 = "64 word"

section \<open>Records\<close>

record problem_instance_metadata =
  anzahl_startbelegungen :: u32
  anzahl_flips :: u32
  filename :: string

record 'p done_processing_info =
  dp_task_id :: u32
  dp_instances_processed :: u32
  dp_num_flips_done :: u64
  dp_flips_per_second :: 'p
  dp_init_duration :: u64
  dp_solve_duration :: u64
  dp_overall_duration :: u64
  dp_seed :: u64
  dp_num_vars :: u64
  dp_num_clauses :: u64
  dp_solved :: bool

record 'p problem_instance_statistics =
  num_instances_started :: u64
  total_num_flips :: u64
  avg_flips_per_second :: 'p
  total_init_duration :: u64
  total_solve_duration :: u64
  total_overall_duration :: u64
  stat_num_vars :: u64
  stat_num_clauses :: u64
  times_solved :: u64
  min_flips_to_solve :: u64

record job =
  job_metadata :: problem_instance_metadata
  num_instances_to_start :: u32
  job_task_id :: u32

record solution_info =
  si_seed :: u64
  si_num_flips_done :: u64
  si_solve_duration :: u64
  si_num_vars :: u64
  si_num_clauses :: u64
  si_filename :: string

definition done_processing_info_default :: "'p prec_ops \<Rightarrow> 'p done_processing_info" where
  "done_processing_info_default ops = \<lparr> dp_task_id = 0, dp_instances_processed = 0,
     dp_num_flips_done = 0, dp_flips_per_second = p_of_int ops 0, dp_init_duration = 0,
     dp_solve_duration = 0, dp_overall_duration = 0, dp_seed = 0, dp_num_vars = 0,
     dp_num_clauses = 0, dp_solved = False \<rparr>"

definition statistics_default :: "'p prec_ops \<Rightarrow> 'p problem_instance_statistics" where
  "statistics_default ops = \<lparr> num_instances_started = 0, total_num_flips = 0,
     avg_flips_per_second = p_of_int ops 0, total_init_duration = 0, total_solve_duration = 0,
     total_overall_duration = 0, stat_num_vars = 0, stat_num_clauses = 0, times_solved = 0,
     min_flips_to_solve = - 1 \<rparr>"

section \<open>Serialization\<close>

definition default_max_cmd_length :: nat where "default_max_cmd_length = 1024"
definition absolute_max_cmd_length :: nat where "absolute_max_cmd_length = 65536"

text \<open>The calls a \<open>serialize\<close> template makes on the serializer, in their order.\<close>

datatype 'p field =
    Value1b bool
  | Value4b u32
  | Value8b u64
  | Value8b_double 'p
  | Text1b string nat
  | Container nat nat

fun field_fits :: "'p field \<Rightarrow> bool" where
  "field_fits (Text1b t m) = (length t \<le> m)"
| "field_fits (Container n m) = (n \<le> m)"
| "field_fits _ = True"

definition serialize_metadata :: "problem_instance_metadata \<Rightarrow> 'p field list" where
  "serialize_metadata ob = [Value4b (anzahl_startbelegungen ob), Value4b (anzahl_flips ob),
     Text1b (filename ob) (absolute_max_cmd_length - 8)]"

definition serialize_done_processing_info :: "'p done_processing_info \<Rightarrow> 'p field list" where
  "serialize_done_processing_info ob = [Value4b (dp_task_id ob), Value4b (dp_instances_processed ob),
     Value8b (dp_num_flips_done ob), Value8b_double (dp_flips_per_second ob),
     Value8b (dp_init_duration ob), Value8b (dp_solve_duration ob), Value8b (dp_overall_duration ob),
     Value8b (dp_seed ob), Value8b (dp_num_vars ob), Value8b (dp_num_clauses ob),
     Value1b (dp_solved ob)]"

definition serialize_statistics :: "'p problem_instance_statistics \<Rightarrow> 'p field list" where
  "serialize_statistics ob = [Value8b (num_instances_started ob), Value8b (total_num_flips ob),
     Value8b_double (avg_flips_per_second ob), Value8b (total_init_duration ob),
     Value8b (total_solve_duration ob), Value8b (total_overall_duration ob),
     Value8b (stat_num_vars ob), Value8b (stat_num_clauses ob), Value8b (times_solved ob),
     Value8b (min_flips_to_solve ob)]"

definition serialize_job :: "job \<Rightarrow> 'p field list" where
  "serialize_job ob = serialize_metadata (job_metadata ob) @
     [Value4b (num_instances_to_start ob), Value4b (job_task_id ob)]"

definition serialize_jobs :: "job list \<Rightarrow> 'p field list" where
  "serialize_jobs ob = Container (length ob) absolute_max_cmd_length # concat (map serialize_job ob)"

definition serialize_solution_info :: "solution_info \<Rightarrow> 'p field list" where
  "serialize_solution_info ob = [Value8b (si_seed ob), Value8b (si_num_flips_done ob),
     Value8b (si_solve_duration ob), Value8b (si_num_vars ob), Value8b (si_num_clauses ob),
     Text1b (si_filename ob) (absolute_max_cmd_length - 16)]"

definition serialize_report_entry ::
    "problem_instance_metadata \<Rightarrow> 'p problem_instance_statistics \<Rightarrow> 'p field list" where
  "serialize_report_entry m s = serialize_metadata m @ serialize_statistics s"

text \<open>
  Read by a deserializer the same templates fill their fields from the values in turn.
\<close>

fun deserialize_metadata :: "'p field list \<Rightarrow> (problem_instance_metadata \<times> 'p field list) option" where
  "deserialize_metadata (Value4b a # Value4b b # Text1b t m # xs) =
     (if m = absolute_max_cmd_length - 8 \<and> length t \<le> m
      then Some (\<lparr> anzahl_startbelegungen = a, anzahl_flips = b, filename = t \<rparr>, xs) else None)"
| "deserialize_metadata _ = None"

fun deserialize_job :: "'p field list \<Rightarrow> (job \<times> 'p field list) option" where
  "deserialize_job xs = (case deserialize_metadata xs of
     Some (m, Value4b n # Value4b t # ys) \<Rightarrow>
       Some (\<lparr> job_metadata = m, num_instances_to_start = n, job_task_id = t \<rparr>, ys)
   | _ \<Rightarrow> None)"

fun deserialize_items :: "nat \<Rightarrow> 'p field list \<Rightarrow> (job list \<times> 'p field list) option" where
  "deserialize_items 0 xs = Some ([], xs)"
| "deserialize_items (Suc n) xs = (case deserialize_job xs of
     Some (j, ys) \<Rightarrow> map_option (\<lambda>(js, zs). (j # js, zs)) (deserialize_items n ys)
   | None \<Rightarrow> None)"

fun deserialize_jobs :: "'p field list \<Rightarrow> (job list \<times> 'p field list) option" where
  "deserialize_jobs (Container n m # xs) =
     (if m = absolute_max_cmd_length \<and> n \<le> m then deserialize_items n xs else None)"
| "deserialize_jobs _ = None"

lemma deserialize_metadata_serialize:
  "list_all field_fits (serialize_metadata m :: 'p field list) \<Longrightarrow>
   deserialize_metadata (serialize_metadata m @ (xs :: 'p field list)) = Some (m, xs)"
  by (simp add: serialize_metadata_def)

lemma deserialize_job_serialize:
  "list_all field_fits (serialize_job j :: 'p field list) \<Longrightarrow>
   deserialize_job (serialize_job j @ (xs :: 'p field list)) = Some (j, xs)"
  by (simp add: serialize_job_def serialize_metadata_def)

lemma deserialize_items_serialize:
  "list_all field_fits (concat (map serialize_job js) :: 'p field list) \<Longrightarrow>
   deserialize_items (length js) (concat (map serialize_job js) @ (xs :: 'p field list)) = Some (js, xs)"
  by (induction js) (simp_all add: deserialize_job_serialize del: deserialize_job.simps)



section \<open>Checks on what arrives\<close>

text \<open>A received message: the number of its bytes, and its content if the bytes decode.\<close>

type_synonym 'a packet = "int \<times> 'a option"

definition get_count_recieved_safe :: "string \<Rightarrow> int \<Rightarrow> string \<Rightarrow> int \<Rightarrow> nat \<Rightarrow> int result" where
  "get_count_recieved_safe msg_header count cmd mn mx =
     (if mn > count \<or> nat count > mx
      then Inl (Runtime_error (msg_header @ ''command '' @ cmd @ '' recieved invalid amount of data''))
      else Inr count)"

definition get_bytes_recieved_safe :: "string \<Rightarrow> int \<Rightarrow> string \<Rightarrow> int \<Rightarrow> nat \<Rightarrow> int result" where
  "get_bytes_recieved_safe msg_header count cmd mn mx =
     get_count_recieved_safe msg_header count cmd mn mx"

definition safe_deserialization :: "string \<Rightarrow> 'a option \<Rightarrow> string \<Rightarrow> 'a result" where
  "safe_deserialization msg_header object cmd = (case object of
     None \<Rightarrow> Inl (Runtime_error (msg_header @ cmd @ '' command: deserialization failed''))
   | Some x \<Rightarrow> Inr x)"

text \<open>The default limit of the number of bytes, \<open>std::numeric_limits<int>::max()\<close>.\<close>

definition int_max :: nat where "int_max = 2147483647"

definition received :: "string \<Rightarrow> string \<Rightarrow> int \<Rightarrow> nat \<Rightarrow> 'a packet \<Rightarrow> 'a result" where
  "received msg_header cmd mn mx p =
     rbind (get_bytes_recieved_safe msg_header (fst p) cmd mn mx) (\<lambda>_.
     safe_deserialization msg_header (snd p) cmd)"

lemma received_Inr:
  "received h cmd mn mx p = Inr x \<longleftrightarrow> mn \<le> fst p \<and> nat (fst p) \<le> mx \<and> snd p = Some x"
  by (auto simp: received_def get_bytes_recieved_safe_def get_count_recieved_safe_def
      safe_deserialization_def split: option.splits)

text \<open>
  A request to enlarge a buffer: the check of the requested size, and the capacity after
  the \<open>reserve\<close>.
\<close>

definition req_max_transfer_size_process :: "string \<Rightarrow> int packet \<Rightarrow> nat \<Rightarrow> nat result" where
  "req_max_transfer_size_process msg_header p cap =
     rbind (received msg_header ''REQ_MAX_CMD_LENGTH'' 1 int_max p) (\<lambda>req_bufsize.
     if 0 \<ge> req_bufsize \<or> nat req_bufsize > absolute_max_cmd_length
     then Inl (Runtime_error (msg_header @
       ''fatal error processing command REQ_MAX_CMD_LENGTH: requested buffer size is invalid''))
     else Inr (max cap (nat req_bufsize)))"

text \<open>
  The sending side: nothing is sent unless more than the default is asked for. The result is
  the size to announce, if any.
\<close>

definition req_max_transfer_size_send :: "nat \<Rightarrow> nat option result" where
  "req_max_transfer_size_send requested_size =
     rbind (require (requested_size \<le> absolute_max_cmd_length) Assertion_failed) (\<lambda>_.
     Inr (if requested_size > default_max_cmd_length then Some requested_size else None))"

text \<open>
  \<open>ensure_cmd_length\<close>: announce a size that was not announced before; the new announced
  size, and the request to send.
\<close>

definition ensure_length :: "nat \<Rightarrow> nat \<Rightarrow> (nat \<times> nat option) result" where
  "ensure_length len announced =
     (if len > announced
      then rbind (req_max_transfer_size_send len) (\<lambda>r. Inr (len, r))
      else Inr (announced, None))"

lemma ensure_length_Inr:
  "ensure_length len announced = Inr (a, r) \<Longrightarrow> a = max announced len"
  "ensure_length len announced = Inr (a, r) \<Longrightarrow> default_max_cmd_length \<le> announced \<Longrightarrow>
     r = (if len > announced then Some len else None)"
  by (auto simp: ensure_length_def req_max_transfer_size_send_def rbind_Inr_iff require_def split: if_splits)

text \<open>
  Every size a process announces with \<open>ensure_cmd_length\<close> is accepted by the process
  that receives it, whose buffer then holds the message that follows; a message longer than
  65536 bytes fails the assertion of the sender.
\<close>

theorem announced_size_accepted:
  assumes "default_max_cmd_length \<le> announced" "announced \<le> cap" "1 \<le> bytes" "bytes \<le> int int_max"
  shows "if len \<le> announced then ensure_length len announced = Inr (announced, None)
    else if len \<le> absolute_max_cmd_length
      then ensure_length len announced = Inr (len, Some len) \<and>
        req_max_transfer_size_process h (bytes, Some (int len)) cap = Inr (max cap len)
      else ensure_length len announced = Inl Assertion_failed"
proof -
  have "received h ''REQ_MAX_CMD_LENGTH'' 1 int_max (bytes, Some (int len)) = Inr (int len)"
    using assms by (simp add: received_Inr)
  then show ?thesis using assms
    by (auto simp: ensure_length_def req_max_transfer_size_send_def req_max_transfer_size_process_def
        require_def default_max_cmd_length_def)
qed

theorem announced_size_accepted_witness:
  "ensure_length 2000 1024 = Inr (2000, Some 2000) \<and>
   req_max_transfer_size_process ''server: '' (4, Some (int 2000)) 1024 = Inr (max 1024 2000)"
  using announced_size_accepted [of 1024 1024 4 2000 "''server: ''"]
  by (simp add: default_max_cmd_length_def absolute_max_cmd_length_def int_max_def)

end
