(* ===== verification/Manager.thy ===== *)
theory Manager
  imports Messages Strings
begin

text \<open>
  The manager (\<open>communication/manager.hpp\<close>, \<open>manager.cpp\<close>): the command line that starts
  the server and the workers, passes formula files on, and collects the statistics. The
  messages the server will send are a queue in the state, taken in their order; the text of
  the standard input is a stream. What is written to the standard output and to the output
  file is a list of lines whose numbers are values; the error output is left out. A result
  \<open>None\<close> means that a call does not return.
\<close>

section \<open>State\<close>

datatype manager_message =
    To_server_req_max nat
  | Add_workers int
  | Add_file problem_instance_metadata
  | Terminate
  | Spawn_workers int "string list"

datatype 'p s2m =
    S2M_REQ_MAX_CMD_LENGTH "int packet"
  | S2M_FOUND_SOLUTION "solution_info packet"
  | S2M_SEND_STATISTICS "(problem_instance_metadata \<times> 'p problem_instance_statistics) packet"
  | S2M_DISCONNECT
  | S2M_other int

datatype 'p shown = Shown_text string | Shown_nat nat | Shown_real 'p

record 'p complete_statistic =
  cs_num_instances_started :: u64
  cs_total_num_flips :: u64
  cs_avg_flips_per_second :: 'p
  cs_avg_flips_per_var :: 'p
  cs_avg_flips_per_clause :: 'p
  cs_total_init_duration :: 'p
  cs_total_solve_duration :: 'p
  cs_total_overall_duration :: 'p
  cs_num_instances_solved :: u64
  cs_min_flips_to_solve :: u64

text \<open>
  Arguments: the arithmetic of \<open>double\<close> with \<open>std::round\<close>, the bytes of an encoded message and
  the capacity of the buffer after encoding, the communicator of the \<open>k\<close>-th spawn, the memory
  of a local array, and the text and kind of the standard input.
\<close>

record 'p manager_env =
  me_arith :: "'p prec_ops"
  me_round :: "'p \<Rightarrow> 'p"
  me_length :: "'p field list \<Rightarrow> nat"
  me_grown :: "nat \<Rightarrow> nat \<Rightarrow> nat"
  me_spawn :: "nat \<Rightarrow> nat"
  me_memory :: "nat \<Rightarrow> char"
  me_input :: string
  me_seekable :: bool

record 'p manager =
  mg_running :: bool
  mg_solution_found :: bool
  mg_statistic :: "'p complete_statistic"
  mg_workers :: "nat list"
  mg_server_name :: string
  mg_capacity :: nat
  mg_server_max_cmd_length :: nat
  mg_default_cmds :: "string list"
  mg_cin :: istream
  mg_once :: bool
  mg_output_to_file :: bool
  mg_inbox :: "'p s2m list"
  mg_sent :: "manager_message list"
  mg_stdout :: "'p shown list list"
  mg_file :: "'p shown list list"

type_synonym 'p manager_outcome = "(cpp_error \<times> 'p manager) + 'p manager"

abbreviation manager_header :: string where "manager_header \<equiv> ''manager: ''"

definition complete_statistic_init :: "'p prec_ops \<Rightarrow> 'p complete_statistic" where
  "complete_statistic_init ops = \<lparr> cs_num_instances_started = 0, cs_total_num_flips = 0,
     cs_avg_flips_per_second = p_zero ops, cs_avg_flips_per_var = p_zero ops,
     cs_avg_flips_per_clause = p_zero ops, cs_total_init_duration = p_zero ops,
     cs_total_solve_duration = p_zero ops, cs_total_overall_duration = p_zero ops,
     cs_num_instances_solved = 0, cs_min_flips_to_solve = - 1 \<rparr>"

section \<open>Messages to the server\<close>

definition mg_emit :: "manager_message list \<Rightarrow> 'p manager \<Rightarrow> 'p manager" where
  "mg_emit ms m = m\<lparr> mg_sent := mg_sent m @ ms \<rparr>"

definition do_add_file :: "'p manager_env \<Rightarrow> u32 \<Rightarrow> u32 \<Rightarrow> string \<Rightarrow> 'p manager \<Rightarrow> 'p manager_outcome" where
  "do_add_file env startbelegungen flips name m =
     (let data = \<lparr> anzahl_startbelegungen = startbelegungen, anzahl_flips = flips, filename = name \<rparr>;
          data_len = me_length env (serialize_metadata data);
          m1 = m\<lparr> mg_capacity := me_grown env (mg_capacity m) data_len \<rparr>
      in rbind (thrown m1 (ensure_length data_len (mg_server_max_cmd_length m1))) (\<lambda>(announced, req).
      Inr (mg_emit ((case req of None \<Rightarrow> [] | Some n \<Rightarrow> [To_server_req_max n]) @ [Add_file data])
        (m1\<lparr> mg_server_max_cmd_length := announced \<rparr>))))"

definition do_exit :: "'p manager \<Rightarrow> 'p manager" where
  "do_exit m = mg_emit [Terminate] m"

text \<open>
  The argument vector of the workers: one buffer that holds the arguments, each ended by a
  zero, and the positions they start at. \<open>strcpy\<close> copies up to the first zero; a position
  behind the buffer is undefined behaviour. \<open>MPI_Comm_spawn\<close> reads the vector back.
\<close>

abbreviation nul :: char where "nul \<equiv> CHR 0x00"

definition c_str :: "string \<Rightarrow> string" where
  "c_str s = takeWhile (\<lambda>c. c \<noteq> nul) s"

definition strcpy :: "nat \<Rightarrow> string \<Rightarrow> char list \<Rightarrow> char list option" where
  "strcpy pos src buf =
     (let bytes = c_str src @ [nul] in
      if pos + length bytes \<le> length buf
      then Some (take pos buf @ bytes @ drop (pos + length bytes) buf) else None)"

fun fill_arguments :: "string list \<Rightarrow> nat \<Rightarrow> char list \<Rightarrow> nat list \<Rightarrow> (char list \<times> nat list) option" where
  "fill_arguments [] offset buf argv = Some (buf, argv)"
| "fill_arguments (arg # args) offset buf argv = do {
     buf1 \<leftarrow> strcpy offset arg buf;
     buf2 \<leftarrow> vset buf1 (int (offset + length arg)) nul;
     fill_arguments args (offset + length arg + 1) buf2 (argv @ [offset]) }"

definition read_argument :: "char list \<Rightarrow> nat \<Rightarrow> string" where
  "read_argument buf p = takeWhile (\<lambda>c. c \<noteq> nul) (drop p buf)"

definition argument_vector :: "(nat \<Rightarrow> char) \<Rightarrow> string list \<Rightarrow> string list option" where
  "argument_vector memory args = do {
     let len = sum_list (map (\<lambda>arg. length arg + 1) args);
     (buf, argv) \<leftarrow> fill_arguments args 0 (map memory [0..<len]) [];
     Some (map (read_argument buf) argv) }"

definition do_add_workers ::
    "'p manager_env \<Rightarrow> int \<Rightarrow> string list \<Rightarrow> 'p manager \<Rightarrow> (nat option \<times> 'p manager) result" where
  "do_add_workers env num_workers worker_argv m =
     (if 0 \<ge> num_workers then Inr (None, m)
      else rbind (defined (argument_vector (me_memory env) worker_argv)) (\<lambda>argv.
        Inr (Some (me_spawn env (length (mg_workers m))),
          mg_emit [Add_workers num_workers, Spawn_workers num_workers argv] m)))"

section \<open>What the server sends\<close>

definition outp_stat :: "'p shown list \<Rightarrow> 'p manager \<Rightarrow> 'p manager" where
  "outp_stat line m = m\<lparr> mg_stdout := mg_stdout m @ [Shown_text ''c '' # line],
     mg_file := (if mg_output_to_file m then mg_file m @ [line] else mg_file m) \<rparr>"

definition outp_end :: "'p manager \<Rightarrow> 'p manager" where
  "outp_end m = m\<lparr> mg_stdout := mg_stdout m @ [[]],
     mg_file := (if mg_output_to_file m then mg_file m @ [[]] else mg_file m) \<rparr>"

definition outp_stats :: "'p shown list list \<Rightarrow> 'p manager \<Rightarrow> 'p manager" where
  "outp_stats ls m = outp_end (fold outp_stat ls m)"

definition of_u64 :: "'p prec_ops \<Rightarrow> u64 \<Rightarrow> 'p" where
  "of_u64 ops n = p_of_int ops (uint n)"

definition weighted :: "'p prec_ops \<Rightarrow> 'p \<Rightarrow> u64 \<Rightarrow> 'p \<Rightarrow> u64 \<Rightarrow> u64 \<Rightarrow> 'p" where
  "weighted ops a n b k whole =
     p_div ops (p_add ops (p_mul ops a (of_u64 ops n)) (p_mul ops b (of_u64 ops k))) (of_u64 ops whole)"

definition add_to_statistic ::
    "'p prec_ops \<Rightarrow> 'p complete_statistic \<Rightarrow> 'p problem_instance_statistics \<Rightarrow> 'p complete_statistic" where
  "add_to_statistic ops s stat =
     (let flips = of_u64 ops (total_num_flips stat);
          avg_flips_per_variable = p_div ops flips (of_u64 ops (stat_num_vars stat));
          avg_flips_per_clause = p_div ops flips (of_u64 ops (stat_num_clauses stat));
          n = cs_num_instances_started s; k = num_instances_started stat; inst_started = n + k;
          ms = (\<lambda>t. p_div ops (of_u64 ops t) (p_of_int ops 1000))
      in s\<lparr> cs_avg_flips_per_second := weighted ops (cs_avg_flips_per_second s) n (avg_flips_per_second stat) k inst_started,
            cs_avg_flips_per_var := weighted ops (cs_avg_flips_per_var s) n avg_flips_per_variable k inst_started,
            cs_avg_flips_per_clause := weighted ops (cs_avg_flips_per_clause s) n avg_flips_per_clause k inst_started,
            cs_num_instances_started := inst_started,
            cs_total_num_flips := cs_total_num_flips s + total_num_flips stat,
            cs_total_init_duration := p_add ops (cs_total_init_duration s) (ms (total_init_duration stat)),
            cs_total_solve_duration := p_add ops (cs_total_solve_duration s) (ms (total_solve_duration stat)),
            cs_total_overall_duration := p_add ops (cs_total_overall_duration s) (ms (total_overall_duration stat)),
            cs_num_instances_solved := cs_num_instances_solved s + times_solved stat \<rparr>)"

text \<open>The product of the last but one operand of the flips line has 32 bits.\<close>

definition statistic_lines ::
    "'p prec_ops \<Rightarrow> problem_instance_metadata \<Rightarrow> 'p problem_instance_statistics \<Rightarrow> 'p shown list list" where
  "statistic_lines ops mdat stat =
     (let flips = of_u64 ops (total_num_flips stat);
          prod_flips_startbelegungen = anzahl_flips mdat * anzahl_startbelegungen mdat
      in [[Shown_text ''filename: '', Shown_text (filename mdat)],
          [Shown_nat (unat (stat_num_vars stat)), Shown_text '' num variables''],
          [Shown_nat (unat (stat_num_clauses stat)), Shown_text '' num clauses''],
          [Shown_nat (unat (num_instances_started stat)), Shown_text '' / '',
           Shown_nat (unat (anzahl_startbelegungen mdat)), Shown_text '' startbelegungen''],
          [Shown_nat (unat (total_num_flips stat)), Shown_text '' / ('', Shown_nat (unat (anzahl_flips mdat)),
           Shown_text '' * '', Shown_nat (unat (anzahl_startbelegungen mdat)), Shown_text '' = '',
           Shown_nat (unat prod_flips_startbelegungen), Shown_text '') flips''],
          [Shown_real (avg_flips_per_second stat), Shown_text '' flips per second (avg)''],
          [Shown_real (p_div ops flips (of_u64 ops (stat_num_vars stat))), Shown_text '' flips per var (avg)''],
          [Shown_real (p_div ops flips (of_u64 ops (stat_num_clauses stat))), Shown_text '' flips per clause (avg)''],
          [Shown_nat (unat (total_init_duration stat)), Shown_text '' total init duration (us)''],
          [Shown_nat (unat (total_solve_duration stat)), Shown_text '' total solve duration (us)''],
          [Shown_nat (unat (total_overall_duration stat)), Shown_text '' total overall duration (us)''],
          [Shown_nat (unat (times_solved stat)), Shown_text '' times solved''],
          [Shown_nat (unat (min_flips_to_solve stat)), Shown_text '' flips until solved (min)'']])"

abbreviation (input) send_statistics_process ::
    "nat \<Rightarrow> (problem_instance_metadata \<times> 'p problem_instance_statistics) packet \<Rightarrow>
     (problem_instance_metadata \<times> 'p problem_instance_statistics) result" where
  "send_statistics_process cap p \<equiv> received manager_header ''SEND_STATISTICS'' 1 cap p"

abbreviation (input) s2m_found_solution_process :: "nat \<Rightarrow> solution_info packet \<Rightarrow> solution_info result" where
  "s2m_found_solution_process cap p \<equiv> received manager_header ''FOUND_SOLUTION'' 0 cap p"

definition process_s2m_SEND_STATISTICS ::
    "'p manager_env \<Rightarrow> (problem_instance_metadata \<times> 'p problem_instance_statistics) packet \<Rightarrow>
     'p manager \<Rightarrow> 'p manager_outcome" where
  "process_s2m_SEND_STATISTICS env p m =
     rbind (thrown m (send_statistics_process (mg_capacity m) p)) (\<lambda>(mdat, stat).
     Inr (outp_stats (statistic_lines (me_arith env) mdat stat)
       (m\<lparr> mg_statistic := add_to_statistic (me_arith env) (mg_statistic m) stat \<rparr>)))"

definition solution_lines :: "'p manager_env \<Rightarrow> solution_info \<Rightarrow> 'p shown list list" where
  "solution_lines env info =
     (let ops = me_arith env; flips = of_u64 ops (si_num_flips_done info);
          solve_duration_ms = p_div ops (of_u64 ops (si_solve_duration info)) (p_of_int ops 1000);
          fps = me_round env (p_mul ops (p_div ops flips (of_u64 ops (si_solve_duration info))) (p_of_int ops 1000000))
      in [[Shown_text ''SATISFIABLE''],
          [Shown_text ''filename: '', Shown_text (si_filename info)],
          [Shown_text ''seed: '', Shown_nat (unat (si_seed info))],
          [Shown_text ''num_flips_done: '', Shown_nat (unat (si_num_flips_done info))],
          [Shown_text ''solve_duration: '', Shown_real solve_duration_ms, Shown_text '' ms''],
          [Shown_text ''num_vars: '', Shown_nat (unat (si_num_vars info))],
          [Shown_text ''num_clauses: '', Shown_nat (unat (si_num_clauses info))],
          [Shown_text ''flips per second: '', Shown_real fps],
          [Shown_text ''flips per var: '', Shown_real (p_div ops flips (of_u64 ops (si_num_vars info)))],
          [Shown_text ''flips per clause: '', Shown_real (p_div ops flips (of_u64 ops (si_num_clauses info)))]])"

definition process_s2m_FOUND_SOLUTION ::
    "'p manager_env \<Rightarrow> solution_info packet \<Rightarrow> 'p manager \<Rightarrow> 'p manager_outcome" where
  "process_s2m_FOUND_SOLUTION env p m =
     rbind (thrown m (s2m_found_solution_process (mg_capacity m) p)) (\<lambda>info.
     let s = mg_statistic m in
     Inr (outp_stats (solution_lines env info) (m\<lparr> mg_solution_found := True,
       mg_statistic := s\<lparr> cs_min_flips_to_solve := min (cs_min_flips_to_solve s) (si_num_flips_done info) \<rparr> \<rparr>)))"

definition unknown_command :: cpp_error where
  "unknown_command = Runtime_error ''unknown command (S2M)''"

fun manager_process_server_cmd :: "'p manager_env \<Rightarrow> 'p s2m \<Rightarrow> 'p manager \<Rightarrow> 'p manager_outcome" where
  "manager_process_server_cmd env (S2M_FOUND_SOLUTION p) m = process_s2m_FOUND_SOLUTION env p m"
| "manager_process_server_cmd env (S2M_SEND_STATISTICS p) m = process_s2m_SEND_STATISTICS env p m"
| "manager_process_server_cmd env S2M_DISCONNECT m = Inr m"
| "manager_process_server_cmd env _ m = Inl (unknown_command, m)"

section \<open>Commands of the user\<close>

text \<open>\<open>std::stoi\<close>: text behind the digits is ignored; the value has to be an \<open>int\<close>.\<close>

definition stoi :: "string \<Rightarrow> int result" where
  "stoi s = (case scan_long s of None \<Rightarrow> Inl Invalid_argument
     | Some (v, _) \<Rightarrow> if - (2 ^ 31) \<le> v \<and> v < 2 ^ 31 then Inr v else Inl (Out_of_range ''stoi''))"

definition help_lines :: "'p shown list list" where
  "help_lines = map (\<lambda>s. [Shown_text s]) [''commands available:'',
     CHR 0x09 # ''help (shows this message)'',
     CHR 0x09 # ''add_workers <num_workers> [hostfile] [worker arguments ...]'',
     CHR 0x09 # CHR 0x09 # '' one may use >>use_no_hostfile<< as placeholder for the hostfile'',
     CHR 0x09 # ''add_file <anzahl_startbelegungen> <anzahl_flips> formula.cnf'',
     CHR 0x09 # ''wait_for_server'',
     CHR 0x09 # ''exit'']"

definition cmd_help :: "'p manager \<Rightarrow> 'p manager" where
  "cmd_help m = m\<lparr> mg_stdout := mg_stdout m @ help_lines \<rparr>"

definition max_simultaneous_connection_attempts :: int where
  "max_simultaneous_connection_attempts = 1"

function add_workers_loop :: "'p manager_env \<Rightarrow> string list \<Rightarrow> int \<Rightarrow> 'p manager \<Rightarrow> 'p manager_outcome" where
  "add_workers_loop env worker_argv num_workers_to_add m =
     (if 0 < num_workers_to_add
      then let nw = min max_simultaneous_connection_attempts num_workers_to_add in
        rbind (thrown m (do_add_workers env nw worker_argv m)) (\<lambda>(worker_cl, m1).
        case worker_cl of
          None \<Rightarrow> Inl (Assertion_failed, m1)
        | Some c \<Rightarrow> add_workers_loop env worker_argv (num_workers_to_add - nw) (m1\<lparr> mg_workers := mg_workers m1 @ [c] \<rparr>))
      else Inr m)"
  by pat_completeness auto
termination
  by (relation "measure (\<lambda>(env, worker_argv, n, m). nat n)") (auto simp: max_simultaneous_connection_attempts_def)

declare add_workers_loop.simps [simp del]

definition cmd_add_workers :: "'p manager_env \<Rightarrow> string list \<Rightarrow> 'p manager \<Rightarrow> 'p manager_outcome" where
  "cmd_add_workers env args m =
     (if mg_solution_found m then Inr m
      else if length args < 2
      then Inl (Runtime_error ''manager: invalid number of arguments for add_workers'', m)
      else rbind (thrown m (stoi (args ! 1))) (\<lambda>num_workers.
        add_workers_loop env (mg_server_name m # drop 3 args) num_workers m))"

definition cmd_add_file :: "'p manager_env \<Rightarrow> string list \<Rightarrow> 'p manager \<Rightarrow> 'p manager_outcome" where
  "cmd_add_file env args m =
     (if mg_solution_found m then Inr m
      else if length args \<noteq> 4
      then Inl (Runtime_error ''manager: invalid number of arguments for add_file'', m)
      else rbind (thrown m (stoi (args ! 1))) (\<lambda>startbelegungen.
        rbind (thrown m (stoi (args ! 2))) (\<lambda>flips.
        do_add_file env (of_int startbelegungen) (of_int flips) (args ! 3) m)))"

fun wait_loop :: "'p manager_env \<Rightarrow> 'p s2m list \<Rightarrow> 'p manager \<Rightarrow> 'p manager_outcome option" where
  "wait_loop env [] m = None"
| "wait_loop env (msg # msgs) m =
     (case manager_process_server_cmd env msg (m\<lparr> mg_inbox := msgs \<rparr>) of
        Inl e \<Rightarrow> Some (Inl e)
      | Inr m1 \<Rightarrow> (case msg of S2M_DISCONNECT \<Rightarrow> Some (Inr m1) | _ \<Rightarrow> wait_loop env msgs m1))"

definition stop_manager :: "'p manager \<Rightarrow> 'p manager" where
  "stop_manager m = (do_exit m)\<lparr> mg_running := False \<rparr>"

definition cmd_wait_for_server :: "'p manager_env \<Rightarrow> string list \<Rightarrow> 'p manager \<Rightarrow> 'p manager_outcome option" where
  "cmd_wait_for_server env args m =
     (if length args \<noteq> 1
      then Some (Inl (Runtime_error ''manager: invalid number of arguments for wait_for_server'', m))
      else map_option (\<lambda>r. rbind r (\<lambda>m1. Inr (stop_manager m1))) (wait_loop env (mg_inbox m) m))"

definition cmd_exit :: "'p manager \<Rightarrow> 'p manager" where
  "cmd_exit m = stop_manager m"

section \<open>The main loop\<close>

type_synonym 'p command = "'p manager_env \<Rightarrow> string list \<Rightarrow> 'p manager \<Rightarrow> 'p manager_outcome option"

definition command_registry :: "(string \<times> 'p command) list" where
  "command_registry =
     [(''help'', \<lambda>env args m. Some (Inr (cmd_help m))),
      (''add_workers'', \<lambda>env args m. Some (cmd_add_workers env args m)),
      (''add_file'', \<lambda>env args m. Some (cmd_add_file env args m)),
      (''wait_for_server'', cmd_wait_for_server),
      (''exit'', \<lambda>env args m. Some (Inr (cmd_exit m)))]"

text \<open>
  Reading a line that is not empty. The first failure clears the stream and goes back to its
  start, which works when the standard input is a file; the loop ends with a line only.
\<close>

definition cin_rewind :: "'p manager_env \<Rightarrow> istream \<Rightarrow> istream" where
  "cin_rewind env is = (if me_seekable env then istream_of (me_input env)
     else is\<lparr> is_eof := False, is_fail := True \<rparr>)"

partial_function (option) read_command :: "'p manager_env \<Rightarrow> bool \<Rightarrow> istream \<Rightarrow> string \<Rightarrow> (string \<times> bool \<times> istream) option" where
  "read_command env once is line =
     (if line \<noteq> [] then Some (line, once, is)
      else (case getline (CHR 0x0A) is line of (line1, is1) \<Rightarrow>
        if is_fail is1
        then if once then read_command env False (cin_rewind env is1) line1
             else read_command env False is1 line1
        else read_command env once is1 line1))"

definition next_line :: "'p manager_env \<Rightarrow> 'p manager \<Rightarrow> (string \<times> 'p manager) option" where
  "next_line env m = (case mg_default_cmds m of
     line # cmds \<Rightarrow> Some (line, m\<lparr> mg_default_cmds := cmds \<rparr>)
   | [] \<Rightarrow> if \<not> is_fail (mg_cin m)
       then map_option (\<lambda>(line, once, is). (line, m\<lparr> mg_once := once, mg_cin := is \<rparr>))
         (read_command env (mg_once m) (mg_cin m) [])
       else Some ([], m\<lparr> mg_default_cmds := [''exit''] \<rparr>))"

text \<open>An exception of a command is printed; the word behind an empty vector does not exist.\<close>

definition run_command :: "'p manager_env \<Rightarrow> string \<Rightarrow> 'p manager \<Rightarrow> 'p manager_outcome option" where
  "run_command env line m = (case split_words line of
     [] \<Rightarrow> Some (Inl (Undefined_behaviour, m))
   | f # fs \<Rightarrow> (case map_of command_registry f of
       None \<Rightarrow> Some (Inr m)
     | Some cmd_func \<Rightarrow> map_option (\<lambda>r. case r of
           Inl (e, m1) \<Rightarrow> if is_exception e then Inr m1 else Inl (e, m1)
         | Inr m1 \<Rightarrow> Inr m1) (cmd_func env (f # fs) m)))"

text \<open>The probe after a command: whether a message of the server has arrived.\<close>

definition probe_server :: "'p manager_env \<Rightarrow> bool \<Rightarrow> 'p manager \<Rightarrow> 'p manager_outcome" where
  "probe_server env flag m = (case mg_inbox m of
     msg # msgs \<Rightarrow>
       if flag
       then let m1 = m\<lparr> mg_inbox := msgs, mg_default_cmds := (case msg of
                S2M_FOUND_SOLUTION _ \<Rightarrow> ''wait_for_server'' # mg_default_cmds m
              | S2M_DISCONNECT \<Rightarrow> ''exit'' # mg_default_cmds m
              | _ \<Rightarrow> mg_default_cmds m) \<rparr>
         in manager_process_server_cmd env msg m1
       else Inr m
   | [] \<Rightarrow> Inr m)"

definition manager_turn :: "'p manager_env \<Rightarrow> bool \<Rightarrow> 'p manager \<Rightarrow> 'p manager_outcome option" where
  "manager_turn env flag m = do {
     (line, m1) \<leftarrow> next_line env m;
     r \<leftarrow> run_command env line m1;
     Some (rbind r (probe_server env flag)) }"

fun manager_loop :: "'p manager_env \<Rightarrow> bool list \<Rightarrow> 'p manager \<Rightarrow> 'p manager_outcome option" where
  "manager_loop env [] m = Some (Inr m)"
| "manager_loop env (flag # flags) m =
     (if \<not> mg_running m then Some (Inr m)
      else (case manager_turn env flag m of
        Some (Inr m1) \<Rightarrow> manager_loop env flags m1
      | r \<Rightarrow> r))"

text \<open>The start of \<open>main\<close> on its arguments, and the statistic after the loop.\<close>

definition manager_start :: "'p manager_env \<Rightarrow> string list \<Rightarrow> 'p s2m list \<Rightarrow> 'p manager result" where
  "manager_start env argv inbox =
     (if length argv < 2 \<or> length argv > 4
      then Inl (Runtime_error ''name for problem instance and optional an output filename (or _no_output_file) as well as mpi hostfile is required!'')
      else let output_filename = (if 3 \<le> length argv then argv ! 2 else ''statistic-output.txt'') in
        Inr \<lparr> mg_running = True, mg_solution_found = False, mg_statistic = complete_statistic_init (me_arith env),
          mg_workers = [], mg_server_name = argv ! 1, mg_capacity = default_max_cmd_length,
          mg_server_max_cmd_length = default_max_cmd_length, mg_default_cmds = [],
          mg_cin = istream_of (me_input env), mg_once = True,
          mg_output_to_file = (''_no_output_file'' \<noteq> output_filename), mg_inbox = inbox, mg_sent = [],
          mg_stdout = [], mg_file = [] \<rparr>)"

definition overall_lines :: "string \<Rightarrow> 'p complete_statistic \<Rightarrow> 'p shown list list" where
  "overall_lines name s =
     [[Shown_text name, Shown_text '' overall statistic:''],
      [Shown_nat (unat (cs_num_instances_started s)), Shown_text '' instances started''],
      [Shown_nat (unat (cs_total_num_flips s)), Shown_text '' flips executed''],
      [Shown_real (cs_avg_flips_per_second s), Shown_text '' flips per second (avg)''],
      [Shown_real (cs_avg_flips_per_var s), Shown_text '' flips per var (avg)''],
      [Shown_real (cs_avg_flips_per_clause s), Shown_text '' flips per clause (avg)''],
      [Shown_real (cs_total_init_duration s), Shown_text '' total init duration (ms)''],
      [Shown_real (cs_total_solve_duration s), Shown_text '' total solve duration (ms)''],
      [Shown_real (cs_total_overall_duration s), Shown_text '' total overall duration (ms)''],
      [Shown_nat (unat (cs_num_instances_solved s)), Shown_text '' instances solved'']] @
     (if 0 < cs_num_instances_solved s
      then [[Shown_nat (unat (cs_min_flips_to_solve s)), Shown_text '' flips until solved (min)'']] else [])"

definition manager_end :: "'p manager \<Rightarrow> 'p manager" where
  "manager_end m = outp_stats (overall_lines (mg_server_name m) (mg_statistic m)) m"

declare read_command.simps [code]

end
