(* ===== verification/Manager_Correct.thy ===== *)
theory Manager_Correct
  imports Manager
begin

text \<open>
  Lemmas on the manager: the argument vector it builds for the workers, the messages its
  commands send, and the reading of the standard input.
\<close>

section \<open>The argument vector\<close>

fun argument_offsets :: "nat \<Rightarrow> string list \<Rightarrow> nat list" where
  "argument_offsets n [] = []"
| "argument_offsets n (arg # args) = n # argument_offsets (n + length arg + 1) args"

definition packed :: "string list \<Rightarrow> char list" where
  "packed args = concat (map (\<lambda>arg. arg @ [nul]) args)"

lemma packed_simps [simp]: "packed [] = []" "packed (arg # args) = arg @ nul # packed args"
  "length (packed args) = sum_list (map (\<lambda>arg. length arg + 1) args)"
  by (simp_all add: packed_def length_concat o_def)

lemma c_str_id: "nul \<notin> set s \<Longrightarrow> c_str s = s"
  by (auto simp: c_str_def takeWhile_eq_all_conv)

lemma fill_arguments_eq:
  assumes "\<forall>arg \<in> set args. nul \<notin> set arg" "offset + length (packed args) \<le> length buf"
  shows "fill_arguments args offset buf argv =
    Some (take offset buf @ packed args @ drop (offset + length (packed args)) buf, argv @ argument_offsets offset args)"
  using assms
proof (induction args arbitrary: offset buf argv)
  case (Cons arg args)
  let ?b = "take offset buf @ (arg @ [nul]) @ drop (offset + length arg + 1) buf"
  have c: "c_str arg = arg" using Cons.prems(1) by (simp add: c_str_id)
  have b: "strcpy offset arg buf = Some ?b" using Cons.prems(2) c by (simp add: strcpy_def)
  have v: "vset ?b (int (offset + length arg)) nul = Some ?b"
  proof -
    have "?b ! (offset + length arg) = nul" using Cons.prems(2) by (simp add: nth_append)
    then have "?b[offset + length arg := nul] = ?b" by (metis list_update_id)
    then show ?thesis using Cons.prems(2) by (simp add: vset_def del: of_nat_add)
  qed
  have "fill_arguments args (offset + length arg + 1) ?b (argv @ [offset]) =
      Some (take (offset + length arg + 1) ?b @ packed args @ drop (offset + length arg + 1 + length (packed args)) ?b,
        (argv @ [offset]) @ argument_offsets (offset + length arg + 1) args)"
    using Cons.prems by (intro Cons.IH) simp_all
  then show ?case using b v Cons.prems(2) by (simp add: ac_simps)
qed simp

lemma read_argument_packed:
  "\<forall>arg \<in> set args. nul \<notin> set arg \<Longrightarrow>
   map (read_argument (front @ packed args @ rest)) (argument_offsets (length front) args) = args"
proof (induction args arbitrary: front)
  case (Cons arg args)
  have "takeWhile (\<lambda>c. c \<noteq> nul) (arg @ nul # xs) = arg" for xs
    using Cons.prems by (subst takeWhile_append2) auto
  then show ?case using Cons.IH [of "front @ arg @ [nul]"] Cons.prems by (simp add: read_argument_def)
qed simp

lemma argument_vector_eq:
  assumes "\<forall>arg \<in> set args. nul \<notin> set arg"
  shows "argument_vector memory args = Some args"
proof -
  let ?n = "sum_list (map (\<lambda>arg. length arg + 1) args)"
  have "fill_arguments args 0 (map memory [0..<?n]) [] = Some (packed args, argument_offsets 0 args)"
    using fill_arguments_eq [OF assms, of 0 "map memory [0..<?n]" "[]"] by simp
  then show ?thesis using read_argument_packed [OF assms, of "[]" "[]"]
    by (simp add: argument_vector_def Let_def)
qed

section \<open>Adding workers\<close>

lemma mg_emit_simps [simp]:
  "mg_sent (mg_emit ms m) = mg_sent m @ ms" "mg_running (mg_emit ms m) = mg_running m"
  "mg_workers (mg_emit ms m) = mg_workers m"
  by (simp_all add: mg_emit_def)

lemma add_workers_loop_eq:
  assumes "\<forall>arg \<in> set argv. nul \<notin> set arg"
  shows "\<exists>m'. add_workers_loop env argv n m = Inr m' \<and>
    mg_sent m' = mg_sent m @ concat (replicate (nat n) [Add_workers 1, Spawn_workers 1 argv]) \<and>
    length (mg_workers m') = length (mg_workers m) + nat n"
proof (induction "nat n" arbitrary: n m)
  case 0
  then show ?case by (simp add: add_workers_loop.simps)
next
  case (Suc k)
  then have n: "0 < n" "k = nat (n - 1)" "min max_simultaneous_connection_attempts n = 1"
    by (simp_all add: max_simultaneous_connection_attempts_def)
  let ?m = "(mg_emit [Add_workers 1, Spawn_workers 1 argv] m)\<lparr> mg_workers := mg_workers m @ [me_spawn env (length (mg_workers m))] \<rparr>"
  have "add_workers_loop env argv n m = add_workers_loop env argv (n - 1) ?m"
    using n by (subst add_workers_loop.simps)
      (simp add: do_add_workers_def argument_vector_eq [OF assms] thrown_def)
  moreover obtain m' where "add_workers_loop env argv (n - 1) ?m = Inr m'"
    "mg_sent m' = mg_sent ?m @ concat (replicate k [Add_workers 1, Spawn_workers 1 argv])"
    "length (mg_workers m') = length (mg_workers ?m) + k"
    using Suc.hyps(1) [OF n(2), of ?m] n(2) by auto
  ultimately show ?case using Suc.hyps(2) [symmetric] by simp
qed

section \<open>What the commands send\<close>

text \<open>Commands other than those that stop the manager keep it running and do not send \<open>TERMINATE\<close>.\<close>

definition keeps_going :: "'p manager \<Rightarrow> 'p manager \<Rightarrow> bool" where
  "keeps_going m m' \<longleftrightarrow> mg_running m' = mg_running m \<and>
     (\<exists>ms. mg_sent m' = mg_sent m @ ms \<and> Terminate \<notin> set ms)"

definition outcome_all :: "('s \<Rightarrow> bool) \<Rightarrow> (cpp_error \<times> 's) + 's \<Rightarrow> bool" where
  "outcome_all P r \<longleftrightarrow> (case r of Inl (e, m) \<Rightarrow> P m | Inr m \<Rightarrow> P m)"

lemma outcome_all_simps [simp]: "outcome_all P (Inl (e, m)) = P m" "outcome_all P (Inr m) = P m"
  by (simp_all add: outcome_all_def)

lemma outcome_all_rbind:
  assumes "\<And>e v. r = Inl (e, v) \<Longrightarrow> P v" "\<And>x. r = Inr x \<Longrightarrow> outcome_all P (f x)"
  shows "outcome_all P (rbind r f)"
  using assms by (cases r) auto

lemma outcome_all_rbind_thrown:
  "P m \<Longrightarrow> (\<And>x. r = Inr x \<Longrightarrow> outcome_all P (f x)) \<Longrightarrow> outcome_all P (rbind (thrown m r) f)"
  by (cases r) (auto simp: thrown_def)

lemma keeps_going_refl [simp]: "keeps_going m m"
  and keeps_going_trans: "keeps_going m m1 \<Longrightarrow> keeps_going m1 m2 \<Longrightarrow> keeps_going m m2"
  by (auto simp: keeps_going_def)

lemma outp_frame [simp]:
  "mg_sent (outp_stats ls m) = mg_sent m" "mg_running (outp_stats ls m) = mg_running m"
  "mg_statistic (outp_stats ls m) = mg_statistic m" "mg_solution_found (outp_stats ls m) = mg_solution_found m"
  "mg_capacity (outp_stats ls m) = mg_capacity m" "mg_inbox (outp_stats ls m) = mg_inbox m"
proof -
  have "mg_sent (fold outp_stat ls m) = mg_sent m \<and> mg_running (fold outp_stat ls m) = mg_running m \<and>
    mg_statistic (fold outp_stat ls m) = mg_statistic m \<and>
    mg_solution_found (fold outp_stat ls m) = mg_solution_found m \<and>
    mg_capacity (fold outp_stat ls m) = mg_capacity m \<and> mg_inbox (fold outp_stat ls m) = mg_inbox m"
    by (induction ls arbitrary: m) (simp_all add: outp_stat_def)
  then show "mg_sent (outp_stats ls m) = mg_sent m" "mg_running (outp_stats ls m) = mg_running m"
    "mg_statistic (outp_stats ls m) = mg_statistic m" "mg_solution_found (outp_stats ls m) = mg_solution_found m"
    "mg_capacity (outp_stats ls m) = mg_capacity m" "mg_inbox (outp_stats ls m) = mg_inbox m"
    by (simp_all add: outp_stats_def outp_end_def)
qed

lemma process_sends_nothing:
  "outcome_all (\<lambda>m'. mg_sent m' = mg_sent m \<and> mg_running m' = mg_running m) (manager_process_server_cmd env msg m)"
proof (cases msg)
  case (S2M_FOUND_SOLUTION p)
  show ?thesis unfolding S2M_FOUND_SOLUTION manager_process_server_cmd.simps process_s2m_FOUND_SOLUTION_def
    by (rule outcome_all_rbind_thrown) (simp_all add: Let_def)
next
  case (S2M_SEND_STATISTICS p)
  show ?thesis unfolding S2M_SEND_STATISTICS manager_process_server_cmd.simps process_s2m_SEND_STATISTICS_def
    by (rule outcome_all_rbind_thrown) auto
qed simp_all

lemma process_keeps_going: "outcome_all (keeps_going m) (manager_process_server_cmd env msg m)"
  using process_sends_nothing [of m env msg]
  by (cases "manager_process_server_cmd env msg m") (auto simp: keeps_going_def)

lemma wait_loop_keeps_going:
  "wait_loop env msgs m = Some r \<Longrightarrow> outcome_all (keeps_going m) r"
proof (induction msgs arbitrary: m)
  case (Cons msg msgs)
  let ?p = "manager_process_server_cmd env msg (m\<lparr> mg_inbox := msgs \<rparr>)"
  have p: "outcome_all (keeps_going m) ?p"
    using process_keeps_going [of "m\<lparr> mg_inbox := msgs \<rparr>" env msg] by (cases ?p) (auto simp: keeps_going_def)
  show ?case
  proof (cases ?p)
    case (Inr m1)
    show ?thesis
    proof (cases "msg = S2M_DISCONNECT")
      case False
      then have "wait_loop env msgs m1 = Some r" using Cons.prems Inr by (cases msg) simp_all
      then have "outcome_all (keeps_going m1) r" by (rule Cons.IH)
      then show ?thesis using p Inr keeps_going_trans by (cases r) fastforce+
    qed (use Cons.prems Inr p in auto)
  qed (use Cons.prems p in auto)
qed simp

lemma do_add_workers_keeps_going:
  "do_add_workers env n argv m = Inr (c, m') \<Longrightarrow> keeps_going m m'"
  by (auto simp: do_add_workers_def rbind_Inr_iff keeps_going_def split: if_splits)

lemma add_workers_keeps_going: "outcome_all (keeps_going m) (add_workers_loop env argv n m)"
proof (induction env argv n m rule: add_workers_loop.induct)
  case (1 env argv n m)
  show ?case
  proof (cases "0 < n")
    case True
    show ?thesis unfolding add_workers_loop.simps [of env argv n m] if_P [OF True] Let_def
    proof (rule outcome_all_rbind_thrown)
      fix x assume x: "do_add_workers env (min max_simultaneous_connection_attempts n) argv m = Inr x"
      obtain c m1 where c: "x = (c, m1)" by (cases x)
      have k: "keeps_going m m1" using do_add_workers_keeps_going x c by blast
      show "outcome_all (keeps_going m) (case x of (worker_cl, m1) \<Rightarrow> case worker_cl of
          None \<Rightarrow> Inl (Assertion_failed, m1)
        | Some c \<Rightarrow> add_workers_loop env argv (n - min max_simultaneous_connection_attempts n)
            (m1\<lparr> mg_workers := mg_workers m1 @ [c] \<rparr>))"
      proof (cases c)
        case None
        then show ?thesis using c k by simp
      next
        case (Some w)
        let ?m = "m1\<lparr> mg_workers := mg_workers m1 @ [w] \<rparr>"
        have "keeps_going m ?m" using k by (simp add: keeps_going_def)
        moreover have "outcome_all (keeps_going ?m)
            (add_workers_loop env argv (n - min max_simultaneous_connection_attempts n) ?m)"
          using 1 [OF True refl _ c [symmetric] Some] x by (simp add: thrown_Inr c)
        ultimately show ?thesis using c Some keeps_going_trans
          by (cases "add_workers_loop env argv (n - min max_simultaneous_connection_attempts n) ?m") fastforce+
      qed
    qed simp
  qed (simp add: add_workers_loop.simps [of env argv n m])
qed

lemma add_file_keeps_going: "outcome_all (keeps_going m) (do_add_file env a b f m)"
  unfolding do_add_file_def Let_def
proof (rule outcome_all_rbind_thrown)
  show "keeps_going m (m\<lparr> mg_capacity := c \<rparr>)" for c by (simp add: keeps_going_def)
  show "outcome_all (keeps_going m) (case x of (announced, req) \<Rightarrow>
      Inr (mg_emit ((case req of None \<Rightarrow> [] | Some n \<Rightarrow> [To_server_req_max n]) @ [Add_file d])
        (m\<lparr> mg_capacity := c, mg_server_max_cmd_length := announced \<rparr>)))" for x c d
    by (cases x) (auto simp: keeps_going_def split: option.splits)
qed

lemma cmd_keeps_going:
  "outcome_all (keeps_going m) (cmd_add_workers env args m)"
  "outcome_all (keeps_going m) (cmd_add_file env args m)"
proof -
  show "outcome_all (keeps_going m) (cmd_add_workers env args m)"
    unfolding cmd_add_workers_def
    by (auto intro!: outcome_all_rbind_thrown add_workers_keeps_going)
  show "outcome_all (keeps_going m) (cmd_add_file env args m)"
    unfolding cmd_add_file_def
    by (auto intro!: outcome_all_rbind_thrown add_file_keeps_going)
qed

text \<open>
  The state of the manager between two commands: it runs and has not sent \<open>TERMINATE\<close>, or it
  has stopped and this was the last thing it sent.
\<close>

definition manager_phase :: "'p manager \<Rightarrow> bool" where
  "manager_phase m \<longleftrightarrow> (if mg_running m then Terminate \<notin> set (mg_sent m)
     else \<exists>ms. mg_sent m = ms @ [Terminate] \<and> Terminate \<notin> set ms)"

lemma keeps_going_phase:
  "keeps_going m m' \<Longrightarrow> mg_running m \<Longrightarrow> manager_phase m \<Longrightarrow> manager_phase m' \<and> mg_running m'"
  by (auto simp: keeps_going_def manager_phase_def)

lemma stop_manager_phase: "mg_running m \<Longrightarrow> manager_phase m \<Longrightarrow> manager_phase (stop_manager m)"
  by (auto simp: stop_manager_def do_exit_def manager_phase_def)

lemma wait_for_server_phase:
  assumes "mg_running m" "manager_phase m" "cmd_wait_for_server env args m = Some r"
  shows "outcome_all manager_phase r"
proof (cases "length args = 1")
  case True
  then obtain r1 where r1: "wait_loop env (mg_inbox m) m = Some r1" "r = rbind r1 (\<lambda>m1. Inr (stop_manager m1))"
    using assms(3) by (auto simp: cmd_wait_for_server_def)
  have "outcome_all (keeps_going m) r1" by (rule wait_loop_keeps_going [OF r1(1)])
  then show ?thesis using r1(2) keeps_going_phase [OF _ assms(1,2)] stop_manager_phase
    by (cases r1) auto
qed (use assms in \<open>auto simp: cmd_wait_for_server_def\<close>)

lemma command_phase:
  fixes m :: "'p manager"
  assumes m: "mg_running m" "manager_phase m" and "run_command env line m = Some (Inr m')"
  shows "manager_phase m'"
proof -
  obtain f fs where s: "split_words line = f # fs"
    using assms(3) by (cases "split_words line") (simp_all add: run_command_def)
  show ?thesis
  proof (cases "map_of (command_registry :: (string \<times> 'p command) list) f")
    case None
    then show ?thesis using assms s by (simp add: run_command_def)
  next
    case (Some cmd)
    then obtain r where r1: "cmd env (f # fs) m = Some r"
      using assms(3) s by (auto simp: run_command_def)
    then have "m' = (case r of Inl (e, m1) \<Rightarrow> m1 | Inr m1 \<Rightarrow> m1)"
      using assms(3) s Some by (cases r) (auto simp: run_command_def split: if_splits)
    note r = r1 this
    have "outcome_all manager_phase r"
    proof -
      have up: "outcome_all (keeps_going m) x \<Longrightarrow> outcome_all manager_phase x" for x
        using keeps_going_phase [OF _ m] by (cases x) auto
      have "manager_phase (cmd_help m)" using m(2) by (simp add: cmd_help_def manager_phase_def)
      moreover have "outcome_all manager_phase (cmd_add_workers env (f # fs) m)"
        "outcome_all manager_phase (cmd_add_file env (f # fs) m)"
        using up cmd_keeps_going by blast+
      ultimately show ?thesis
        using Some r(1) wait_for_server_phase [OF m, of env "f # fs"] stop_manager_phase [OF m]
        by (auto simp: command_registry_def cmd_exit_def split: if_splits)
    qed
    then show ?thesis using r(2) by (cases r) auto
  qed
qed

lemma probe_phase:
  assumes "manager_phase m" "probe_server env flag m = Inr m'"
  shows "manager_phase m' \<and> mg_running m' = mg_running m"
proof -
  have "mg_sent m' = mg_sent m \<and> mg_running m' = mg_running m"
  proof (cases "mg_inbox m = [] \<or> \<not> flag")
    case True
    then show ?thesis using assms(2) by (cases "mg_inbox m") (simp_all add: probe_server_def)
  next
    case False
    then obtain msg msgs m1 where "manager_process_server_cmd env msg m1 = Inr m'"
      "mg_sent m1 = mg_sent m" "mg_running m1 = mg_running m"
      using assms(2) by (cases "mg_inbox m") (auto simp: probe_server_def Let_def)
    then show ?thesis using process_sends_nothing [of m1 env msg] by simp
  qed
  then show ?thesis using assms(1) by (simp add: manager_phase_def)
qed

lemma next_line_frame:
  "next_line env m = Some (line, m1) \<Longrightarrow> mg_running m1 = mg_running m \<and> mg_sent m1 = mg_sent m"
  by (auto simp: next_line_def split: list.splits if_splits)

lemma loop_phase:
  "manager_loop env flags m = Some (Inr m') \<Longrightarrow> manager_phase m \<Longrightarrow> manager_phase m'"
proof (induction flags arbitrary: m)
  case (Cons flag flags)
  show ?case
  proof (cases "mg_running m")
    case True
    then obtain m1 where m1: "manager_turn env flag m = Some (Inr m1)" "manager_loop env flags m1 = Some (Inr m')"
      using Cons.prems(1) by (auto split: option.splits sum.splits)
    obtain line l m2 where l: "next_line env m = Some (line, l)" "run_command env line l = Some (Inr m2)"
      "probe_server env flag m2 = Inr m1"
      using m1(1) by (auto simp: manager_turn_def bind_eq_Some_conv rbind_Inr_iff)
    have "mg_running l" "manager_phase l"
      using next_line_frame [OF l(1)] True Cons.prems(2) by (simp_all add: manager_phase_def)
    then have "manager_phase m2" using l(2) command_phase by blast
    then show ?thesis using probe_phase [OF _ l(3)] Cons.IH [OF m1(2)] by blast
  qed (use Cons.prems in simp)
qed simp

section \<open>Reading the standard input\<close>

definition exhausted :: "istream \<Rightarrow> bool" where
  "exhausted is \<longleftrightarrow> is_eof is \<or> is_fail is \<or> is_rest is = []"

lemma getline_exhausted:
  "exhausted is \<Longrightarrow> \<exists>is'. getline delim is [] = ([], is') \<and> is_fail is' \<and> exhausted is'"
  by (auto simp: exhausted_def getline_def)

lemma read_command_hangs:
  assumes "exhausted is"
  shows "read_command env False is [] = None"
proof -
  let ?P = "\<lambda>(env :: 'a manager_env) once is line r. \<not> (exhausted is \<and> once = False \<and> line = [])"
  have hang: "?P env once is line r" if r: "read_command env once is line = Some r" for once "is" line r
  proof (rule read_command.raw_induct [where P = ?P, OF _ r])
    fix loop and env :: "'a manager_env" and once "is" line r
    assume IH: "\<And>env once is line r. loop env once is line = Some r \<Longrightarrow> ?P env once is line r"
      and body: "(if line \<noteq> [] then Some (line, once, is)
      else (case getline (CHR 0x0A) is line of (line1, is1) \<Rightarrow>
        if is_fail is1
        then if once then loop env False (cin_rewind env is1) line1 else loop env False is1 line1
        else loop env once is1 line1)) = Some r"
    show "?P env once is line r"
      using body IH [of env False "snd (getline (CHR 0x0A) is [])" "[]" r] getline_exhausted [of "is" "CHR 0x0A"]
      by (auto split: if_splits)
  qed
  show ?thesis
  proof (cases "read_command env False is []")
    case (Some r)
    then show ?thesis using hang [OF Some] assms by simp
  qed
qed

lemma read_command_rewinds:
  assumes "exhausted is"
  shows "read_command env True is [] =
    (if me_seekable env then read_command env False (istream_of (me_input env)) [] else None)"
proof -
  obtain is' where g: "getline (CHR 0x0A) is [] = ([], is')" "is_fail is'" using getline_exhausted [OF assms] by blast
  have "read_command env True is [] = read_command env False (cin_rewind env is') []"
    using g by (subst read_command.simps) simp
  then show ?thesis using read_command_hangs [of "is'\<lparr> is_eof := False, is_fail := True \<rparr>" env]
    by (simp add: cin_rewind_def exhausted_def)
qed

lemma read_command_line:
  assumes "getline (CHR 0x0A) is [] = (line, is')" "line \<noteq> []" "\<not> is_fail is'"
  shows "read_command env once is [] = Some (line, once, is')"
proof -
  have "read_command env once is' line = Some (line, once, is')" using assms(2) by (subst read_command.simps) simp
  then show ?thesis using assms by (subst read_command.simps) simp
qed

end
