(* ===== verification/Server.thy ===== *)
theory Server
  imports Messages
begin

text \<open>
  The server (\<open>communication/server.hpp\<close>, \<open>server.cpp\<close>): its state as one record, one
  definition per handler, the dispatch of a command, one iteration of the main loop and
  its run over a list of inputs. Messages are appended to \<open>sent\<close> in the order the calls of
  \<open>MPI_Send\<close> have in the code.
\<close>

section \<open>State\<close>

record 'p task_info =
  metadata :: problem_instance_metadata
  statistics :: "'p problem_instance_statistics"
  num_currently_processing :: u32
  is_scheduled :: bool

definition task_info_new :: "'p prec_ops \<Rightarrow> problem_instance_metadata \<Rightarrow> 'p task_info" where
  "task_info_new ops data = \<lparr> metadata = data, statistics = statistics_default ops,
     num_currently_processing = 0, is_scheduled = True \<rparr>"

type_synonym comm = nat

text \<open>
  What the server sends. A worker is addressed by its communicator and a rank in it.
\<close>

datatype 'p server_message =
    To_worker_req_max comm nat nat
  | Activate_worker comm nat
  | Send_instances comm nat "job list"
  | Terminate_worker comm nat
  | To_manager_req_max nat
  | Solution_to_manager solution_info
  | Statistics_to_manager problem_instance_metadata "'p problem_instance_statistics"

text \<open>
  What the code takes from MPI, the serialization library and the memory behind a vector:
  the number of bytes of an encoded message and the capacity of a buffer after encoding into
  it, the size of a communicator, the communicator of the \<open>k\<close>-th accepted worker, and what
  reading \<open>work_units[work_units.size()]\<close> yields (\<open>None\<close>: the read is not tolerated).
\<close>

record 'p server_env =
  arith :: "'p prec_ops"
  encoded_length :: "'p field list \<Rightarrow> nat"
  grown :: "nat \<Rightarrow> nat \<Rightarrow> nat"
  comm_size :: "comm \<Rightarrow> nat"
  accept :: "nat \<Rightarrow> comm"
  past_end :: "comm option"

record 'p server =
  available_tasks :: "'p task_info list"
  task_order :: "u32 list"
  work_units :: "comm list"
  work_unit_requests :: "bool list"
  transfer_sizes :: "nat list"
  worker_comm_buffers :: "nat list"
  work_units_disconnected :: nat
  running :: bool
  solution_found :: bool
  terminated_workers :: bool
  statistic_send :: bool
  wait_for_more_files :: bool
  terminate_after_solution_was_found :: bool
  short_statistic :: bool
  num_instances_in_processing :: u64
  command_capacity :: nat
  current_manager_max_cmd_length :: nat
  accepted :: nat
  sent :: "'p server_message list"

definition try_once :: bool where "try_once = True"

definition server_init :: "'p server" where
  "server_init = \<lparr> available_tasks = [], task_order = [], work_units = [], work_unit_requests = [],
     transfer_sizes = [], worker_comm_buffers = [], work_units_disconnected = 0, running = True,
     solution_found = False, terminated_workers = False, statistic_send = False,
     wait_for_more_files = False, terminate_after_solution_was_found = True, short_statistic = True,
     num_instances_in_processing = 0, command_capacity = default_max_cmd_length,
     current_manager_max_cmd_length = default_max_cmd_length, accepted = 0, sent = [] \<rparr>"

abbreviation server_header :: string where "server_header \<equiv> ''server: ''"

section \<open>Sending\<close>

definition emit :: "'p server_message list \<Rightarrow> 'p server \<Rightarrow> 'p server" where
  "emit ms st = st\<lparr> sent := sent st @ ms \<rparr>"

definition activate_worker_send :: "nat \<Rightarrow> nat \<Rightarrow> 'p server \<Rightarrow> 'p server result" where
  "activate_worker_send index rank st =
     rbind (defined (vget (work_units st) (int index))) (\<lambda>c. Inr (emit [Activate_worker c rank] st))"

definition terminate_send :: "nat \<Rightarrow> nat \<Rightarrow> 'p server \<Rightarrow> 'p server result" where
  "terminate_send index rank st =
     rbind (defined (vget (work_units st) (int index))) (\<lambda>c. Inr (emit [Terminate_worker c rank] st))"

definition send_instances_send ::
    "'p server_env \<Rightarrow> nat \<Rightarrow> nat \<Rightarrow> job list \<Rightarrow> 'p server \<Rightarrow> 'p server result" where
  "send_instances_send env index rank jobs st =
     rbind (defined (vget (worker_comm_buffers st) (int index))) (\<lambda>cap.
     rbind (defined (vget (transfer_sizes st) (int index))) (\<lambda>announced.
     rbind (defined (vget (work_units st) (int index))) (\<lambda>c.
     let data_len = encoded_length env (serialize_jobs jobs) in
     rbind (ensure_length data_len announced) (\<lambda>(announced', req).
     Inr (emit ((case req of None \<Rightarrow> [] | Some n \<Rightarrow> [To_worker_req_max c rank n]) @ [Send_instances c rank jobs])
       (st\<lparr> worker_comm_buffers := (worker_comm_buffers st)[index := grown env cap data_len],
            transfer_sizes := (transfer_sizes st)[index := announced'] \<rparr>))))))"

definition manager_send ::
    "'p server_env \<Rightarrow> 'p field list \<Rightarrow> 'p server_message \<Rightarrow> 'p server \<Rightarrow> 'p server result" where
  "manager_send env items msg st =
     (let data_len = encoded_length env items in
      rbind (ensure_length data_len (current_manager_max_cmd_length st)) (\<lambda>(announced', req).
      Inr (emit ((case req of None \<Rightarrow> [] | Some n \<Rightarrow> [To_manager_req_max n]) @ [msg])
        (st\<lparr> command_capacity := grown env (command_capacity st) data_len,
             current_manager_max_cmd_length := announced' \<rparr>))))"

definition found_solution_send :: "'p server_env \<Rightarrow> solution_info \<Rightarrow> 'p server \<Rightarrow> 'p server result" where
  "found_solution_send env info = manager_send env (serialize_solution_info info) (Solution_to_manager info)"

definition send_statistics_send ::
    "'p server_env \<Rightarrow> problem_instance_metadata \<Rightarrow> 'p problem_instance_statistics \<Rightarrow> 'p server \<Rightarrow> 'p server result" where
  "send_statistics_send env m s = manager_send env (serialize_report_entry m s) (Statistics_to_manager m s)"

section \<open>Receiving\<close>

text \<open>
  What the \<open>process\<close> functions of the commands read from a buffer with this capacity: each
  accepts its own range of lengths.
\<close>

abbreviation (input) add_file_process :: "nat \<Rightarrow> problem_instance_metadata packet \<Rightarrow> problem_instance_metadata result" where
  "add_file_process cap p \<equiv> received server_header ''ADD_FILE'' 1 cap p"

abbreviation (input) w2s_found_solution_process :: "nat \<Rightarrow> solution_info packet \<Rightarrow> solution_info result" where
  "w2s_found_solution_process cap p \<equiv> received server_header ''FOUND_SOLUTION'' 0 cap p"

abbreviation (input) done_processing_process :: "nat \<Rightarrow> 'p done_processing_info packet \<Rightarrow> 'p done_processing_info result" where
  "done_processing_process cap p \<equiv> received server_header ''DONE_PROCESSING'' 0 cap p"

abbreviation (input) get_instances_process :: "nat \<Rightarrow> u32 packet \<Rightarrow> u32 result" where
  "get_instances_process cap p \<equiv> received server_header ''GET_INSTANCES'' 0 cap p"

section \<open>Commands of the manager\<close>

definition process_m2s_ADD_FILE ::
    "'p server_env \<Rightarrow> problem_instance_metadata packet \<Rightarrow> 'p server \<Rightarrow> 'p server result" where
  "process_m2s_ADD_FILE env p st =
     rbind (add_file_process (command_capacity st) p) (\<lambda>data.
     let is_first_file = (available_tasks st = []);
         st1 = st\<lparr> available_tasks := available_tasks st @ [task_info_new (arith env) data],
                   task_order := of_nat (length (available_tasks st)) # task_order st \<rparr>
     in if work_units st1 \<noteq> [] \<and> is_first_file
        then foldR (\<lambda>i. activate_worker_send i 0) [0..<length (work_units st1)] st1
        else Inr st1)"

definition accept_workers :: "'p server_env \<Rightarrow> nat \<Rightarrow> 'p server \<Rightarrow> 'p server" where
  "accept_workers env n st = st\<lparr>
     work_units := work_units st @ map (\<lambda>i. accept env (accepted st + i)) [0..<n],
     accepted := accepted st + n,
     transfer_sizes := transfer_sizes st @ replicate n default_max_cmd_length,
     worker_comm_buffers := worker_comm_buffers st @ replicate n default_max_cmd_length,
     work_unit_requests := work_unit_requests st @ replicate n True \<rparr>"

definition process_m2s_ADD_WORKERS ::
    "'p server_env \<Rightarrow> int \<Rightarrow> int \<Rightarrow> 'p server \<Rightarrow> 'p server result" where
  "process_m2s_ADD_WORKERS env count num_workers st =
     rbind (get_count_recieved_safe server_header count ''ADD_WORKERS'' 1 1) (\<lambda>_.
     if 0 \<ge> num_workers
     then Inl (Runtime_error (server_header @ ''invalid ADD_WORKER command: must add at least one worker''))
     else let offset = length (work_units st); st1 = accept_workers env (nat num_workers) st
       in if available_tasks st1 \<noteq> []
          then foldR (\<lambda>i. activate_worker_send (offset + i) 0) [0..<nat num_workers] st1
          else Inr st1)"

text \<open>
  \<open>send_termination_to_workers\<close>: the outer loop takes the first communicator of a run of
  equal ones, the inner loop skips the run and compares with \<open>work_units[i]\<close> also when
  \<open>i\<close> is the number of work units.
\<close>

definition unit_at :: "'p server_env \<Rightarrow> comm list \<Rightarrow> nat \<Rightarrow> comm option" where
  "unit_at env us i =
     (if i < length us then Some (us ! i) else if i = length us then past_end env else None)"

function skip_run :: "'p server_env \<Rightarrow> comm list \<Rightarrow> comm \<Rightarrow> nat \<Rightarrow> nat option" where
  "skip_run env us c i = (case unit_at env us i of
     None \<Rightarrow> None
   | Some c' \<Rightarrow> if c = c' then skip_run env us c (i + 1) else Some i)"
  by pat_completeness auto
termination
  by (relation "measure (\<lambda>(env, us, c, i). Suc (length us) - i)")
    (auto simp: unit_at_def split: if_splits)

declare skip_run.simps [simp del]

lemma skip_run_ge: "skip_run env us c i = Some j \<Longrightarrow> i \<le> j"
proof (induction env us c i rule: skip_run.induct)
  case (1 env us c i)
  then show ?case by (subst (asm) skip_run.simps) (force split: option.splits if_splits)
qed

lemma terminate_sends_frame:
  "foldR (terminate_send i) ks st = Inr st' \<Longrightarrow> \<exists>ms. st' = st\<lparr> sent := sent st @ ms \<rparr>"
proof (induction ks arbitrary: st)
  case Nil
  have "st = st\<lparr> sent := sent st @ [] \<rparr>" by simp
  then show ?case using Nil by (metis foldR.simps(1) sum.inject(2))
next
  case (Cons k ks)
  then obtain st1 where st1: "terminate_send i k st = Inr st1" "foldR (terminate_send i) ks st1 = Inr st'"
    by (auto simp: rbind_Inr_iff)
  then obtain c where "st1 = emit [Terminate_worker c k] st"
    by (auto simp: rbind_Inr_iff terminate_send_def)
  with Cons.IH [OF st1(2)] show ?case by (auto simp: emit_def)
qed

function terminate_loop :: "'p server_env \<Rightarrow> nat \<Rightarrow> 'p server \<Rightarrow> 'p server result" where
  "terminate_loop env i st =
     (if i < length (work_units st) then
        rbind (foldR (terminate_send i) [0..<comm_size env (work_units st ! i)] st) (\<lambda>st'.
        case skip_run env (work_units st) (work_units st ! i) (i + 1) of
          None \<Rightarrow> Inl Undefined_behaviour
        | Some j \<Rightarrow> if j < length (work_units st) then terminate_loop env j st' else Inr st')
      else Inl Undefined_behaviour)"
  by pat_completeness auto
termination
proof (relation "measure (\<lambda>(env, i, st). length (work_units st) - i)", goal_cases)
  case (2 env i st st' j)
  then obtain ms where "st' = st\<lparr> sent := sent st @ ms \<rparr>" using terminate_sends_frame by blast
  with 2 show ?case using skip_run_ge [of env "work_units st" "work_units st ! i" "i + 1" j] by simp
qed simp

declare terminate_loop.simps [simp del]

definition send_termination_to_workers :: "'p server_env \<Rightarrow> 'p server \<Rightarrow> 'p server result" where
  "send_termination_to_workers env st =
     (if terminated_workers st then Inr st
      else let st1 = st\<lparr> terminated_workers := True \<rparr> in
        rbind (require (0 < length (work_units st1)) Assertion_failed) (\<lambda>_. terminate_loop env 0 st1))"

datatype m2s_command =
    M2S_REQ_MAX_CMD_LENGTH "int packet"
  | M2S_ADD_WORKERS int int
  | M2S_ADD_FILE "problem_instance_metadata packet"
  | M2S_TERMINATE
  | M2S_other int

fun process_manager_cmd :: "'p server_env \<Rightarrow> m2s_command \<Rightarrow> 'p server \<Rightarrow> 'p server result" where
  "process_manager_cmd env (M2S_REQ_MAX_CMD_LENGTH p) st =
     rbind (req_max_transfer_size_process server_header p (command_capacity st))
       (\<lambda>cap. Inr (st\<lparr> command_capacity := cap \<rparr>))"
| "process_manager_cmd env (M2S_ADD_WORKERS count n) st = process_m2s_ADD_WORKERS env count n st"
| "process_manager_cmd env (M2S_ADD_FILE p) st = process_m2s_ADD_FILE env p st"
| "process_manager_cmd env M2S_TERMINATE st = send_termination_to_workers env st"
| "process_manager_cmd env (M2S_other n) st =
     Inl (Runtime_error (server_header @ ''unknown command''))"

section \<open>Commands of a worker\<close>

text \<open>The vector operation \<open>erase(begin() + index)\<close>.\<close>

definition verase :: "'a list \<Rightarrow> nat \<Rightarrow> 'a list option" where
  "verase xs i = (if i < length xs then Some (take i xs @ drop (Suc i) xs) else None)"

definition process_w2s_REQ_MAX_CMD_LENGTH :: "nat \<Rightarrow> int packet \<Rightarrow> 'p server \<Rightarrow> 'p server result" where
  "process_w2s_REQ_MAX_CMD_LENGTH index p st =
     rbind (defined (vset (work_unit_requests st) (int index) False)) (\<lambda>reqs.
     rbind (defined (vget (worker_comm_buffers st) (int index))) (\<lambda>cap.
     rbind (req_max_transfer_size_process server_header p cap) (\<lambda>cap'.
     Inr (st\<lparr> work_unit_requests := reqs,
              worker_comm_buffers := (worker_comm_buffers st)[index := cap'] \<rparr>))))"

definition process_w2s_FOUND_SOLUTION ::
    "'p server_env \<Rightarrow> nat \<Rightarrow> solution_info packet \<Rightarrow> 'p server \<Rightarrow> 'p server result" where
  "process_w2s_FOUND_SOLUTION env index p st =
     rbind (defined (vget (worker_comm_buffers st) (int index))) (\<lambda>cap.
     rbind (w2s_found_solution_process cap p) (\<lambda>info.
     let st1 = st\<lparr> solution_found := True \<rparr> in
     rbind (if terminate_after_solution_was_found st1 then send_termination_to_workers env st1 else Inr st1)
       (found_solution_send env info)))"

definition reported :: "'p server \<Rightarrow> 'p task_info \<Rightarrow> bool" where
  "reported st t \<longleftrightarrow> 0 < num_instances_started (statistics t) \<or> \<not> short_statistic st"

definition send_statistic_to_manager :: "'p server_env \<Rightarrow> 'p server \<Rightarrow> 'p server result" where
  "send_statistic_to_manager env st =
     (if statistic_send st then Inr st
      else foldR (\<lambda>t st. if reported st t then send_statistics_send env (metadata t) (statistics t) st else Inr st)
        (available_tasks st) (st\<lparr> statistic_send := True \<rparr>))"

text \<open>
  The statistics of a task: a report with flips fixes the size of the formula, or has to agree
  with it; then the counters, durations and the average are brought up to date.
\<close>

definition check_formula ::
    "'p problem_instance_statistics \<Rightarrow> 'p done_processing_info \<Rightarrow> 'p problem_instance_statistics result" where
  "check_formula s msg =
     (if 0 < dp_num_flips_done msg then
        (if 0 < total_num_flips s
         then rbind (require (stat_num_vars s = dp_num_vars msg) Assertion_failed) (\<lambda>_.
              rbind (require (stat_num_clauses s = dp_num_clauses msg) Assertion_failed) (\<lambda>_. Inr s))
         else Inr (s\<lparr> stat_num_vars := dp_num_vars msg, stat_num_clauses := dp_num_clauses msg \<rparr>))
      else Inr s)"

definition merge_report ::
    "'p prec_ops \<Rightarrow> 'p problem_instance_statistics \<Rightarrow> 'p done_processing_info \<Rightarrow> 'p problem_instance_statistics" where
  "merge_report ops s msg =
     (let avg = p_div ops
           (p_add ops (p_mul ops (avg_flips_per_second s) (p_of_int ops (uint (num_instances_started s))))
              (p_mul ops (dp_flips_per_second msg) (p_of_int ops (uint (dp_instances_processed msg)))))
           (p_of_int ops (uint (num_instances_started s + ucast (dp_instances_processed msg))));
         s2 = s\<lparr> total_num_flips := total_num_flips s + dp_num_flips_done msg,
           avg_flips_per_second := avg,
           num_instances_started := num_instances_started s + ucast (dp_instances_processed msg),
           total_init_duration := total_init_duration s + dp_init_duration msg,
           total_solve_duration := total_solve_duration s + dp_solve_duration msg,
           total_overall_duration := total_overall_duration s + dp_overall_duration msg \<rparr>
     in if dp_solved msg
        then s2\<lparr> times_solved := times_solved s2 + 1,
                 min_flips_to_solve := min (min_flips_to_solve s2) (dp_num_flips_done msg) \<rparr>
        else s2)"

definition add_statistics ::
    "'p prec_ops \<Rightarrow> 'p problem_instance_statistics \<Rightarrow> 'p done_processing_info \<Rightarrow>
     'p problem_instance_statistics result" where
  "add_statistics ops s msg = rbind (check_formula s msg) (\<lambda>s1. Inr (merge_report ops s1 msg))"

text \<open>The condition under which a task that was handed out completely is scheduled again.\<close>

definition reschedules :: "'p task_info \<Rightarrow> bool" where
  "reschedules t \<longleftrightarrow> \<not> is_scheduled t \<and>
     ((\<not> try_once \<and> anzahl_startbelegungen (metadata t) = 0) \<or>
      (ucast (anzahl_startbelegungen (metadata t)) :: u64) >
        num_instances_started (statistics t) + ucast (num_currently_processing t))"

definition process_w2s_DONE_PROCESSING ::
    "'p server_env \<Rightarrow> nat \<Rightarrow> 'p done_processing_info packet \<Rightarrow> 'p server \<Rightarrow> 'p server result" where
  "process_w2s_DONE_PROCESSING env index p st =
     rbind (defined (vget (worker_comm_buffers st) (int index))) (\<lambda>cap.
     rbind (done_processing_process cap p) (\<lambda>msg.
     rbind (defined (vget (available_tasks st) (uint (dp_task_id msg)))) (\<lambda>t.
     rbind (add_statistics (arith env) (statistics t) msg) (\<lambda>s.
     rbind (require (num_instances_in_processing st \<ge> ucast (dp_instances_processed msg)) Assertion_failed) (\<lambda>_.
     let t1 = t\<lparr> statistics := s,
                 num_currently_processing := num_currently_processing t - dp_instances_processed msg \<rparr>;
         again = reschedules t1;
         t2 = (if again then t1\<lparr> is_scheduled := True \<rparr> else t1);
         st1 = st\<lparr> available_tasks := (available_tasks st)[unat (dp_task_id msg) := t2],
           num_instances_in_processing := num_instances_in_processing st - ucast (dp_instances_processed msg),
           task_order := (if again then task_order st @ [dp_task_id msg] else task_order st) \<rparr>
     in if (task_order st1 = [] \<or> (solution_found st1 \<and> terminate_after_solution_was_found st1)) \<and>
           num_instances_in_processing st1 = 0
        then (if \<not> wait_for_more_files st1
              then rbind (send_statistic_to_manager env st1) (send_termination_to_workers env)
              else Inr st1)
        else Inr st1)))))"

definition process_w2s_DISCONNECT :: "'p server_env \<Rightarrow> nat \<Rightarrow> 'p server \<Rightarrow> 'p server result" where
  "process_w2s_DISCONNECT env index st =
     rbind (defined (verase (work_unit_requests st) index)) (\<lambda>reqs.
     rbind (defined (verase (work_units st) index)) (\<lambda>us.
     rbind (defined (verase (transfer_sizes st) index)) (\<lambda>sizes.
     rbind (defined (verase (worker_comm_buffers st) index)) (\<lambda>bufs.
     let st1 = st\<lparr> work_unit_requests := reqs, work_units := us, transfer_sizes := sizes,
           worker_comm_buffers := bufs, work_units_disconnected := work_units_disconnected st + 1 \<rparr>
     in if (task_order st1 = [] \<or> solution_found st1) \<and> work_units st1 = [] \<and> statistic_send st1
        then rbind (send_statistic_to_manager env st1) (\<lambda>st2. Inr (st2\<lparr> running := False \<rparr>))
        else Inr st1))))"

text \<open>
  The loop of \<open>GET_INSTANCES\<close> over the state, the number of instances still requested and
  the jobs of the reply.
\<close>

definition instances_available :: "u32 \<Rightarrow> 'p task_info \<Rightarrow> u32" where
  "instances_available requested t =
     (let num_instances_required = anzahl_startbelegungen (metadata t);
          num_processed = (if try_once then ucast (num_instances_started (statistics t)) else 0)
      in if num_instances_required = 0 then requested
         else num_instances_required - num_currently_processing t - num_processed)"

function get_instances_loop :: "u32 \<Rightarrow> job list \<Rightarrow> 'p server \<Rightarrow> (u32 \<times> job list \<times> 'p server) result" where
  "get_instances_loop requested reply st =
     (if 0 < requested then
        (case task_order st of
           [] \<Rightarrow> Inr (requested, reply, st)
         | task_id # rest \<Rightarrow>
             rbind (defined (vget (available_tasks st) (uint task_id))) (\<lambda>t.
             let available = instances_available requested t;
                 to_start = min requested available in
             rbind (require (0 < to_start) Assertion_failed) (\<lambda>_.
             let j = \<lparr> job_metadata = metadata t, num_instances_to_start = to_start, job_task_id = task_id \<rparr>;
                 t1 = t\<lparr> num_currently_processing := num_currently_processing t + to_start \<rparr>;
                 used_up = (available \<le> to_start);
                 st1 = st\<lparr> available_tasks := (available_tasks st)[unat task_id :=
                             (if used_up then t1\<lparr> is_scheduled := False \<rparr> else t1)],
                           task_order := (if used_up then rest else task_order st) \<rparr> in
             rbind (require (requested \<ge> to_start) Assertion_failed) (\<lambda>_.
             get_instances_loop (requested - to_start) (reply @ [j])
               (st1\<lparr> num_instances_in_processing := num_instances_in_processing st1 + ucast to_start \<rparr>)))))
      else Inr (requested, reply, st))"
  by pat_completeness auto
termination
proof (relation "measure (\<lambda>(requested, reply, st). unat requested + length (task_order st))", goal_cases)
  case (2 requested reply st task_id rest t available to_start)
  then have "0 < to_start" "to_start \<le> requested" by (auto simp: require_def split: if_splits)
  then have "unat (requested - to_start) < unat requested"
    by (simp add: unat_sub word_le_nat_alt word_less_nat_alt)
  with 2 show ?case by auto
qed simp

declare get_instances_loop.simps [simp del]

definition process_w2s_GET_INSTANCES ::
    "'p server_env \<Rightarrow> nat \<Rightarrow> nat \<Rightarrow> u32 packet \<Rightarrow> 'p server \<Rightarrow> 'p server result" where
  "process_w2s_GET_INSTANCES env index source p st =
     rbind (defined (vget (worker_comm_buffers st) (int index))) (\<lambda>cap.
     rbind (get_instances_process cap p) (\<lambda>request.
     rbind (if \<not> solution_found st then get_instances_loop request [] st else Inr (request, [], st))
       (\<lambda>(rest, reply, st1). send_instances_send env index source reply st1)))"

datatype 'p w2s_command =
    W2S_REQ_MAX_CMD_LENGTH "int packet"
  | W2S_FOUND_SOLUTION "solution_info packet"
  | W2S_DONE_PROCESSING "'p done_processing_info packet"
  | W2S_GET_INSTANCES "u32 packet"
  | W2S_DISCONNECT
  | W2S_other int

definition renew_request :: "nat \<Rightarrow> 'p server \<Rightarrow> 'p server result" where
  "renew_request index st =
     rbind (defined (vset (work_unit_requests st) (int index) True))
       (\<lambda>reqs. Inr (st\<lparr> work_unit_requests := reqs \<rparr>))"

fun process_worker_cmd ::
    "'p server_env \<Rightarrow> nat \<Rightarrow> nat \<Rightarrow> 'p w2s_command \<Rightarrow> 'p server \<Rightarrow> 'p server result" where
  "process_worker_cmd env index source (W2S_REQ_MAX_CMD_LENGTH p) st =
     rbind (process_w2s_REQ_MAX_CMD_LENGTH index p st) (renew_request index)"
| "process_worker_cmd env index source (W2S_GET_INSTANCES p) st =
     rbind (process_w2s_GET_INSTANCES env index source p st) (renew_request index)"
| "process_worker_cmd env index source (W2S_DONE_PROCESSING p) st =
     rbind (process_w2s_DONE_PROCESSING env index p st) (renew_request index)"
| "process_worker_cmd env index source (W2S_FOUND_SOLUTION p) st =
     rbind (process_w2s_FOUND_SOLUTION env index p st) (renew_request index)"
| "process_worker_cmd env index source W2S_DISCONNECT st = process_w2s_DISCONNECT env index st"
| "process_worker_cmd env index source (W2S_other n) st = Inl (Runtime_error ''unknown command'')"

section \<open>Main loop\<close>

text \<open>
  What the two probes of an iteration yield: the index of a completed request with the rank
  and the command of its sender, and a command of the manager. Completing a request clears
  its entry.
\<close>

type_synonym 'p probes = "(int \<times> nat \<times> 'p w2s_command) option \<times> m2s_command option"

definition worker_probe ::
    "'p server_env \<Rightarrow> (int \<times> nat \<times> 'p w2s_command) option \<Rightarrow> 'p server \<Rightarrow> 'p server result" where
  "worker_probe env probe st =
     (if work_unit_requests st = [] then Inr st
      else case probe of
        None \<Rightarrow> Inr st
      | Some (index, source, cmd) \<Rightarrow>
          if 0 > index \<or> nat index \<ge> length (work_unit_requests st)
          then Inl (Runtime_error ''fatal error: MPI_Testany returned invalid index'')
          else process_worker_cmd env (nat index) source cmd
            (st\<lparr> work_unit_requests := (work_unit_requests st)[nat index := False] \<rparr>))"

definition server_iteration :: "'p server_env \<Rightarrow> 'p probes \<Rightarrow> 'p server \<Rightarrow> 'p server result" where
  "server_iteration env probes st =
     rbind (worker_probe env (fst probes) st) (\<lambda>st1.
     case snd probes of None \<Rightarrow> Inr st1 | Some cmd \<Rightarrow> process_manager_cmd env cmd st1)"

fun server_loop :: "'p server_env \<Rightarrow> 'p probes list \<Rightarrow> 'p server \<Rightarrow> 'p server result" where
  "server_loop env [] st = Inr st"
| "server_loop env (i # is) st =
     (if running st then rbind (server_iteration env i st) (server_loop env is) else Inr st)"

text \<open>
  \<open>main\<close>: the checks before the loop, and what follows it. An exception of the loop is
  printed and the process takes its leave of the manager as after a regular end; a failed
  assertion or undefined behaviour is not caught. An exception before there is a connection
  to the manager ends the process as well: the message \<open>DISCONNECT\<close> that follows it has no
  receiver, which MPI treats as fatal.
\<close>

datatype 'p server_outcome =
    Server_running "'p server"
  | Server_left "cpp_error option"
  | Server_aborted cpp_error

definition server_main ::
    "'p server_env \<Rightarrow> int \<Rightarrow> bool \<Rightarrow> bool \<Rightarrow> 'p probes list \<Rightarrow> 'p server_outcome" where
  "server_main env argc threads has_parent inputs =
     (case rbind (require (\<not> argc < 2) (Runtime_error ''name for problem instance required!'')) (\<lambda>_.
           rbind (require threads (Runtime_error ''MPI does not provide needed threading level!'')) (\<lambda>_.
           require has_parent (Runtime_error ''server needs to be spawned by a manager process''))) of
        Inl e \<Rightarrow> Server_aborted e
      | Inr _ \<Rightarrow>
         (case server_loop env inputs server_init of
            Inr st \<Rightarrow> if running st then Server_running st else Server_left None
          | Inl (Runtime_error m) \<Rightarrow> Server_left (Some (Runtime_error m))
          | Inl e \<Rightarrow> Server_aborted e))"

end
