(* ===== verification/Worker_Task.thy ===== *)
theory Worker_Task
  imports Input Solver_Run Messages
begin

text \<open>
  One task of a worker (\<open>worker_task.hpp\<close>): a start assignment for a formula that the tasks of
  a job share. The measured durations, the rate computed from them, the values the thread
  reads from the \<open>volatile\<close> flag \<open>running\<close>, the seed of the device, and whether the library
  tolerates that \<open>initialize\<close> unlocks a mutex that is not held, are arguments.
\<close>

record 'p task =
  t_max_flips :: nat
  t_cnf :: nat
  t_dpi :: "'p done_processing_info"
  t_name :: string

definition default_max_flips :: nat where "default_max_flips = 20000000"

definition task_new :: "'p prec_ops \<Rightarrow> problem_instance_metadata \<Rightarrow> nat \<Rightarrow> u32 \<Rightarrow> 'p task" where
  "task_new ops pim cnf task_id =
     \<lparr> t_max_flips = (if anzahl_flips pim \<noteq> 0 then unat (anzahl_flips pim) else default_max_flips),
       t_cnf = cnf,
       t_dpi = (done_processing_info_default ops)\<lparr> dp_solved := False, dp_task_id := task_id \<rparr>,
       t_name = filename pim \<rparr>"

record 'p measured =
  m_running :: "nat \<Rightarrow> bool"
  m_seed :: nat
  m_init :: u64
  m_solve :: u64
  m_overall :: u64
  m_fps :: "nat \<Rightarrow> u64 \<Rightarrow> 'p"
  m_mem :: "nat \<Rightarrow> int"
  m_junk :: "nat \<Rightarrow> 8 word"

text \<open>
  \<open>cnf_formula::initialize\<close> with the mutex of the sharing configuration, for a library that
  does or does not tolerate the last call of \<open>unlock\<close>.
\<close>

definition initialize_sharing :: "bool \<Rightarrow> string option \<Rightarrow> cnf_formula \<Rightarrow> cnf_formula result option" where
  "initialize_sharing tolerated file F =
     (if clauses F \<noteq> [] then Some (Inr F)
      else do {
        res \<leftarrow> initialize_formula file F;
        Some (rbind res (\<lambda>F'. if tolerated then Inr F' else rbind (mutex_unlock False) (\<lambda>_. Inr F'))) })"

lemma initialize_sharing_strict: "initialize_sharing False = initialize_shared"
  by (intro ext) (simp add: initialize_sharing_def initialize_shared_def Let_def)

definition stop_task :: "nat \<Rightarrow> (nat \<Rightarrow> bool) \<Rightarrow> nat \<Rightarrow> bool" where
  "stop_task max_flips running n \<longleftrightarrow> max_flips \<le> n \<or> \<not> running n"

text \<open>
  \<open>execute\<close>, on the shared formula and the information the task collects. The probability
  function is the global polynomial one, without a cache.
\<close>

definition global_pfi :: "'p \<Rightarrow> 'p \<Rightarrow> 'p prob_func_polynomial" where
  "global_pfi eps cb = \<lparr> poly_eps = eps, poly_cb = cb \<rparr>"

definition finish_task ::
    "'p measured \<Rightarrow> cnf_formula \<Rightarrow> 'p done_processing_info \<Rightarrow> instance_state \<Rightarrow> 'p done_processing_info result" where
  "finish_task m F dpi solver =
     (let num_flips = get_num_flips solver;
          dpi1 = dpi\<lparr> dp_solve_duration := m_solve m, dp_num_flips_done := of_nat num_flips,
                      dp_flips_per_second := m_fps m num_flips (m_solve m) \<rparr>
      in rbind (if found_solution solver
          then rbind (defined (check_assignment F solver)) (\<lambda>ok.
               rbind (require ok Assertion_failed) (\<lambda>_. Inr (dpi1\<lparr> dp_solved := True \<rparr>)))
          else Inr dpi1) (\<lambda>dpi2.
        Inr (dpi2\<lparr> dp_overall_duration := m_overall m, dp_instances_processed := 1 \<rparr>)))"

definition run_task ::
    "'p prec_ops \<Rightarrow> 'p prob_func_polynomial \<Rightarrow> 'p measured \<Rightarrow> nat \<Rightarrow> cnf_formula \<Rightarrow> 'p done_processing_info \<Rightarrow>
     'p done_processing_info result option" where
  "run_task ops pf m max_flips F dpi =
     (let rgen = rgen_new (m_seed m);
          dpi1 = dpi\<lparr> dp_num_vars := of_int (num_variables F), dp_num_clauses := of_int (num_clauses F),
                      dp_seed := of_nat (rgen_get_seed rgen) \<rparr>
      in case bf_new (m_junk m) (num_variables F) of
        None \<Rightarrow> Some (Inl Undefined_behaviour)
      | Some b \<Rightarrow> (case do_init_configuration F rgen_rand b rgen of
          None \<Rightarrow> Some (Inl Undefined_behaviour)
        | Some (config, g) \<Rightarrow> (case serial_instance F True (\<lambda>_ u. u) (m_mem m) (m_junk m) config () of
            None \<Rightarrow> Some (Inl Undefined_behaviour)
          | Some (solver, pfi) \<Rightarrow> do {
              r \<leftarrow> solve_loop (stop_task max_flips (m_running m))
                (do_flip F True ops (\<lambda>_ k. Some (polynomial_calc ops pf k, ())) rgen_rand rgen_get_rand_max)
                solver pfi g;
              Some (rbind r (\<lambda>(solver, pfi, g).
                finish_task m F (dpi1\<lparr> dp_init_duration := m_init m \<rparr>) solver)) })))"

definition execute ::
    "'p prec_ops \<Rightarrow> 'p prob_func_polynomial \<Rightarrow> bool \<Rightarrow> string option \<Rightarrow> 'p measured \<Rightarrow> 'p task \<Rightarrow> cnf_formula \<Rightarrow>
     (cnf_formula \<times> 'p task) result option" where
  "execute ops pf tolerated file m t F =
     (case initialize_sharing tolerated file F of
        None \<Rightarrow> None
      | Some (Inl e) \<Rightarrow> Some (if is_exception e then Inr (F, t) else Inl e)
      | Some (Inr F') \<Rightarrow>
          map_option (\<lambda>r. rbind r (\<lambda>dpi. Inr (F', t\<lparr> t_dpi := dpi \<rparr>)))
            (run_task ops pf m (t_max_flips t) F' (t_dpi t)))"

section \<open>What a task reports\<close>

interpretation ws: search "\<lambda>_ _. True" "\<lambda>_ k. Some (polynomial_calc double_ops pf k, ())" "\<lambda>_ u. u"
    "polynomial_calc double_ops pf" rgen_wf rgen_rand rgen_get_rand_max double_ops for pf
  by unfold_locales simp_all

lemma finish_task_eq:
  assumes F: "formula_ok F" and inv: "instance_inv F True solver"
  shows "finish_task m F dpi solver = Inr (dpi\<lparr> dp_solve_duration := m_solve m,
     dp_num_flips_done := of_nat (num_flips_done solver),
     dp_flips_per_second := m_fps m (num_flips_done solver) (m_solve m),
     dp_solved := (dp_solved dpi \<or> satisfies (bf_abs (belegung solver)) (clauses F)),
     dp_overall_duration := m_overall m, dp_instances_processed := 1 \<rparr>)"
  using check_assignment_ok [OF F inv] found_solution_iff [OF inv]
  by (cases "found_solution solver") (auto simp: finish_task_def get_num_flips_def Let_def require_def)

lemma run_task_ok:
  assumes F: "formula_ok F" and pf: "0 < poly_eps pf" and max: "0 < max_flips" "max_flips < 2 ^ 64"
  shows "\<exists>n \<sigma>. run_task double_ops pf m max_flips F dpi = Some (Inr (dpi\<lparr>
      dp_num_vars := of_int (num_variables F), dp_num_clauses := of_int (num_clauses F),
      dp_seed := of_nat (m_seed m), dp_init_duration := m_init m, dp_solve_duration := m_solve m,
      dp_num_flips_done := of_nat n, dp_flips_per_second := m_fps m n (m_solve m),
      dp_solved := (dp_solved dpi \<or> satisfies \<sigma> (clauses F)),
      dp_overall_duration := m_overall m, dp_instances_processed := 1 \<rparr>)) \<and>
    length \<sigma> = nat (num_variables F) \<and> n \<le> max_flips \<and>
    (satisfies \<sigma> (clauses F) \<or> n = max_flips \<or> \<not> m_running m n)"
proof -
  have nv: "0 \<le> num_variables F" "num_variables F + 7 < 2 ^ 31" using F by (simp_all add: formula_ok_def)
  obtain b where b: "bf_new (m_junk m) (num_variables F) = Some b" "bf_wf b" "bf_length b = num_variables F"
    by (rule bf_new_eq [OF nv])
  obtain config where c: "do_init_configuration F rgen_rand b (rgen_new (m_seed m)) =
      Some (config, snd (draws (rand_bit rgen_rand) (nat (num_variables F)) (rgen_new (m_seed m))))"
    "bf_wf config" "bf_length config = num_variables F"
    using init_configuration_ok [OF b(2,3), of rgen_rand "rgen_new (m_seed m)"] by (elim exE conjE) rule
  let ?g = "snd (draws (rand_bit rgen_rand) (nat (num_variables F)) (rgen_new (m_seed m)))"
  have g: "rgen_wf ?g" by (rule ws.draws_bit_good) (rule rgen_wf_new)
  obtain solver where s: "serial_instance F True (\<lambda>_ u. u) (m_mem m) (m_junk m) config () = Some (solver, ())"
    "instance_inv F True solver" "num_flips_done solver = 0"
    using serial_instance_ok [OF F c(2,3), of True "\<lambda>_ u. u" "m_mem m" "m_junk m" "()"]
    by (elim exE conjE) rule
  have pos: "\<forall>k. 0 \<le> k \<and> k \<le> max_num_breaks_possible F \<longrightarrow>
      p_less double_ops (p_zero double_ops) (polynomial_calc double_ops pf k)"
    using polynomial_pos [OF pf] by blast
  have stop: "stop_task max_flips (m_running m) max_flips" by (simp add: stop_task_def)
  obtain s' pfi' g' where l: "solve_loop (stop_task max_flips (m_running m))
      (do_flip F True double_ops (\<lambda>_ k. Some (polynomial_calc double_ops pf k, ())) rgen_rand rgen_get_rand_max)
      solver () ?g = Some (Inr (s', pfi', g'))" "instance_inv F True s'"
    "found_solution s' \<or> stop_task max_flips (m_running m) (num_flips_done s')" "num_flips_done s' \<le> max_flips"
    using ws.solve_loop_ends [where stop = "stop_task max_flips (m_running m)" and M = max_flips,
        OF F pos stop max(2) s(2) TrueI g] s(3) max(1) by auto
  have "length (bf_abs (belegung s')) = nat (num_variables F)" using l(2) by (auto simp: instance_inv_def)
  moreover have "satisfies (bf_abs (belegung s')) (clauses F) \<or> num_flips_done s' = max_flips \<or>
      \<not> m_running m (num_flips_done s')"
    using l(3,4) found_solution_iff [OF l(2)] by (auto simp: stop_task_def)
  moreover have "rgen_get_seed (rgen_new (m_seed m)) = m_seed m"
    by (simp add: rgen_get_seed_def rgen_new_def)
  then have "run_task double_ops pf m max_flips F dpi = Some (finish_task m F (dpi\<lparr>
      dp_num_vars := of_int (num_variables F), dp_num_clauses := of_int (num_clauses F),
      dp_seed := of_nat (m_seed m), dp_init_duration := m_init m \<rparr>) s')"
    by (simp only: run_task_def Let_def b(1) c(1) s(1) l(1) option.case prod.case
        Option.bind.simps rbind_simps)
  ultimately show ?thesis
    using l(4) by (intro exI [of _ "num_flips_done s'"] exI [of _ "bf_abs (belegung s')"] conjI)
      (simp_all add: finish_task_eq [OF F l(2)])
qed

lemma task_new_limits:
  "0 < t_max_flips (task_new ops pim c tid)" "t_max_flips (task_new ops pim c tid) < 2 ^ 64"
  "\<not> dp_solved (t_dpi (task_new ops pim c tid))"
  using unat_u32_less [of "anzahl_flips pim"]
  by (simp_all add: task_new_def default_max_flips_def unat_gt_0)

lemma execute_ok:
  assumes "formula_ok F" "clauses F \<noteq> []" "0 < poly_eps pf" "0 < t_max_flips t" "t_max_flips t < 2 ^ 64"
    and "\<not> dp_solved (t_dpi t)"
  shows "\<exists>t' \<sigma>. execute double_ops pf tolerated file m t F = Some (Inr (F, t')) \<and>
    t_name t' = t_name t \<and> dp_task_id (t_dpi t') = dp_task_id (t_dpi t) \<and>
    dp_instances_processed (t_dpi t') = 1 \<and> length \<sigma> = nat (num_variables F) \<and>
    dp_solved (t_dpi t') = satisfies \<sigma> (clauses F) \<and>
    unat (dp_num_flips_done (t_dpi t')) \<le> t_max_flips t \<and>
    (dp_solved (t_dpi t') \<or> unat (dp_num_flips_done (t_dpi t')) = t_max_flips t \<or>
     \<not> m_running m (unat (dp_num_flips_done (t_dpi t'))))"
proof -
  obtain n \<sigma> where r: "run_task double_ops pf m (t_max_flips t) F (t_dpi t) = Some (Inr ((t_dpi t)\<lparr>
      dp_num_vars := of_int (num_variables F), dp_num_clauses := of_int (num_clauses F),
      dp_seed := of_nat (m_seed m), dp_init_duration := m_init m, dp_solve_duration := m_solve m,
      dp_num_flips_done := of_nat n, dp_flips_per_second := m_fps m n (m_solve m),
      dp_solved := (dp_solved (t_dpi t) \<or> satisfies \<sigma> (clauses F)),
      dp_overall_duration := m_overall m, dp_instances_processed := 1 \<rparr>))"
    "length \<sigma> = nat (num_variables F)" "n \<le> t_max_flips t"
    "satisfies \<sigma> (clauses F) \<or> n = t_max_flips t \<or> \<not> m_running m n"
    using run_task_ok [OF assms(1,3,4,5), of m "t_dpi t"] by (elim exE conjE) rule
  have "unat (of_nat n :: u64) = n" using r(3) assms(5) by (simp add: unsigned_of_nat take_bit_nat_eq_self)
  moreover from r(1) obtain d where d: "run_task double_ops pf m (t_max_flips t) F (t_dpi t) = Some (Inr d)"
    "dp_task_id d = dp_task_id (t_dpi t)" "dp_instances_processed d = 1"
    "dp_solved d = (dp_solved (t_dpi t) \<or> satisfies \<sigma> (clauses F))" "dp_num_flips_done d = of_nat n"
    by simp
  ultimately show ?thesis
    using r(2-4) assms(2,6)
    by (intro exI [of _ "t\<lparr> t_dpi := d \<rparr>"] exI [of _ \<sigma>]) (simp add: execute_def initialize_sharing_def)
qed



end
