(* ===== verification/Worker.thy ===== *)
theory Worker
  imports Worker_Task
begin

text \<open>
  A worker process (\<open>communication/worker.hpp\<close>, \<open>worker.cpp\<close> and the queues of
  \<open>worker_task.hpp\<close>): the main thread, which talks to the server, and the threads that
  execute tasks. The state holds what the threads share, where each of them stands and what
  was sent; a step is one critical section of the code, or what a thread does between two of
  them. A step that is not enabled or does not return (reading a file that cannot be opened)
  is \<open>None\<close>; an error in the result of a step is the end of the process.
\<close>

section \<open>State\<close>

definition num_probsat_threads_per_worker :: u32 where "num_probsat_threads_per_worker = 2"

datatype 'p worker_message =
    Server_req_max nat
  | Found_solution solution_info
  | Done_processing "'p done_processing_info"
  | Get_instances u32
  | Disconnect

datatype s2w =
    S2W_REQ_MAX_CMD_LENGTH "int packet"
  | S2W_ACTIVATE_WORKER
  | S2W_SEND_INSTANCES "job list packet"
  | S2W_TERMINATE
  | S2W_other int

text \<open>
  A thread is in \<open>get_task\<close>, holds the task it took, or holds the task it executed. The main
  thread waits for its activation, is at the head of its loop, waits for the answer to a
  request (with the number it asked for), joins the threads, or has taken its leave.
\<close>

datatype 'p thread =
    Polling
  | Holding "'p task"
  | Executed "'p task"
  | Ended

datatype main_thread =
    Awaiting_activation
  | Looping
  | Receiving u32
  | Joining
  | Finished

record 'p worker =
  w_running :: bool
  w_tasks :: "'p task list"
  w_tasks_done :: "'p task list"
  w_instances_to_get :: u32
  w_formulas :: "cnf_formula list"
  w_threads :: "'p thread list"
  w_main :: main_thread
  w_capacity :: nat
  current_server_max_cmd_length :: nat
  w_sent :: "'p worker_message list"

record 'p worker_env =
  we_arith :: "'p prec_ops"
  we_pfi :: "'p prob_func_polynomial"
  we_tolerated :: bool
  we_length :: "'p field list \<Rightarrow> nat"
  we_grown :: "nat \<Rightarrow> nat \<Rightarrow> nat"
  we_file :: "string \<Rightarrow> string option"

definition worker_init :: "'p worker" where
  "worker_init = \<lparr> w_running = True, w_tasks = [], w_tasks_done = [], w_instances_to_get = 0,
     w_formulas = [], w_threads = [], w_main = Awaiting_activation,
     w_capacity = default_max_cmd_length, current_server_max_cmd_length = default_max_cmd_length,
     w_sent = [] \<rparr>"

abbreviation worker_header :: string where "worker_header \<equiv> ''worker: ''"

text \<open>An error of the main thread comes with the state it left.\<close>

type_synonym 'p outcome = "(cpp_error \<times> 'p worker) + 'p worker"

section \<open>Messages to the server\<close>

definition server_send ::
    "'p worker_env \<Rightarrow> 'p field list \<Rightarrow> 'p worker_message \<Rightarrow> 'p worker \<Rightarrow> 'p outcome" where
  "server_send env items msg w =
     (let data_len = we_length env items; w1 = w\<lparr> w_capacity := we_grown env (w_capacity w) data_len \<rparr>
      in rbind (thrown w1 (ensure_length data_len (current_server_max_cmd_length w1))) (\<lambda>(announced, req).
      Inr (w1\<lparr> current_server_max_cmd_length := announced,
        w_sent := w_sent w1 @ (case req of None \<Rightarrow> [] | Some n \<Rightarrow> [Server_req_max n]) @ [msg] \<rparr>)))"

definition get_instances_send :: "'p worker_env \<Rightarrow> u32 \<Rightarrow> 'p worker \<Rightarrow> 'p outcome" where
  "get_instances_send env n = server_send env [Value4b n] (Get_instances n)"

abbreviation (input) w2s_found_solution_send :: "'p worker_env \<Rightarrow> solution_info \<Rightarrow> 'p worker \<Rightarrow> 'p outcome" where
  "w2s_found_solution_send env info \<equiv> server_send env (serialize_solution_info info) (Found_solution info)"

abbreviation (input) done_processing_send :: "'p worker_env \<Rightarrow> 'p done_processing_info \<Rightarrow> 'p worker \<Rightarrow> 'p outcome" where
  "done_processing_send env info \<equiv> server_send env (serialize_done_processing_info info) (Done_processing info)"

definition solution_of :: "'p task \<Rightarrow> solution_info" where
  "solution_of t = \<lparr> si_seed = dp_seed (t_dpi t), si_num_flips_done = dp_num_flips_done (t_dpi t),
     si_solve_duration = dp_solve_duration (t_dpi t), si_num_vars = dp_num_vars (t_dpi t),
     si_num_clauses = dp_num_clauses (t_dpi t), si_filename = t_name t \<rparr>"

definition return_task :: "'p worker_env \<Rightarrow> 'p task \<Rightarrow> 'p worker \<Rightarrow> 'p outcome" where
  "return_task env t w =
     rbind (if dp_solved (t_dpi t)
        then w2s_found_solution_send env (solution_of t) w
        else Inr w) (\<lambda>w1.
     if 0 \<ge> dp_instances_processed (t_dpi t)
     then Inl (Runtime_error ''worker was unable to solve task!'', w1)
     else done_processing_send env (t_dpi t) w1)"

section \<open>Commands of the server\<close>

fun create_tasks :: "'p worker_env \<Rightarrow> job list \<Rightarrow> 'p worker \<Rightarrow> 'p outcome option" where
  "create_tasks env [] w = Some (Inr w)"
| "create_tasks env (j # jobs) w =
     (if \<not> 0 < num_instances_to_start j then Some (Inl (Assertion_failed, w))
      else (case initialize_sharing (we_tolerated env) (we_file env (filename (job_metadata j))) formula_new of
        None \<Rightarrow> None
      | Some (Inl e) \<Rightarrow> Some (Inl (e, w))
      | Some (Inr F) \<Rightarrow> create_tasks env jobs (w\<lparr>
          w_formulas := w_formulas w @ [F],
          w_tasks := w_tasks w @ replicate (unat (num_instances_to_start j))
            (task_new (we_arith env) (job_metadata j) (length (w_formulas w)) (job_task_id j)),
          w_instances_to_get := w_instances_to_get w - num_instances_to_start j \<rparr>)))"

abbreviation (input) send_instances_process :: "nat \<Rightarrow> job list packet \<Rightarrow> job list result" where
  "send_instances_process cap p \<equiv> received worker_header ''SEND_INSTANCES'' 0 cap p"

definition process_s2w_send_instances ::
    "'p worker_env \<Rightarrow> job list packet \<Rightarrow> 'p worker \<Rightarrow> 'p outcome option" where
  "process_s2w_send_instances env p w =
     (case send_instances_process (w_capacity w) p of
        Inl e \<Rightarrow> Some (Inl (e, w))
      | Inr jobs \<Rightarrow> if \<not> w_running w then Some (Inr w)
          else if jobs \<noteq> [] then create_tasks env jobs w else Some (Inr w))"

fun process_server_cmd :: "'p worker_env \<Rightarrow> s2w \<Rightarrow> 'p worker \<Rightarrow> 'p outcome option" where
  "process_server_cmd env (S2W_REQ_MAX_CMD_LENGTH p) w =
     Some (rbind (thrown w (req_max_transfer_size_process worker_header p (w_capacity w))) (\<lambda>cap.
       Inr (w\<lparr> w_capacity := cap \<rparr>)))"
| "process_server_cmd env S2W_ACTIVATE_WORKER w = Some (Inr w)"
| "process_server_cmd env (S2W_SEND_INSTANCES p) w = process_s2w_send_instances env p w"
| "process_server_cmd env S2W_TERMINATE w = Some (Inr (w\<lparr> w_running := False \<rparr>))"
| "process_server_cmd env (S2W_other tag) w =
     Some (Inl (Runtime_error (worker_header @ ''unknown command (S2W)''), w))"

section \<open>The threads\<close>

text \<open>
  \<open>worker_func\<close> of the \<open>i\<close>-th thread: one round of \<open>get_task\<close>, the test of \<open>running\<close> after
  it with the execution of the task, and the hand-over of the result.
\<close>

definition set_thread :: "nat \<Rightarrow> 'p thread \<Rightarrow> 'p worker \<Rightarrow> 'p worker" where
  "set_thread i th w = w\<lparr> w_threads := (w_threads w)[i := th] \<rparr>"

definition get_task :: "nat \<Rightarrow> 'p worker \<Rightarrow> 'p worker" where
  "get_task i w =
     (if \<not> w_running w then set_thread i Ended w
      else (case w_tasks w of [] \<Rightarrow> w | t # ts \<Rightarrow> set_thread i (Holding t) (w\<lparr> w_tasks := ts \<rparr>)))"

definition execute_task ::
    "'p worker_env \<Rightarrow> nat \<Rightarrow> 'p measured \<Rightarrow> 'p task \<Rightarrow> 'p worker \<Rightarrow> 'p worker result option" where
  "execute_task env i m t w =
     (case vget (w_formulas w) (int (t_cnf t)) of
        None \<Rightarrow> Some (Inl Assertion_failed)
      | Some F \<Rightarrow> map_option (\<lambda>r. rbind r (\<lambda>(F', t').
          Inr (set_thread i (Executed t') (w\<lparr> w_formulas := (w_formulas w)[t_cnf t := F'] \<rparr>))))
          (execute (we_arith env) (we_pfi env) (we_tolerated env) (we_file env (t_name t)) m t F))"

definition worker_func ::
    "'p worker_env \<Rightarrow> nat \<Rightarrow> 'p measured \<Rightarrow> 'p worker \<Rightarrow> 'p worker result option" where
  "worker_func env i m w =
     (if i < length (w_threads w) then
       (case w_threads w ! i of
          Polling \<Rightarrow> Some (Inr (get_task i w))
        | Holding t \<Rightarrow> if \<not> w_running w then Some (Inr (set_thread i Ended w))
            else execute_task env i m t w
        | Executed t \<Rightarrow> Some (Inr (set_thread i Polling (w\<lparr> w_tasks_done := w_tasks_done w @ [t],
            w_instances_to_get := w_instances_to_get w + 1 \<rparr>)))
        | Ended \<Rightarrow> None)
      else None)"

section \<open>The main thread\<close>

text \<open>
  \<open>recieve_server_cmd\<close> takes one message; it is the main thread's state that says for which
  one it waits. With the activation the threads start.
\<close>

definition start_threads :: "'p worker \<Rightarrow> 'p worker" where
  "start_threads w = w\<lparr> w_threads := replicate (unat num_probsat_threads_per_worker) Polling,
     w_instances_to_get := num_probsat_threads_per_worker, w_main := Looping \<rparr>"

definition receive_server_cmd :: "'p worker_env \<Rightarrow> s2w \<Rightarrow> 'p worker \<Rightarrow> 'p outcome option" where
  "receive_server_cmd env msg w = (case w_main w of
     Awaiting_activation \<Rightarrow> map_option (\<lambda>r. rbind r (\<lambda>w'.
       Inr (if msg = S2W_ACTIVATE_WORKER then start_threads w' else w'))) (process_server_cmd env msg w)
   | Receiving n \<Rightarrow> map_option (\<lambda>r. rbind r (\<lambda>w'.
       Inr (case msg of S2W_SEND_INSTANCES _ \<Rightarrow> w'\<lparr> w_main := Looping \<rparr> | _ \<Rightarrow> w'))) (process_server_cmd env msg w)
   | _ \<Rightarrow> None)"

text \<open>
  One round of the main loop. \<open>probe\<close> is what \<open>MPI_Iprobe\<close> reports; the message is not
  received, so its content is what the library makes of the bytes in the buffer.
\<close>

definition instances_buffered :: u32 where
  "instances_buffered = num_probsat_threads_per_worker - num_probsat_threads_per_worker"

definition request_instances :: "'p worker_env \<Rightarrow> 'p worker \<Rightarrow> 'p outcome" where
  "request_instances env w =
     (if w_running w \<and> min instances_buffered num_probsat_threads_per_worker < w_instances_to_get w
      then rbind (get_instances_send env (w_instances_to_get w) w) (\<lambda>w'.
        Inr (w'\<lparr> w_main := Receiving (w_instances_to_get w') \<rparr>))
      else Inr w)"

definition main_loop_round :: "'p worker_env \<Rightarrow> s2w option \<Rightarrow> 'p worker \<Rightarrow> 'p outcome option" where
  "main_loop_round env probe w =
     (if \<not> w_running w then Some (Inr (w\<lparr> w_main := Joining \<rparr>))
      else (case w_tasks_done w of
        t # ts \<Rightarrow> Some (return_task env t (w\<lparr> w_tasks_done := ts \<rparr>))
      | [] \<Rightarrow> map_option (\<lambda>r. rbind r (request_instances env))
          (case probe of None \<Rightarrow> Some (Inr w) | Some msg \<Rightarrow> process_server_cmd env msg w)))"

text \<open>
  After the loop: the threads are joined, what they executed is returned, and the process
  takes its leave. An exception is caught with the same message at its end; but as long as
  the vector of threads is alive and they were not joined, unwinding the stack destroys
  joinable threads, and \<open>std::terminate\<close> ends the process.
\<close>

definition leave_server :: "'p worker \<Rightarrow> 'p worker" where
  "leave_server w = w\<lparr> w_main := Finished, w_sent := w_sent w @ [Disconnect] \<rparr>"

definition main_join :: "'p worker_env \<Rightarrow> 'p worker \<Rightarrow> 'p outcome option" where
  "main_join env w =
     (if list_all (\<lambda>th. th = Ended) (w_threads w)
      then Some (case w_tasks_done w of
          t # ts \<Rightarrow> return_task env t (w\<lparr> w_tasks_done := ts \<rparr>)
        | [] \<Rightarrow> Inr (leave_server w))
      else None)"

definition main_catch :: "'p worker \<Rightarrow> 'p outcome \<Rightarrow> 'p worker result" where
  "main_catch before r = (case r of
     Inr w \<Rightarrow> Inr w
   | Inl (e, w) \<Rightarrow> (if is_exception e \<and> (w_main before = Awaiting_activation \<or> w_main before = Joining)
       then Inr (leave_server w) else Inl e))"

datatype 'p worker_event =
    Thread_runs nat "'p measured"
  | Main_round "s2w option"
  | Main_receives s2w

fun worker_step :: "'p worker_env \<Rightarrow> 'p worker_event \<Rightarrow> 'p worker \<Rightarrow> 'p worker result option" where
  "worker_step env (Thread_runs i m) w = worker_func env i m w"
| "worker_step env (Main_round probe) w = (case w_main w of
     Looping \<Rightarrow> map_option (main_catch w) (main_loop_round env probe w)
   | Joining \<Rightarrow> map_option (main_catch w) (main_join env w)
   | _ \<Rightarrow> None)"
| "worker_step env (Main_receives msg) w = map_option (main_catch w) (receive_server_cmd env msg w)"

fun worker_steps :: "'p worker_env \<Rightarrow> 'p worker_event list \<Rightarrow> 'p worker \<Rightarrow> 'p worker result option" where
  "worker_steps env [] w = Some (Inr w)"
| "worker_steps env (ev # evs) w = (case worker_step env ev w of
     Some (Inr w') \<Rightarrow> worker_steps env evs w'
   | r \<Rightarrow> r)"

text \<open>
  The server answers a request with jobs of at most as many instances, and sends jobs at no
  other time. A run with the number of instances the worker took from such answers.
\<close>

definition jobs_total :: "job list \<Rightarrow> nat" where
  "jobs_total jobs = sum_list (map (\<lambda>j. unat (num_instances_to_start j)) jobs)"

fun answers :: "'p worker_event \<Rightarrow> 'p worker \<Rightarrow> bool" where
  "answers (Main_receives (S2W_SEND_INSTANCES p)) w = (\<exists>n. w_main w = Receiving n \<and>
     (case snd p of None \<Rightarrow> True | Some jobs \<Rightarrow> jobs_total jobs \<le> unat n))"
| "answers (Main_round (Some (S2W_SEND_INSTANCES p))) w = False"
| "answers _ w = True"

fun granted :: "'p worker_event \<Rightarrow> 'p worker \<Rightarrow> nat" where
  "granted (Main_receives (S2W_SEND_INSTANCES (_, Some jobs))) w =
     (if w_running w then jobs_total jobs else 0)"
| "granted _ w = 0"

inductive worker_run :: "'p worker_env \<Rightarrow> nat \<Rightarrow> 'p worker \<Rightarrow> bool" for env where
  run_init: "worker_run env 0 worker_init"
| run_step: "\<lbrakk> worker_run env k w; answers ev w; worker_step env ev w = Some (Inr w') \<rbrakk>
    \<Longrightarrow> worker_run env (k + granted ev w) w'"

end
