(* ===== verification/Processes.thy ===== *)
theory Processes
  imports Manager_Correct Server Worker Dimacs
begin

text \<open>
  The processes from their start to their end, around the main loops: the calls of MPI by which
  the manager starts the server and the workers, the server publishes its name and the workers
  look it up, and the calls by which every process ends its connections. What MPI answers (the
  threading level, whether there is a parent) is an argument; the calls are listed in the order
  in which they are made.
\<close>

section \<open>Calls\<close>

text \<open>The other side of a connection, seen from the process that makes the call.\<close>

datatype mpi_link = Link_manager | Link_server | Link_workers nat | Link_world

datatype mpi_call =
    Mpi_Init_thread
  | Mpi_Open_port
  | Mpi_Publish_name string
  | Mpi_Lookup_name string
  | Mpi_Comm_connect
  | Mpi_Comm_spawn string "string list" "string option"
  | Mpi_Unpublish_name string
  | Mpi_Send_disconnect mpi_link
  | Mpi_Barrier mpi_link
  | Mpi_Comm_disconnect mpi_link
  | Mpi_T_finalize

record mpi =
  mpi_multiple :: bool
  mpi_initialized :: bool
  mpi_parent :: bool
  mpi_rank :: nat
  mpi_lookup :: bool
  mpi_connect :: bool

text \<open>\<open>MPI_Init_thread\<close> with the two checks after it, the same in all three processes.\<close>

definition init_thread :: "mpi \<Rightarrow> unit result" where
  "init_thread mpi =
     rbind (require (mpi_multiple mpi) (Runtime_error ''MPI does not provide needed threading level!'')) (\<lambda>_.
     require (mpi_initialized mpi) Assertion_failed)"

text \<open>The end of a process: the last barrier and \<open>MPI_T_finalize\<close>.\<close>

definition finalize :: "mpi \<Rightarrow> mpi_call list \<times> unit result" where
  "finalize mpi =
     (if mpi_initialized mpi then ([Mpi_Barrier Link_world, Mpi_T_finalize], Inr ()) else ([], Inl Assertion_failed))"

section \<open>The server\<close>

definition server_setup :: "mpi \<Rightarrow> string list \<Rightarrow> mpi_call list \<times> string result" where
  "server_setup mpi argv =
     (if length argv < 2 then ([], Inl (Runtime_error ''name for problem instance required!''))
      else (case init_thread mpi of
        Inl e \<Rightarrow> ([Mpi_Init_thread], Inl e)
      | Inr _ \<Rightarrow>
          if \<not> mpi_parent mpi
          then ([Mpi_Init_thread], Inl (Runtime_error ''server needs to be spawned by a manager process''))
          else ([Mpi_Init_thread, Mpi_Open_port, Mpi_Publish_name (argv ! 1)], Inr (argv ! 1))))"

text \<open>The end of the connection to a worker, in the handler of its disconnection.\<close>

definition disconnect_worker :: "nat \<Rightarrow> mpi_call list" where
  "disconnect_worker c = [Mpi_Barrier (Link_workers c), Mpi_Comm_disconnect (Link_workers c)]"

definition server_shutdown :: "mpi \<Rightarrow> string \<Rightarrow> mpi_call list" where
  "server_shutdown mpi server_name =
     [Mpi_Unpublish_name server_name, Mpi_Send_disconnect Link_manager, Mpi_Barrier Link_manager,
      Mpi_Comm_disconnect Link_manager, Mpi_Barrier Link_world, Mpi_Barrier Link_world] @ fst (finalize mpi)"

definition server_process ::
    "'p server_env \<Rightarrow> mpi \<Rightarrow> string list \<Rightarrow> 'p probes list \<Rightarrow> mpi_call list \<times> 'p server_outcome" where
  "server_process env mpi argv inputs = (case server_setup mpi argv of
     (calls, Inl e) \<Rightarrow> (calls, Server_aborted e)
   | (calls, Inr server_name) \<Rightarrow> (case server_main env (int (length argv)) (mpi_multiple mpi) (mpi_parent mpi) inputs of
       Server_left e \<Rightarrow> (calls @ server_shutdown mpi server_name, Server_left e)
     | r \<Rightarrow> (calls, r)))"

section \<open>A worker\<close>

definition worker_setup :: "mpi \<Rightarrow> string list \<Rightarrow> mpi_call list \<times> string result" where
  "worker_setup mpi argv =
     (if length argv < 2 then ([], Inl (Runtime_error ''name for problem instance required!''))
      else (case init_thread mpi of
        Inl e \<Rightarrow> ([Mpi_Init_thread], Inl e)
      | Inr _ \<Rightarrow>
          if \<not> mpi_parent mpi
          then ([Mpi_Init_thread], Inl (Runtime_error ''worker needs to be spawned by a manager process''))
          else if \<not> mpi_lookup mpi
          then ([Mpi_Init_thread, Mpi_Lookup_name (argv ! 1)], Inl Assertion_failed)
          else if \<not> mpi_connect mpi
          then ([Mpi_Init_thread, Mpi_Lookup_name (argv ! 1), Mpi_Comm_connect], Inl Assertion_failed)
          else ([Mpi_Init_thread, Mpi_Lookup_name (argv ! 1), Mpi_Comm_connect], Inr (argv ! 1))))"

text \<open>
  What follows the main loop of a worker. The message \<open>DISCONNECT\<close> is the last one of
  \<open>leave_server\<close>.
\<close>

definition worker_shutdown :: "mpi \<Rightarrow> mpi_call list" where
  "worker_shutdown mpi =
     [Mpi_Send_disconnect Link_server, Mpi_Barrier Link_server, Mpi_Comm_disconnect Link_server,
      Mpi_Barrier Link_manager, Mpi_Comm_disconnect Link_manager] @ fst (finalize mpi)"

text \<open>
  The whole \<open>main\<close>. An exception before there is a connection to the server ends the process:
  the message \<open>DISCONNECT\<close> that follows it has no receiver.
\<close>

datatype 'p worker_outcome =
    Worker_working "'p worker"
  | Worker_left "'p worker"
  | Worker_aborted cpp_error

definition worker_main ::
    "'p worker_env \<Rightarrow> mpi \<Rightarrow> string list \<Rightarrow> 'p worker_event list \<Rightarrow> (mpi_call list \<times> 'p worker_outcome) option" where
  "worker_main env mpi argv events = (case worker_setup mpi argv of
     (calls, Inl e) \<Rightarrow> Some (calls, Worker_aborted e)
   | (calls, Inr server_name) \<Rightarrow> (case worker_steps env events worker_init of
       None \<Rightarrow> None
     | Some (Inl e) \<Rightarrow> Some (calls, Worker_aborted e)
     | Some (Inr w) \<Rightarrow>
         if w_main w = Finished then Some (calls @ worker_shutdown mpi, Worker_left w)
         else Some (calls, Worker_working w)))"

section \<open>The manager\<close>

text \<open>
  The arguments are the name, the file for the statistic and the file of hosts. The server is
  started with the name as its only argument.
\<close>

definition manager_setup :: "mpi \<Rightarrow> string list \<Rightarrow> mpi_call list \<times> string result" where
  "manager_setup mpi argv =
     (if length argv < 2 \<or> length argv > 4
      then ([], Inl (Runtime_error ''name for problem instance and optional an output filename (or _no_output_file) as well as mpi hostfile is required!''))
      else let server_name = argv ! 1; hostfile = (if 4 \<le> length argv then Some (argv ! 3) else None)
        in (case init_thread mpi of
          Inl e \<Rightarrow> ([Mpi_Init_thread], Inl e)
        | Inr _ \<Rightarrow>
            if 0 \<noteq> mpi_rank mpi
            then ([Mpi_Init_thread], Inl (Runtime_error (''manager: got id '' @ show_nat (mpi_rank mpi) @ '' > 0, but you probably want only one manager...'')))
            else ([Mpi_Init_thread, Mpi_Comm_spawn ''server'' [server_name] hostfile], Inr server_name)))"

text \<open>Workers that share a communicator are left with it once: \<open>last\<close> is the one before.\<close>

fun leave_workers :: "nat option \<Rightarrow> nat list \<Rightarrow> mpi_call list" where
  "leave_workers last_comm [] = []"
| "leave_workers last_comm (w # workers) =
     (if last_comm \<noteq> Some w
      then Mpi_Barrier (Link_workers w) # Mpi_Comm_disconnect (Link_workers w) # leave_workers (Some w) workers
      else leave_workers last_comm workers)"

definition manager_shutdown :: "mpi \<Rightarrow> 'p manager \<Rightarrow> mpi_call list" where
  "manager_shutdown mpi m =
     [Mpi_Barrier Link_server, Mpi_Comm_disconnect Link_server] @ leave_workers None (mg_workers m) @ fst (finalize mpi)"

text \<open>The durations, in milliseconds, that are printed after the loop and at the end.\<close>

definition duration_line :: "string \<Rightarrow> 'p \<Rightarrow> 'p shown list" where
  "duration_line label ms = [Shown_text (manager_header @ label), Shown_real ms, Shown_text '' ms'']"

definition manager_running_duration :: "'p \<Rightarrow> 'p manager \<Rightarrow> 'p manager" where
  "manager_running_duration ms m = outp_stat (duration_line ''running duration: '' ms) m"

definition manager_durations :: "'p \<Rightarrow> 'p \<Rightarrow> 'p manager \<Rightarrow> 'p manager" where
  "manager_durations overhead overall m =
     fold outp_stat [duration_line ''manager overhead: '' overhead, duration_line ''overall duration: '' overall] m"

text \<open>
  The whole \<open>main\<close> of the manager. An exception of the loop is printed and the process ends
  its connections as after a regular end, without the statistic; an exception before there is
  a server leaves nothing to disconnect from, which MPI treats as fatal.
\<close>

datatype 'p manager_outcome_all =
    Manager_running "'p manager"
  | Manager_left "cpp_error option" "'p manager"
  | Manager_aborted cpp_error

definition manager_main ::
    "'p manager_env \<Rightarrow> mpi \<Rightarrow> 'p \<times> 'p \<times> 'p \<Rightarrow> string list \<Rightarrow> 'p s2m list \<Rightarrow> bool list \<Rightarrow>
     (mpi_call list \<times> 'p manager_outcome_all) option" where
  "manager_main env mpi durations argv inbox flags = (case durations of (running_ms, overhead_ms, overall_ms) \<Rightarrow>
     (case manager_setup mpi argv of
        (calls, Inl e) \<Rightarrow> Some (calls, Manager_aborted e)
      | (calls, Inr _) \<Rightarrow> (case manager_start env argv inbox of
          Inl e \<Rightarrow> Some (calls, Manager_aborted e)
        | Inr m \<Rightarrow> (case manager_loop env flags m of
            None \<Rightarrow> None
          | Some (Inr m1) \<Rightarrow>
              if mg_running m1 then Some (calls, Manager_running m1)
              else Some (calls @ manager_shutdown mpi m1, Manager_left None
                (manager_durations overhead_ms overall_ms (manager_running_duration running_ms (manager_end m1))))
          | Some (Inl (e, m1)) \<Rightarrow>
              if is_exception e
              then Some (calls @ manager_shutdown mpi m1, Manager_left (Some e) (manager_durations overhead_ms overall_ms m1))
              else Some (calls, Manager_aborted e)))))"

section \<open>The error output\<close>

text \<open>
  \<open>print_exception\<close>, for an exception and those nested in it; \<open>what\<close> gives the texts of the
  exceptions of the library.
\<close>

fun what :: "(cpp_error \<Rightarrow> string) \<Rightarrow> cpp_error \<Rightarrow> string" where
  "what library (Runtime_error msg) = msg"
| "what library (Nested_error linectr field e) =
     ''fatal error while reading input, currently parsing in line '' @ show_nat linectr @ '':'' @ [CHR 0x0A] @ field"
| "what library e = library e"

fun print_exception :: "(cpp_error \<Rightarrow> string) \<Rightarrow> string \<Rightarrow> cpp_error \<Rightarrow> nat \<Rightarrow> string list" where
  "print_exception library info (Nested_error linectr field e) level =
     (replicate level (CHR 0x09) @ info @ '' exception: '' @ what library (Nested_error linectr field e)) #
     print_exception library info e (level + 1)"
| "print_exception library info e level = [replicate level (CHR 0x09) @ info @ '' exception: '' @ what library e]"

end
