(* ===== verification/Server_Invariant.thy ===== *)
theory Server_Invariant
  imports Server
begin

text \<open>
  The invariant of the server's book-keeping: which task is scheduled, how many instances of
  it were handed out and how many came back, and that the vectors indexed by a worker have
  the same length. Every handler keeps it.
\<close>

section \<open>Sending changes nothing but the messages\<close>

lemma emit_simps [simp]:
  "available_tasks (emit ms st) = available_tasks st" "task_order (emit ms st) = task_order st"
  "work_units (emit ms st) = work_units st" "work_unit_requests (emit ms st) = work_unit_requests st"
  "transfer_sizes (emit ms st) = transfer_sizes st" "worker_comm_buffers (emit ms st) = worker_comm_buffers st"
  "running (emit ms st) = running st" "solution_found (emit ms st) = solution_found st"
  "terminated_workers (emit ms st) = terminated_workers st" "statistic_send (emit ms st) = statistic_send st"
  "wait_for_more_files (emit ms st) = wait_for_more_files st"
  "terminate_after_solution_was_found (emit ms st) = terminate_after_solution_was_found st"
  "short_statistic (emit ms st) = short_statistic st"
  "num_instances_in_processing (emit ms st) = num_instances_in_processing st"
  "accepted (emit ms st) = accepted st" "sent (emit ms st) = sent st @ ms"
  by (simp_all add: emit_def)

lemma emit_emit [simp]: "emit ms (emit ns st) = emit (ns @ ms) st" "emit [] st = st"
  by (simp_all add: emit_def)

text \<open>The part of the state that no sending changes, and its fields.\<close>

definition books :: "'p server \<Rightarrow> 'p server" where
  "books st = st\<lparr> sent := [], command_capacity := 0, current_manager_max_cmd_length := 0 \<rparr>"

lemma books_eqD:
  "books st = books st' \<Longrightarrow>
    available_tasks st = available_tasks st' \<and> task_order st = task_order st' \<and>
    work_units st = work_units st' \<and> work_unit_requests st = work_unit_requests st' \<and>
    transfer_sizes st = transfer_sizes st' \<and> worker_comm_buffers st = worker_comm_buffers st' \<and>
    running st = running st' \<and> solution_found st = solution_found st' \<and>
    terminated_workers st = terminated_workers st' \<and> statistic_send st = statistic_send st' \<and>
    wait_for_more_files st = wait_for_more_files st' \<and> short_statistic st = short_statistic st' \<and>
    terminate_after_solution_was_found st = terminate_after_solution_was_found st' \<and>
    num_instances_in_processing st = num_instances_in_processing st' \<and> accepted st = accepted st'"
  by (cases st; cases st') (simp add: books_def)

lemma books_emit [simp]: "books (emit ms st) = books st"
  by (simp add: books_def emit_def)

lemma manager_send_frame: "manager_send env fs m st = Inr st' \<Longrightarrow> books st' = books st"
  by (auto simp: manager_send_def rbind_Inr_iff Let_def split_def) (simp add: books_def)

lemma manager_send_sent:
  assumes "manager_send env fs m st = Inr st'"
  shows "\<exists>ms. sent st' = sent st @ ms @ [m] \<and> set ms \<subseteq> range To_manager_req_max"
  using assms by (auto simp: manager_send_def rbind_Inr_iff Let_def split: option.splits)

text \<open>Messages to the manager that fit the largest buffer never fail.\<close>

lemma manager_send_defined:
  assumes "encoded_length env fs \<le> absolute_max_cmd_length"
  shows "\<exists>st'. manager_send env fs m st = Inr st'"
  using assms by (auto simp: manager_send_def ensure_length_def req_max_transfer_size_send_def Let_def)

lemma activate_worker_send_frame: "activate_worker_send i r st = Inr st' \<Longrightarrow> books st' = books st"
  by (auto simp: activate_worker_send_def rbind_Inr_iff)

lemma foldR_books:
  assumes "\<And>x s s'. f x s = Inr s' \<Longrightarrow> books s' = books s" "foldR f xs st = Inr st'"
  shows "books st' = books st"
  using assms(2)
proof (induction xs arbitrary: st)
  case (Cons x xs)
  then obtain s where s: "f x st = Inr s" "foldR f xs s = Inr st'" by (auto simp: rbind_Inr_iff)
  show ?case using assms(1) [OF s(1)] Cons.IH [OF s(2)] by simp
qed simp

lemma send_statistic_frame:
  "send_statistic_to_manager env st = Inr st' \<Longrightarrow> books st' = books (st\<lparr> statistic_send := True \<rparr>)"
proof -
  assume a: "send_statistic_to_manager env st = Inr st'"
  show ?thesis
  proof (cases "statistic_send st")
    case True
    then have "st\<lparr> statistic_send := True \<rparr> = st" by (cases st) simp
    moreover have "st' = st" using a True by (simp add: send_statistic_to_manager_def)
    ultimately show ?thesis by simp
  next
    case False
    then show ?thesis using a
      by (auto simp: send_statistic_to_manager_def send_statistics_send_def manager_send_frame
          split: if_splits elim!: foldR_books [rotated])
  qed
qed

section \<open>Termination messages\<close>

lemma terminate_sends:
  "i < length (work_units st) \<Longrightarrow>
   foldR (terminate_send i) ks st = Inr (emit (map (Terminate_worker (work_units st ! i)) ks) st)"
  by (induction ks arbitrary: st) (simp_all add: terminate_send_def)

definition termination_messages :: "'p server_env \<Rightarrow> comm list \<Rightarrow> 'p server_message list" where
  "termination_messages env us = concat (map (\<lambda>c. map (Terminate_worker c) [0..<comm_size env c]) us)"

lemma skip_run_distinct:
  assumes "distinct us" "i < length us" "past_end env = Some c" "c \<notin> set us"
  shows "skip_run env us (us ! i) (i + 1) = Some (i + 1)"
proof -
  have "\<exists>c'. unit_at env us (i + 1) = Some c' \<and> us ! i \<noteq> c'"
    using assms by (auto simp: unit_at_def nth_eq_iff_index_eq)
  then show ?thesis by (auto simp: skip_run.simps [of env us "us ! i" "Suc i"])
qed

lemma terminate_loop_distinct:
  assumes "distinct (work_units st)" "i < length (work_units st)"
    and "past_end env = Some c" "c \<notin> set (work_units st)"
  shows "terminate_loop env i st = Inr (emit (termination_messages env (drop i (work_units st))) st)"
  using assms
proof (induction "length (work_units st) - i" arbitrary: i st)
  case (Suc k)
  let ?ms = "map (Terminate_worker (work_units st ! i)) [0..<comm_size env (work_units st ! i)]"
  have drop: "drop i (work_units st) = work_units st ! i # drop (i + 1) (work_units st)"
    using Suc.prems by (simp add: Cons_nth_drop_Suc)
  show ?case
  proof (cases "i + 1 < length (work_units st)")
    case True
    then show ?thesis using Suc.hyps(1) [of "emit ?ms st" "i + 1"] Suc.hyps(2) Suc.prems
        skip_run_distinct [OF Suc.prems]
      by (simp add: terminate_loop.simps [of env i st] terminate_sends drop termination_messages_def)
  next
    case False
    then show ?thesis using Suc.prems skip_run_distinct [OF Suc.prems]
      by (simp add: terminate_loop.simps [of env i st] terminate_sends drop termination_messages_def)
  qed
qed simp

lemma terminate_loop_frame: "terminate_loop env i st = Inr st' \<Longrightarrow> books st' = books st"
proof (induction env i st rule: terminate_loop.induct)
  case (1 env i st)
  from "1.prems" obtain st1 j where
    st1: "foldR (terminate_send i) [0..<comm_size env (work_units st ! i)] st = Inr st1"
    and i: "i < length (work_units st)" and j: "skip_run env (work_units st) (work_units st ! i) (i + 1) = Some j"
    and r: "if j < length (work_units st) then terminate_loop env j st1 = Inr st' else st1 = st'"
    by (subst (asm) terminate_loop.simps) (auto simp: rbind_Inr_iff split: if_splits option.splits)
  have b: "books st1 = books st" using terminate_sends_frame [OF st1] by (auto simp: books_def)
  show ?case using "1.IH" [OF i st1 j] r b by (auto split: if_splits)
qed

lemma send_termination_frame:
  "send_termination_to_workers env st = Inr st' \<Longrightarrow> books st' = books (st\<lparr> terminated_workers := True \<rparr>)"
proof -
  assume a: "send_termination_to_workers env st = Inr st'"
  show ?thesis
  proof (cases "terminated_workers st")
    case True
    then have "st\<lparr> terminated_workers := True \<rparr> = st" by (cases st) simp
    moreover have "st' = st" using a True by (simp add: send_termination_to_workers_def)
    ultimately show ?thesis by simp
  next
    case False
    then show ?thesis using a
      by (auto simp: send_termination_to_workers_def rbind_Inr_iff Let_def dest!: terminate_loop_frame)
  qed
qed

section \<open>The invariant\<close>

text \<open>
  One task: the instances that came back and those at workers fit the counters and, if the
  task asks for a number of instances, that number; it is scheduled exactly while some of
  them were not handed out. A task without a number is handed out once.
\<close>

definition started_count :: "'p task_info \<Rightarrow> nat" where
  "started_count t = unat (num_instances_started (statistics t))"

definition processing_count :: "'p task_info \<Rightarrow> nat" where
  "processing_count t = unat (num_currently_processing t)"

definition required_count :: "'p task_info \<Rightarrow> nat" where
  "required_count t = unat (anzahl_startbelegungen (metadata t))"

definition task_ok :: "'p task_info \<Rightarrow> bool" where
  "task_ok t \<longleftrightarrow> started_count t + processing_count t < 2 ^ 32 \<and>
     (if required_count t = 0
      then is_scheduled t \<longrightarrow> started_count t = 0 \<and> processing_count t = 0
      else started_count t + processing_count t \<le> required_count t \<and>
        (is_scheduled t \<longleftrightarrow> started_count t + processing_count t < required_count t))"

definition in_processing :: "'p task_info list \<Rightarrow> nat" where
  "in_processing ts = sum_list (map processing_count ts)"

definition schedule_inv :: "'p server \<Rightarrow> bool" where
  "schedule_inv st \<longleftrightarrow>
     length (available_tasks st) \<le> 2 ^ 32 \<and>
     (\<forall>t \<in> set (available_tasks st). task_ok t) \<and>
     distinct (task_order st) \<and>
     (\<forall>x \<in> set (task_order st). unat x < length (available_tasks st)) \<and>
     (\<forall>i < length (available_tasks st).
        is_scheduled (available_tasks st ! i) \<longleftrightarrow> of_nat i \<in> set (task_order st)) \<and>
     unat (num_instances_in_processing st) = in_processing (available_tasks st)"

definition workers_inv :: "'p server_env \<Rightarrow> 'p server \<Rightarrow> bool" where
  "workers_inv env st \<longleftrightarrow>
     length (work_unit_requests st) = length (work_units st) \<and>
     length (transfer_sizes st) = length (work_units st) \<and>
     length (worker_comm_buffers st) = length (work_units st) \<and>
     (\<forall>n \<in> set (transfer_sizes st). default_max_cmd_length \<le> n) \<and>
     distinct (work_units st) \<and> set (work_units st) \<subseteq> accept env ` {..<accepted st}"

lemma books_inv:
  assumes "books st = books st'"
  shows "schedule_inv st = schedule_inv st'" "workers_inv env st = workers_inv env st'"
  using books_eqD [OF assms] by (simp_all add: schedule_inv_def workers_inv_def)

lemma in_processing_update:
  assumes "i < length ts"
  shows "in_processing (ts[i := t]) + processing_count (ts ! i) = in_processing ts + processing_count t"
proof -
  have "processing_count (ts ! i) \<le> in_processing ts"
    using assms member_le_sum_list [of "processing_count (ts ! i)" "map processing_count ts"]
    by (simp add: in_processing_def)
  then show ?thesis using assms
    by (simp add: in_processing_def map_update sum_list_update)
qed

lemma in_processing_bound:
  assumes "length ts \<le> 2 ^ 32"
  shows "in_processing ts < 2 ^ 64"
proof -
  have "in_processing ts \<le> length ts * (2 ^ 32 - 1)"
  proof (induction ts)
    case (Cons t ts)
    have "processing_count t \<le> 2 ^ 32 - 1"
      using unat_u32_less [of "num_currently_processing t"] by (simp add: processing_count_def)
    then show ?case using Cons by (simp add: in_processing_def)
  qed (simp add: in_processing_def)
  also have "\<dots> \<le> 2 ^ 32 * (2 ^ 32 - 1)" using assms by simp
  also have "\<dots> < 2 ^ 64" by simp
  finally show ?thesis .
qed

lemma scheduled_front:
  assumes "schedule_inv st" "task_order st = x # rest"
  shows "unat x < length (available_tasks st)" "is_scheduled (available_tasks st ! unat x)"
    "task_ok (available_tasks st ! unat x)" "x \<notin> set rest"
  using assms by (auto simp: schedule_inv_def)

text \<open>
  One step of the loop of \<open>GET_INSTANCES\<close>: what is handed out of a scheduled task is
  positive, bounded by the request and by what the task still asks for.
\<close>

definition remaining :: "u32 \<Rightarrow> 'p task_info \<Rightarrow> nat" where
  "remaining requested t = (if required_count t = 0 then unat requested
     else required_count t - started_count t - processing_count t)"

lemma instances_available_remaining:
  assumes "task_ok t"
  shows "unat (instances_available requested t) = remaining requested t"
proof (cases "required_count t = 0")
  case True
  then show ?thesis
    by (simp add: instances_available_def remaining_def required_count_def unat_eq_zero)
next
  case False
  let ?n = "anzahl_startbelegungen (metadata t)" and ?c = "num_currently_processing t"
  let ?a = "ucast (num_instances_started (statistics t)) :: u32"
  have s: "started_count t < 2 ^ 32" "started_count t + processing_count t \<le> required_count t"
    using assms False by (auto simp: task_ok_def)
  have a: "unat ?a = started_count t"
    using s(1) by (simp add: started_count_def unat_narrow)
  have c: "unat (?n - ?c) = unat ?n - unat ?c"
    using s(2) by (intro unat_sub) (simp add: word_le_nat_alt required_count_def processing_count_def)
  have "unat (?n - ?c - ?a) = unat (?n - ?c) - unat ?a"
    using s(2) a c
    by (intro unat_sub) (simp add: word_le_nat_alt required_count_def processing_count_def)
  then show ?thesis using False a c
    by (auto simp: instances_available_def remaining_def try_once_def Let_def required_count_def
        processing_count_def)
qed

lemma remaining_positive:
  assumes "task_ok t" "is_scheduled t" "0 < requested"
  shows "0 < remaining requested t"
  using assms by (auto simp: task_ok_def remaining_def word_less_nat_alt split: if_splits)

end
