(* ===== verification/Server_Schedule.thy ===== *)
theory Server_Schedule
  imports Server_Invariant
begin

text \<open>
  The distribution of instances: what one \<open>GET_INSTANCES\<close> hands out and what one
  \<open>DONE_PROCESSING\<close> takes back, and that both keep the invariant of the book-keeping.
\<close>

section \<open>Handing out\<close>

definition hand_out :: "u32 \<Rightarrow> 'p task_info \<Rightarrow> u32 \<times> 'p task_info" where
  "hand_out requested t =
     (let available = instances_available requested t; k = min requested available;
          t1 = t\<lparr> num_currently_processing := num_currently_processing t + k \<rparr>
      in (k, if available \<le> k then t1\<lparr> is_scheduled := False \<rparr> else t1))"

lemma hand_out_eq:
  assumes "hand_out requested t = (k, t')"
  shows "k = min requested (instances_available requested t) \<and>
    t' = (if instances_available requested t \<le> k
      then t\<lparr> num_currently_processing := num_currently_processing t + k, is_scheduled := False \<rparr>
      else t\<lparr> num_currently_processing := num_currently_processing t + k \<rparr>)"
  using assms unfolding hand_out_def Let_def prod.inject
  by (elim conjE, hypsubst, intro conjI refl)

lemma unat_min: "unat (min a b :: 'a::len word) = min (unat a) (unat b)"
  by (auto simp: min_def word_le_nat_alt)

lemma hand_out_task:
  assumes ok: "task_ok t" "is_scheduled t" and req: "0 < requested" and ho: "hand_out requested t = (k, t')"
  shows "unat k = min (unat requested) (remaining requested t)" "0 < k" "k \<le> requested"
    and "task_ok t'" "processing_count t' = processing_count t + unat k"
    and "statistics t' = statistics t" "metadata t' = metadata t"
    and "is_scheduled t' \<longleftrightarrow> \<not> instances_available requested t \<le> k"
proof -
  have k: "k = min requested (instances_available requested t)"
    and t': "t' = (if instances_available requested t \<le> k
      then t\<lparr> num_currently_processing := num_currently_processing t + k, is_scheduled := False \<rparr>
      else t\<lparr> num_currently_processing := num_currently_processing t + k \<rparr>)"
    using hand_out_eq [OF ho] by blast+
  note avail = instances_available_remaining [OF ok(1), of requested]
  show uk: "unat k = min (unat requested) (remaining requested t)" by (simp add: k unat_min avail)
  have r: "0 < remaining requested t" by (rule remaining_positive [OF ok req])
  show "0 < k" using r req by (simp add: word_less_nat_alt uk)
  show "k \<le> requested" by (simp add: k)
  show rest: "statistics t' = statistics t" "metadata t' = metadata t"
    "is_scheduled t' \<longleftrightarrow> \<not> instances_available requested t \<le> k"
    using ok(2) by (simp_all add: t')
  have used: "instances_available requested t \<le> k \<longleftrightarrow> remaining requested t \<le> unat requested"
    by (simp add: word_le_nat_alt avail uk)
  have counts: "started_count t' = started_count t" "required_count t' = required_count t"
    using rest by (simp_all add: started_count_def required_count_def)
  have small: "started_count t + processing_count t + unat k < 2 ^ 32 \<and>
      (required_count t \<noteq> 0 \<longrightarrow> started_count t + processing_count t + unat k \<le> required_count t)"
    using ok uk unat_u32_less [of requested] unat_u32_less [of "anzahl_startbelegungen (metadata t)"]
    by (auto simp: task_ok_def remaining_def required_count_def split: if_splits)
  show pc: "processing_count t' = processing_count t + unat k"
    using small by (auto simp: t' processing_count_def unat_u32_add)
  show "task_ok t'"
    using ok small uk used
    by (auto simp: task_ok_def counts pc rest(3) remaining_def split: if_splits)
qed

text \<open>The state after one round of the loop.\<close>

definition hand_out_front :: "u32 \<Rightarrow> 'p server \<Rightarrow> u32 \<Rightarrow> 'p server" where
  "hand_out_front requested st x =
     (let t = available_tasks st ! unat x; (k, t') = hand_out requested t in
      st\<lparr> available_tasks := (available_tasks st)[unat x := t'],
          task_order := (if is_scheduled t' then task_order st else tl (task_order st)),
          num_instances_in_processing := num_instances_in_processing st + ucast k \<rparr>)"

lemma get_instances_loop_step:
  assumes inv: "schedule_inv st" and ord: "task_order st = x # rest" and req: "0 < requested"
  defines "t \<equiv> available_tasks st ! unat x"
  defines "k \<equiv> fst (hand_out requested t)"
  shows "get_instances_loop requested reply st = get_instances_loop (requested - k)
    (reply @ [\<lparr> job_metadata = metadata t, num_instances_to_start = k, job_task_id = x \<rparr>])
    (hand_out_front requested st x)"
proof -
  obtain t' where ho: "hand_out requested t = (k, t')" unfolding k_def by (metis prod.collapse)
  note front = scheduled_front [OF inv ord, folded t_def]
  note ht = hand_out_task [OF front(3,2) req ho]
  have k: "min requested (instances_available requested t) = k"
    using hand_out_eq [OF ho] by simp
  have t': "t' = (if instances_available requested t \<le> k
      then t\<lparr> num_currently_processing := num_currently_processing t + k, is_scheduled := False \<rparr>
      else t\<lparr> num_currently_processing := num_currently_processing t + k \<rparr>)"
    using hand_out_eq [OF ho] by blast
  have get: "vget (available_tasks st) (uint x) = Some t"
    using front(1) by (simp add: vget_word t_def)
  have "hand_out_front requested st x = st\<lparr> available_tasks := (available_tasks st)[unat x := t'],
      task_order := (if instances_available requested t \<le> k then rest else task_order st),
      num_instances_in_processing := num_instances_in_processing st + ucast k \<rparr>"
    using ht(8) by (simp add: hand_out_front_def ho ord t_def [symmetric])
  then show ?thesis
    unfolding get_instances_loop.simps [of requested reply st] if_P [OF req] ord list.case get
      defined_simps rbind_simps Let_def k
    using ht(2,3) by (simp add: require_def t')
qed

lemma hand_out_front_inv:
  assumes inv: "schedule_inv st" and ord: "task_order st = x # rest" and req: "0 < requested"
    and ho: "hand_out requested (available_tasks st ! unat x) = (k, t')"
  shows "schedule_inv (hand_out_front requested st x)"
proof -
  let ?t = "available_tasks st ! unat x" and ?ts = "(available_tasks st)[unat x := t']"
  note front = scheduled_front [OF inv ord]
  note ht = hand_out_task [OF front(3,2) req ho]
  have len: "length ?ts \<le> 2 ^ 32" using inv by (simp add: schedule_inv_def)
  have sum: "in_processing ?ts = in_processing (available_tasks st) + unat k"
    using in_processing_update [OF front(1), of t'] ht(5) by simp
  have nip: "unat (num_instances_in_processing st + ucast k) = in_processing ?ts"
    using inv sum in_processing_bound [OF len] by (simp add: schedule_inv_def unat_u64_add)
  have sched: "is_scheduled (?ts ! i) \<longleftrightarrow>
      of_nat i \<in> set (if is_scheduled t' then task_order st else rest)" if i: "i < length ?ts" for i
  proof (cases "i = unat x")
    case True
    then show ?thesis using front(1,4) by (auto simp: ord)
  next
    case False
    have "i < 2 ^ 32" using i len by simp
    then have "(of_nat i :: u32) \<noteq> x" using False by (metis unat_u32_of_nat)
    then show ?thesis using inv i False by (auto simp: schedule_inv_def ord)
  qed
  have "\<forall>t \<in> set ?ts. task_ok t"
    using inv ht(4) by (auto simp: schedule_inv_def dest!: set_update_subset_insert [THEN subsetD])
  then show ?thesis using inv nip sched
    by (auto simp: schedule_inv_def hand_out_front_def ho ord)
qed

text \<open>
  The effect of handing out a list of jobs: the counter of every task grows by the sizes of
  its jobs, nothing else of it changes but the mark whether it is scheduled.
\<close>

definition jobs_total :: "job list \<Rightarrow> nat" where
  "jobs_total js = sum_list (map (\<lambda>j. unat (num_instances_to_start j)) js)"

definition jobs_of :: "nat \<Rightarrow> job list \<Rightarrow> nat" where
  "jobs_of i js = jobs_total (filter (\<lambda>j. unat (job_task_id j) = i) js)"

lemma jobs_simps [simp]:
  "jobs_total [] = 0" "jobs_total (j # js) = unat (num_instances_to_start j) + jobs_total js"
  "jobs_total (js @ ks) = jobs_total js + jobs_total ks" "jobs_of i (js @ ks) = jobs_of i js + jobs_of i ks"
  "jobs_of i [] = 0" "jobs_of i [j] = (if unat (job_task_id j) = i then unat (num_instances_to_start j) else 0)"
  by (simp_all add: jobs_total_def jobs_of_def)

definition dispatched :: "'p server \<Rightarrow> job list \<Rightarrow> 'p server \<Rightarrow> bool" where
  "dispatched st js st' \<longleftrightarrow>
     st' = st\<lparr> available_tasks := available_tasks st', task_order := task_order st',
               num_instances_in_processing := num_instances_in_processing st' \<rparr> \<and>
     length (available_tasks st') = length (available_tasks st) \<and>
     (\<forall>i < length (available_tasks st).
        statistics (available_tasks st' ! i) = statistics (available_tasks st ! i) \<and>
        metadata (available_tasks st' ! i) = metadata (available_tasks st ! i) \<and>
        processing_count (available_tasks st' ! i) = processing_count (available_tasks st ! i) + jobs_of i js) \<and>
     (\<forall>j \<in> set js. 0 < num_instances_to_start j \<and> unat (job_task_id j) < length (available_tasks st) \<and>
        job_metadata j = metadata (available_tasks st ! unat (job_task_id j)))"

lemma dispatched_refl: "dispatched st [] st"
  by (simp add: dispatched_def)

lemma dispatched_trans:
  assumes "dispatched st js st1" "dispatched st1 ks st2"
  shows "dispatched st (js @ ks) st2"
proof -
  have "st2 = st\<lparr> available_tasks := available_tasks st2, task_order := task_order st2,
      num_instances_in_processing := num_instances_in_processing st2 \<rparr>"
    using assms unfolding dispatched_def by (cases st; cases st1; cases st2) simp
  then show ?thesis using assms unfolding dispatched_def by auto
qed

lemma hand_out_front_dispatched:
  assumes inv: "schedule_inv st" and ord: "task_order st = x # rest" and req: "0 < requested"
    and ho: "hand_out requested (available_tasks st ! unat x) = (k, t')"
  shows "dispatched st [\<lparr> job_metadata = metadata (available_tasks st ! unat x),
      num_instances_to_start = k, job_task_id = x \<rparr>] (hand_out_front requested st x)"
proof -
  note front = scheduled_front [OF inv ord]
  note ht = hand_out_task [OF front(3,2) req ho]
  show ?thesis using front(1) ht(2,5,6,7)
    by (auto simp: dispatched_def hand_out_front_def ho nth_list_update)
qed

lemma get_instances_loop_correct:
  assumes "schedule_inv st"
  shows "\<exists>rest jobs st'. get_instances_loop requested reply st = Inr (rest, reply @ jobs, st') \<and>
    schedule_inv st' \<and> dispatched st jobs st' \<and>
    (rest = 0 \<or> task_order st' = []) \<and> jobs_total jobs + unat rest = unat requested"
  using assms
proof (induction "unat requested + length (task_order st)" arbitrary: requested reply st rule: less_induct)
  case less
  show ?case
  proof (cases "0 < requested \<and> task_order st \<noteq> []")
    case False
    then have "get_instances_loop requested reply st = Inr (requested, reply @ [], st)"
      by (auto simp: get_instances_loop.simps [of requested reply st] split: list.splits)
    then show ?thesis using False less.prems dispatched_refl [of st]
      by (intro exI [of _ requested] exI [of _ "[]"] exI [of _ st]) (auto simp: word_gt_0)
  next
    case True
    then obtain x rest where ord: "task_order st = x # rest" and req: "0 < requested"
      by (cases "task_order st") auto
    let ?t = "available_tasks st ! unat x" and ?st = "hand_out_front requested st x"
    obtain k t' where ho: "hand_out requested ?t = (k, t')" by force
    let ?j = "\<lparr> job_metadata = metadata ?t, num_instances_to_start = k, job_task_id = x \<rparr>"
    note front = scheduled_front [OF less.prems ord]
    note ht = hand_out_task [OF front(3,2) req ho]
    have sub: "unat (requested - k) + unat k = unat requested"
      using ht(3) by (simp add: unat_sub word_le_nat_alt)
    have "unat (requested - k) + length (task_order ?st) < unat requested + length (task_order st)"
      using sub ht(2) by (auto simp: hand_out_front_def ho ord word_less_nat_alt)
    from less.hyps [OF this hand_out_front_inv [OF less.prems ord req ho], of "reply @ [?j]"]
    obtain rest' jobs st' where ih:
      "get_instances_loop (requested - k) (reply @ [?j]) ?st = Inr (rest', (reply @ [?j]) @ jobs, st')"
      "schedule_inv st'" "dispatched ?st jobs st'" "rest' = 0 \<or> task_order st' = []"
      "jobs_total jobs + unat rest' = unat (requested - k)" by blast
    have "get_instances_loop requested reply st = Inr (rest', reply @ ([?j] @ jobs), st')"
      using get_instances_loop_step [OF less.prems ord req, of reply] ih(1) by (simp add: ho)
    moreover have "dispatched st ([?j] @ jobs) st'"
      by (rule dispatched_trans [OF hand_out_front_dispatched [OF less.prems ord req ho] ih(3)])
    moreover have "jobs_total ([?j] @ jobs) + unat rest' = unat requested" using ih(5) sub by simp
    ultimately show ?thesis using ih(2,4) by blast
  qed
qed

section \<open>Taking back\<close>

text \<open>What a worker may report: instances of a known task that it was given, of one formula.\<close>

definition done_ok :: "'p server \<Rightarrow> 'p done_processing_info \<Rightarrow> bool" where
  "done_ok st msg \<longleftrightarrow> unat (dp_task_id msg) < length (available_tasks st) \<and>
     unat (dp_instances_processed msg) \<le> processing_count (available_tasks st ! unat (dp_task_id msg)) \<and>
     (0 < dp_num_flips_done msg \<and>
        0 < total_num_flips (statistics (available_tasks st ! unat (dp_task_id msg))) \<longrightarrow>
      stat_num_vars (statistics (available_tasks st ! unat (dp_task_id msg))) = dp_num_vars msg \<and>
      stat_num_clauses (statistics (available_tasks st ! unat (dp_task_id msg))) = dp_num_clauses msg)"

lemma add_statistics_defined:
  assumes "0 < dp_num_flips_done msg \<and> 0 < total_num_flips s \<longrightarrow>
    stat_num_vars s = dp_num_vars msg \<and> stat_num_clauses s = dp_num_clauses msg"
  shows "\<exists>s'. add_statistics ops s msg = Inr s' \<and>
    num_instances_started s' = num_instances_started s + ucast (dp_instances_processed msg)"
  using assms by (auto simp: add_statistics_def check_formula_def merge_report_def Let_def)

lemma take_back_task:
  assumes ok: "task_ok t" and le: "unat p \<le> processing_count t"
    and s: "num_instances_started s = num_instances_started (statistics t) + ucast p"
  defines "t1 \<equiv> t\<lparr> statistics := s, num_currently_processing := num_currently_processing t - p \<rparr>"
  shows "task_ok t1" "\<not> reschedules t1" "processing_count t1 + unat p = processing_count t"
    "started_count t1 = started_count t + unat p" "metadata t1 = metadata t" "is_scheduled t1 = is_scheduled t"
proof -
  have small: "started_count t + processing_count t < 2 ^ 32" using ok by (simp add: task_ok_def)
  show st: "started_count t1 = started_count t + unat p"
    using small le by (simp add: started_count_def t1_def s unat_u64_add)
  show pr: "processing_count t1 + unat p = processing_count t"
    using le by (simp add: processing_count_def t1_def unat_sub word_le_nat_alt)
  show m: "metadata t1 = metadata t" "is_scheduled t1 = is_scheduled t" by (simp_all add: t1_def)
  have rq: "required_count t1 = required_count t" by (simp add: required_count_def m)
  show ok1: "task_ok t1" using ok st pr by (auto simp: task_ok_def rq m)
  have "unat (num_instances_started (statistics t1) + ucast (num_currently_processing t1) :: u64) =
      started_count t1 + processing_count t1"
    using ok1 by (simp add: started_count_def processing_count_def task_ok_def unat_u64_add)
  then show "\<not> reschedules t1" using ok1
    by (auto simp: reschedules_def try_once_def word_less_nat_alt task_ok_def required_count_def split: if_splits)
qed

definition take_back :: "'p server \<Rightarrow> 'p done_processing_info \<Rightarrow> 'p problem_instance_statistics \<Rightarrow> 'p server" where
  "take_back st msg s =
     (let t = available_tasks st ! unat (dp_task_id msg) in
      st\<lparr> available_tasks := (available_tasks st)[unat (dp_task_id msg) :=
            t\<lparr> statistics := s, num_currently_processing := num_currently_processing t - dp_instances_processed msg \<rparr>],
          num_instances_in_processing := num_instances_in_processing st - ucast (dp_instances_processed msg) \<rparr>)"

lemma take_back_inv:
  assumes inv: "schedule_inv st" and ok: "done_ok st msg"
    and s: "num_instances_started s =
      num_instances_started (statistics (available_tasks st ! unat (dp_task_id msg))) +
      ucast (dp_instances_processed msg)"
  shows "schedule_inv (take_back st msg s)"
    and "unat (num_instances_in_processing (take_back st msg s)) + unat (dp_instances_processed msg) =
      unat (num_instances_in_processing st)"
    and "ucast (dp_instances_processed msg) \<le> num_instances_in_processing st"
proof -
  let ?i = "unat (dp_task_id msg)" and ?p = "dp_instances_processed msg"
  let ?t = "available_tasks st ! ?i"
  let ?t1 = "?t\<lparr> statistics := s, num_currently_processing := num_currently_processing ?t - ?p \<rparr>"
  let ?ts = "(available_tasks st)[?i := ?t1]"
  have i: "?i < length (available_tasks st)" and le: "unat ?p \<le> processing_count ?t"
    using ok by (auto simp: done_ok_def)
  have "task_ok ?t" using inv i by (simp add: schedule_inv_def)
  note tb = take_back_task [OF this le s]
  have sum: "in_processing ?ts + unat ?p = in_processing (available_tasks st)"
    using in_processing_update [OF i, of ?t1] tb(3) by simp
  then have "unat ?p \<le> unat (num_instances_in_processing st)" using inv by (simp add: schedule_inv_def)
  then show le64: "ucast ?p \<le> num_instances_in_processing st" by (simp add: word_le_nat_alt)
  have nip: "unat (num_instances_in_processing st - ucast ?p) + unat ?p = unat (num_instances_in_processing st)"
    using le64 by (simp add: unat_sub word_le_nat_alt)
  then show "unat (num_instances_in_processing (take_back st msg s)) + unat ?p =
      unat (num_instances_in_processing st)" by (simp add: take_back_def Let_def)
  have "\<forall>t \<in> set ?ts. task_ok t"
    using inv tb(1) by (auto simp: schedule_inv_def dest!: set_update_subset_insert [THEN subsetD])
  moreover have "is_scheduled (?ts ! j) = is_scheduled (available_tasks st ! j)"
    if "j < length (available_tasks st)" for j using that i tb(6) by (simp add: nth_list_update)
  moreover have "unat (num_instances_in_processing st - ucast ?p) = in_processing ?ts"
    using nip sum inv by (simp add: schedule_inv_def)
  ultimately show "schedule_inv (take_back st msg s)"
    using inv by (simp add: schedule_inv_def take_back_def Let_def)
qed

text \<open>Whether the last instance came back: the server then reports and dismisses the workers.\<close>

definition all_returned :: "'p server \<Rightarrow> bool" where
  "all_returned st \<longleftrightarrow>
     (task_order st = [] \<or> (solution_found st \<and> terminate_after_solution_was_found st)) \<and>
     num_instances_in_processing st = 0 \<and> \<not> wait_for_more_files st"

lemma done_processing_eq:
  assumes inv: "schedule_inv st" and ok: "done_ok st msg"
    and idx: "index < length (worker_comm_buffers st)"
    and p: "received server_header ''DONE_PROCESSING'' 0 (worker_comm_buffers st ! index) p = Inr msg"
  shows "\<exists>s. add_statistics (arith env) (statistics (available_tasks st ! unat (dp_task_id msg))) msg = Inr s \<and>
    schedule_inv (take_back st msg s) \<and>
    process_w2s_DONE_PROCESSING env index p st =
      (if all_returned (take_back st msg s)
       then rbind (send_statistic_to_manager env (take_back st msg s)) (send_termination_to_workers env)
       else Inr (take_back st msg s))"
proof -
  let ?t = "available_tasks st ! unat (dp_task_id msg)"
  have i: "unat (dp_task_id msg) < length (available_tasks st)"
    and le: "unat (dp_instances_processed msg) \<le> processing_count ?t" using ok by (auto simp: done_ok_def)
  obtain s where s: "add_statistics (arith env) (statistics ?t) msg = Inr s"
    "num_instances_started s = num_instances_started (statistics ?t) + ucast (dp_instances_processed msg)"
    using add_statistics_defined [of msg "statistics ?t"] ok unfolding done_ok_def by blast
  note tbi = take_back_inv [OF inv ok s(2)]
  have "task_ok ?t" using inv i by (simp add: schedule_inv_def)
  note tb = take_back_task [OF this le s(2)]
  have "process_w2s_DONE_PROCESSING env index p st =
      (if all_returned (take_back st msg s)
       then rbind (send_statistic_to_manager env (take_back st msg s)) (send_termination_to_workers env)
       else Inr (take_back st msg s))"
    unfolding process_w2s_DONE_PROCESSING_def vget_nat if_P [OF idx] defined_simps rbind_simps p vget_word
      if_P [OF i] s(1) require_def if_P [OF tbi(3)] Let_def if_not_P [OF tb(2)] take_back_def all_returned_def
    by (auto simp del: eq_iff_diff_eq_0 right_minus_eq)
  then show ?thesis using s(1) tbi(1) by blast
qed

end
