(* ===== verification/Server_Correct.thy ===== *)
theory Server_Correct
  imports Server_Schedule
begin

text \<open>
  The properties of the server: its invariant over every handler and run, the distribution
  of instances, the end of a run, and where a run does not end or is not defined.
\<close>

section \<open>Every handler keeps the invariant\<close>

definition server_inv :: "'p server_env \<Rightarrow> 'p server \<Rightarrow> bool" where
  "server_inv env st \<longleftrightarrow> schedule_inv st \<and> workers_inv env st"

lemma books_server_inv: "books st = books st' \<Longrightarrow> server_inv env st = server_inv env st'"
  unfolding server_inv_def using books_inv by blast

lemma inv_flags [simp]:
  "schedule_inv (st\<lparr> statistic_send := b \<rparr>) = schedule_inv st" "workers_inv env (st\<lparr> statistic_send := b \<rparr>) = workers_inv env st"
  "schedule_inv (st\<lparr> terminated_workers := b \<rparr>) = schedule_inv st" "workers_inv env (st\<lparr> terminated_workers := b \<rparr>) = workers_inv env st"
  "schedule_inv (st\<lparr> solution_found := b \<rparr>) = schedule_inv st" "workers_inv env (st\<lparr> solution_found := b \<rparr>) = workers_inv env st"
  "schedule_inv (st\<lparr> running := b \<rparr>) = schedule_inv st" "workers_inv env (st\<lparr> running := b \<rparr>) = workers_inv env st"
  "schedule_inv (st\<lparr> command_capacity := n \<rparr>) = schedule_inv st" "workers_inv env (st\<lparr> command_capacity := n \<rparr>) = workers_inv env st"
  by (simp_all add: schedule_inv_def workers_inv_def)

lemma activations_frame:
  "foldR (\<lambda>i. activate_worker_send (f i) r) xs st = Inr st' \<Longrightarrow> books st' = books st"
  by (erule foldR_books [rotated]) (rule activate_worker_send_frame)

lemma add_file_inv:
  assumes inv: "server_inv env st" and small: "length (available_tasks st) < 2 ^ 32"
    and run: "process_m2s_ADD_FILE env p st = Inr st'"
  shows "server_inv env st'"
proof -
  let ?n = "length (available_tasks st)"
  obtain data where "received server_header ''ADD_FILE'' 1 (command_capacity st) p = Inr data"
    using run by (auto simp: process_m2s_ADD_FILE_def rbind_Inr_iff)
  let ?t = "task_info_new (arith env) data"
  let ?st = "st\<lparr> available_tasks := available_tasks st @ [?t], task_order := of_nat ?n # task_order st \<rparr>"
  have b: "books st' = books ?st"
    using run \<open>received _ _ _ _ _ = _\<close>
    by (auto simp: process_m2s_ADD_FILE_def Let_def split: if_splits
        dest!: activations_frame)
  have "processing_count ?t = 0" "is_scheduled ?t"
    by (simp_all add: task_info_new_def processing_count_def)
  moreover have "task_ok ?t"
    by (simp add: task_ok_def task_info_new_def started_count_def processing_count_def
        statistics_default_def required_count_def)
  moreover have "of_nat ?n \<notin> set (task_order st)"
    using inv small by (auto simp: server_inv_def schedule_inv_def unat_u32_of_nat)
  moreover have "of_nat i \<noteq> (of_nat ?n :: u32)" if "i < ?n" for i
    using that small by (metis unat_u32_of_nat less_trans nat_neq_iff)
  ultimately have "schedule_inv ?st"
    using inv small
    by (auto simp: server_inv_def schedule_inv_def in_processing_def unat_u32_of_nat nth_append
        less_Suc_eq simp del: of_nat_eq_iff)
  moreover have "workers_inv env ?st" using inv by (simp add: server_inv_def workers_inv_def)
  ultimately show ?thesis using books_server_inv [OF b] by (simp add: server_inv_def)
qed

lemma accept_workers_inv:
  assumes "inj (accept env)" "workers_inv env st"
  shows "workers_inv env (accept_workers env n st)"
proof -
  have "distinct (map (\<lambda>i. accept env (accepted st + i)) [0..<n])"
    unfolding distinct_map by (auto intro!: inj_onI dest: injD [OF assms(1)])
  moreover have "accept env (accepted st + i) \<notin> set (work_units st)" for i
  proof
    assume "accept env (accepted st + i) \<in> set (work_units st)"
    then have "accept env (accepted st + i) \<in> accept env ` {..<accepted st}"
      using assms(2) by (auto simp: workers_inv_def)
    then obtain k where "k < accepted st" "accept env (accepted st + i) = accept env k" by auto
    then show False using injD [OF assms(1)] by fastforce
  qed
  ultimately show ?thesis using assms
    by (auto simp: workers_inv_def accept_workers_def)
qed

lemma add_workers_inv:
  assumes inj: "inj (accept env)" and inv: "server_inv env st"
    and run: "process_m2s_ADD_WORKERS env c n st = Inr st'"
  shows "server_inv env st'"
proof -
  have b: "books st' = books (accept_workers env (nat n) st)"
    using run
    by (auto simp: process_m2s_ADD_WORKERS_def rbind_Inr_iff Let_def split: if_splits
        dest!: activations_frame)
  have "schedule_inv (accept_workers env (nat n) st)"
    using inv by (simp add: server_inv_def schedule_inv_def accept_workers_def)
  then show ?thesis
    using books_server_inv [OF b] accept_workers_inv [OF inj] inv by (simp add: server_inv_def)
qed

lemma send_termination_inv:
  assumes "server_inv env st" "send_termination_to_workers env st = Inr st'"
  shows "server_inv env st'"
  using assms books_server_inv [OF send_termination_frame [OF assms(2)]] by (simp add: server_inv_def)

lemma send_statistic_inv:
  assumes "server_inv env st" "send_statistic_to_manager env st = Inr st'"
  shows "server_inv env st'"
  using assms books_server_inv [OF send_statistic_frame [OF assms(2)]] by (simp add: server_inv_def)

lemma found_solution_inv:
  assumes inv: "server_inv env st" and run: "process_w2s_FOUND_SOLUTION env i p st = Inr st'"
  shows "server_inv env st'"
proof -
  obtain st1 info where st1: "(if terminate_after_solution_was_found st
      then send_termination_to_workers env (st\<lparr> solution_found := True \<rparr>)
      else Inr (st\<lparr> solution_found := True \<rparr>)) = Inr st1"
    and st': "found_solution_send env info st1 = Inr st'"
    using run by (auto simp: process_w2s_FOUND_SOLUTION_def rbind_Inr_iff Let_def)
  have "server_inv env (st\<lparr> solution_found := True \<rparr>)" using inv by (simp add: server_inv_def)
  then have "server_inv env st1" using st1 send_termination_inv by (auto split: if_splits)
  then show ?thesis
    using books_server_inv [OF manager_send_frame [OF st' [unfolded found_solution_send_def]]] by simp
qed

lemma set_verase: "verase xs i = Some ys \<Longrightarrow> set ys \<subseteq> set xs \<and> length ys = length xs - 1 \<and> i < length xs"
  by (auto simp: verase_def split: if_splits dest: in_set_takeD in_set_dropD)

lemma distinct_verase: "verase xs i = Some ys \<Longrightarrow> distinct xs \<Longrightarrow> distinct ys"
proof -
  assume a: "verase xs i = Some ys" and d: "distinct xs"
  then have i: "i < length xs" and ys: "ys = take i xs @ drop (Suc i) xs"
    by (auto simp: verase_def split: if_splits)
  have "distinct (take i xs @ xs ! i # drop (Suc i) xs)" using d id_take_nth_drop [OF i] by simp
  then show ?thesis unfolding ys by simp
qed

lemma disconnect_inv:
  assumes inv: "server_inv env st" and run: "process_w2s_DISCONNECT env i st = Inr st'"
  shows "server_inv env st'"
proof -
  obtain reqs us sizes bufs where v: "verase (work_unit_requests st) i = Some reqs"
    "verase (work_units st) i = Some us" "verase (transfer_sizes st) i = Some sizes"
    "verase (worker_comm_buffers st) i = Some bufs"
    using run by (auto simp: process_w2s_DISCONNECT_def rbind_Inr_iff defined_def split: option.splits)
  let ?st = "st\<lparr> work_unit_requests := reqs, work_units := us, transfer_sizes := sizes,
     worker_comm_buffers := bufs, work_units_disconnected := work_units_disconnected st + 1 \<rparr>"
  have 1: "server_inv env ?st"
    using inv set_verase [OF v(1)] set_verase [OF v(2)] set_verase [OF v(3)] set_verase [OF v(4)]
      distinct_verase [OF v(2)]
    by (auto simp: server_inv_def schedule_inv_def workers_inv_def)
  show ?thesis
  proof (cases "(task_order st = [] \<or> solution_found st) \<and> us = [] \<and> statistic_send st")
    case False
    then show ?thesis using run v 1 by (auto simp: process_w2s_DISCONNECT_def Let_def)
  next
    case True
    then obtain st2 where "send_statistic_to_manager env ?st = Inr st2" "st' = st2\<lparr> running := False \<rparr>"
      using run v by (auto simp: process_w2s_DISCONNECT_def Let_def rbind_Inr_iff)
    then show ?thesis using send_statistic_inv [OF 1] by (simp add: server_inv_def)
  qed
qed

text \<open>The state after a reply, given the announced size and the request that precedes it.\<close>

definition reply_sent ::
    "'p server_env \<Rightarrow> nat \<Rightarrow> nat \<Rightarrow> job list \<Rightarrow> nat \<Rightarrow> nat option \<Rightarrow> 'p server \<Rightarrow> 'p server" where
  "reply_sent env i r js a req st =
     emit ((case req of None \<Rightarrow> [] | Some n \<Rightarrow> [To_worker_req_max (work_units st ! i) r n]) @
           [Send_instances (work_units st ! i) r js])
       (st\<lparr> worker_comm_buffers := (worker_comm_buffers st)[i :=
              grown env (worker_comm_buffers st ! i) (encoded_length env (serialize_jobs js))],
            transfer_sizes := (transfer_sizes st)[i := a] \<rparr>)"

lemma send_instances_Inr:
  "send_instances_send env i r js st = Inr st' \<longleftrightarrow>
     i < length (worker_comm_buffers st) \<and> i < length (transfer_sizes st) \<and> i < length (work_units st) \<and>
     (\<exists>a req. ensure_length (encoded_length env (serialize_jobs js)) (transfer_sizes st ! i) = Inr (a, req) \<and>
        st' = reply_sent env i r js a req st)"
  by (auto simp: send_instances_send_def rbind_Inr_iff Let_def reply_sent_def defined_def)

lemma send_instances_inv:
  assumes inv: "server_inv env st" and run: "send_instances_send env i r js st = Inr st'"
  shows "server_inv env st'"
proof -
  define announced where "announced = transfer_sizes st ! i"
  obtain a req where i: "i < length (transfer_sizes st)"
    and en: "ensure_length (encoded_length env (serialize_jobs js)) announced = Inr (a, req)"
    and st': "st' = reply_sent env i r js a req st"
    using run by (auto simp: send_instances_Inr announced_def)
  have "default_max_cmd_length \<le> announced"
    using inv i by (auto simp: server_inv_def workers_inv_def announced_def)
  then have "default_max_cmd_length \<le> a" using ensure_length_Inr(1) [OF en] by simp
  then show ?thesis using inv st'
    by (auto simp: reply_sent_def server_inv_def schedule_inv_def workers_inv_def
        dest!: set_update_subset_insert [THEN subsetD])
qed

lemma dispatched_workers_inv: "dispatched st js st' \<Longrightarrow> workers_inv env st \<Longrightarrow> workers_inv env st'"
  by (cases st; cases st') (simp add: dispatched_def workers_inv_def)

lemma get_instances_inv:
  assumes inv: "server_inv env st" and run: "process_w2s_GET_INSTANCES env i s p st = Inr st'"
  shows "server_inv env st'"
proof -
  obtain request rest reply st1 where
    st1: "(if \<not> solution_found st then get_instances_loop request [] st else Inr (request, [], st)) = Inr (rest, reply, st1)"
    and st': "send_instances_send env i s reply st1 = Inr st'"
    using run by (auto simp: process_w2s_GET_INSTANCES_def rbind_Inr_iff)
  have "server_inv env st1"
    using st1 inv get_instances_loop_correct [of st request "[]"] dispatched_workers_inv
    by (fastforce simp: server_inv_def split: if_splits)
  then show ?thesis using send_instances_inv st' by blast
qed

lemma done_processing_inv:
  assumes inv: "server_inv env st" and ok: "\<And>c msg. p = (c, Some msg) \<Longrightarrow> done_ok st msg"
    and run: "process_w2s_DONE_PROCESSING env i p st = Inr st'"
  shows "server_inv env st'"
proof -
  obtain cap msg where cap: "vget (worker_comm_buffers st) (int i) = Some cap"
    and msg: "received server_header ''DONE_PROCESSING'' 0 cap p = Inr msg"
    using run by (auto simp: process_w2s_DONE_PROCESSING_def rbind_Inr_iff defined_def split: option.splits)
  have dok: "done_ok st msg" using msg ok [of "fst p" msg] by (simp add: received_Inr prod_eq_iff)
  have i: "i < length (worker_comm_buffers st)" "cap = worker_comm_buffers st ! i"
    using cap by (auto split: if_splits)
  have sinv: "schedule_inv st" using inv by (simp add: server_inv_def)
  obtain s where s: "schedule_inv (take_back st msg s)"
    "process_w2s_DONE_PROCESSING env i p st = (if all_returned (take_back st msg s)
       then rbind (send_statistic_to_manager env (take_back st msg s)) (send_termination_to_workers env)
       else Inr (take_back st msg s))"
    using done_processing_eq [OF sinv dok i(1) msg [unfolded i(2)], of env] by blast
  have tb: "server_inv env (take_back st msg s)"
    using s(1) inv by (simp add: server_inv_def workers_inv_def take_back_def Let_def)
  show ?thesis
  proof (cases "all_returned (take_back st msg s)")
    case True
    then obtain st2 where "send_statistic_to_manager env (take_back st msg s) = Inr st2"
      "send_termination_to_workers env st2 = Inr st'" using run s(2) by (auto simp: rbind_Inr_iff)
    then show ?thesis using send_statistic_inv [OF tb] send_termination_inv by blast
  next
    case False
    then show ?thesis using run s(2) tb by simp
  qed
qed

lemma requests_inv:
  "server_inv env (st\<lparr> work_unit_requests := (work_unit_requests st)[i := b] \<rparr>) = server_inv env st"
  by (simp add: server_inv_def schedule_inv_def workers_inv_def)

lemma renew_request_inv: "server_inv env st \<Longrightarrow> renew_request i st = Inr st' \<Longrightarrow> server_inv env st'"
  by (auto simp: renew_request_def rbind_Inr_iff defined_def requests_inv split: option.splits if_splits)

lemma req_max_inv:
  "server_inv env st \<Longrightarrow> process_w2s_REQ_MAX_CMD_LENGTH i p st = Inr st' \<Longrightarrow> server_inv env st'"
  by (auto simp: process_w2s_REQ_MAX_CMD_LENGTH_def rbind_Inr_iff defined_def server_inv_def
      schedule_inv_def workers_inv_def split: option.splits if_splits)

lemma renewed_inv:
  assumes "rbind m (renew_request i) = Inr st'" "\<And>st1. m = Inr st1 \<Longrightarrow> server_inv env st1"
  shows "server_inv env st'"
  using assms renew_request_inv by (cases m) auto

lemma worker_cmd_inv:
  assumes inv: "server_inv env st" and ok: "\<And>c msg. cmd = W2S_DONE_PROCESSING (c, Some msg) \<Longrightarrow> done_ok st msg"
    and run: "process_worker_cmd env i s cmd st = Inr st'"
  shows "server_inv env st'"
proof (cases cmd)
  case (W2S_REQ_MAX_CMD_LENGTH p)
  show ?thesis
    by (rule renewed_inv [OF run [unfolded W2S_REQ_MAX_CMD_LENGTH process_worker_cmd.simps]])
      (rule req_max_inv [OF inv])
next
  case (W2S_FOUND_SOLUTION p)
  show ?thesis
    by (rule renewed_inv [OF run [unfolded W2S_FOUND_SOLUTION process_worker_cmd.simps]])
      (rule found_solution_inv [OF inv])
next
  case (W2S_DONE_PROCESSING p)
  show ?thesis
    by (rule renewed_inv [OF run [unfolded W2S_DONE_PROCESSING process_worker_cmd.simps]],
        rule done_processing_inv [OF inv]) (use ok W2S_DONE_PROCESSING in auto)
next
  case (W2S_GET_INSTANCES p)
  show ?thesis
    by (rule renewed_inv [OF run [unfolded W2S_GET_INSTANCES process_worker_cmd.simps]])
      (rule get_instances_inv [OF inv])
qed (use run disconnect_inv [OF inv] in auto)

lemma manager_cmd_inv:
  assumes inj: "inj (accept env)" and inv: "server_inv env st"
    and small: "\<And>p. cmd = M2S_ADD_FILE p \<Longrightarrow> length (available_tasks st) < 2 ^ 32"
    and run: "process_manager_cmd env cmd st = Inr st'"
  shows "server_inv env st'"
proof (cases cmd)
  case (M2S_REQ_MAX_CMD_LENGTH p)
  then show ?thesis using run inv by (auto simp: rbind_Inr_iff server_inv_def)
next
  case (M2S_ADD_WORKERS c n)
  then show ?thesis using run add_workers_inv [OF inj inv] by simp
next
  case (M2S_ADD_FILE p)
  then show ?thesis using run add_file_inv [OF inv small] by simp
next
  case M2S_TERMINATE
  then show ?thesis using run send_termination_inv [OF inv] by simp
qed (use run in simp)

section \<open>Runs\<close>

text \<open>
  The environment is honest if a worker reports only instances it was given, and the manager
  sends fewer files than there are task numbers.
\<close>

definition honest :: "'p server_env \<Rightarrow> 'p server \<Rightarrow> 'p probes \<Rightarrow> bool" where
  "honest env st probes \<longleftrightarrow>
     (case fst probes of Some (i, s, W2S_DONE_PROCESSING (c, Some msg)) \<Rightarrow> done_ok st msg | _ \<Rightarrow> True) \<and>
     (case snd probes of
        Some (M2S_ADD_FILE p) \<Rightarrow> (case worker_probe env (fst probes) st of
          Inr st1 \<Rightarrow> length (available_tasks st1) < 2 ^ 32 | Inl _ \<Rightarrow> True)
      | _ \<Rightarrow> True)"

fun honest_run :: "'p server_env \<Rightarrow> 'p probes list \<Rightarrow> 'p server \<Rightarrow> bool" where
  "honest_run env [] st = True"
| "honest_run env (i # inputs) st = (running st \<longrightarrow> honest env st i \<and>
     (case server_iteration env i st of Inl _ \<Rightarrow> True | Inr st' \<Rightarrow> honest_run env inputs st'))"

lemma done_ok_requests [simp]: "done_ok (st\<lparr> work_unit_requests := rs \<rparr>) msg = done_ok st msg"
  by (simp add: done_ok_def)

lemma server_iteration_inv:
  assumes inj: "inj (accept env)" and inv: "server_inv env st" and hon: "honest env st probes"
    and run: "server_iteration env probes st = Inr st'"
  shows "server_inv env st'"
proof -
  obtain st1 where st1: "worker_probe env (fst probes) st = Inr st1"
    and st': "(case snd probes of None \<Rightarrow> Inr st1 | Some cmd \<Rightarrow> process_manager_cmd env cmd st1) = Inr st'"
    using run by (auto simp: server_iteration_def rbind_Inr_iff)
  have 1: "server_inv env st1"
  proof (cases "work_unit_requests st = [] \<or> fst probes = None")
    case True
    then show ?thesis using st1 inv by (auto simp: worker_probe_def split: if_splits)
  next
    case False
    then obtain i s cmd where p: "fst probes = Some (i, s, cmd)" by (metis not_None_eq prod_cases3)
    let ?st = "st\<lparr> work_unit_requests := (work_unit_requests st)[nat i := False] \<rparr>"
    have "process_worker_cmd env (nat i) s cmd ?st = Inr st1"
      using st1 p False by (auto simp: worker_probe_def split: if_splits)
    moreover have "done_ok ?st msg" if "cmd = W2S_DONE_PROCESSING (c, Some msg)" for c msg
      using hon that p by (simp add: honest_def)
    ultimately show ?thesis using worker_cmd_inv [of env ?st cmd] inv requests_inv by blast
  qed
  show ?thesis
  proof (cases "snd probes")
    case None
    then show ?thesis using 1 st' by simp
  next
    case (Some cmd)
    have "length (available_tasks st1) < 2 ^ 32" if "cmd = M2S_ADD_FILE p" for p
      using hon that Some st1 by (simp add: honest_def)
    then show ?thesis using manager_cmd_inv [OF inj 1, of cmd] st' Some by auto
  qed
qed

lemma server_init_inv: "server_inv env server_init"
  by (simp add: server_inv_def schedule_inv_def workers_inv_def server_init_def in_processing_def)

lemma server_loop_inv:
  "inj (accept env) \<Longrightarrow> server_inv env st \<Longrightarrow> honest_run env inputs st \<Longrightarrow>
   server_loop env inputs st = Inr st' \<Longrightarrow> server_inv env st'"
proof (induction inputs arbitrary: st)
  case (Cons i inputs)
  then show ?case using server_iteration_inv [of env st i]
    by (auto simp: rbind_Inr_iff split: if_splits)
qed simp

end
