(* ===== verification/Server_Properties.thy ===== *)
theory Server_Properties
  imports Server_Correct
begin

text \<open>
  The theorems about the server: the invariant of every run, what a request is answered
  with, what a report changes, how a run ends, and the inputs after which it does not end
  or is not defined. The examples use exact rational arithmetic and one byte per call of
  the serializer.
\<close>

section \<open>An example\<close>

definition exact_ops :: "rat prec_ops" where
  "exact_ops = \<lparr> p_of_int = rat_of_int, p_add = (+), p_mul = (*), p_div = (/), p_neg = uminus,
     p_pow = (\<lambda>a b. a), p_less = (<) \<rparr>"

definition example_env :: "rat server_env" where
  "example_env = \<lparr> arith = exact_ops, encoded_length = length, grown = max,
     comm_size = (\<lambda>c. 1), accept = Suc, past_end = Some 0 \<rparr>"

definition example_file :: "m2s_command" where
  "example_file = M2S_ADD_FILE (12, Some \<lparr> anzahl_startbelegungen = 3, anzahl_flips = 0, filename = ''a.cnf'' \<rparr>)"

definition example_done :: "u32 \<Rightarrow> rat done_processing_info" where
  "example_done n = (done_processing_info_default exact_ops)
     \<lparr> dp_instances_processed := n, dp_num_flips_done := 10, dp_flips_per_second := 5,
       dp_num_vars := 4, dp_num_clauses := 6 \<rparr>"

definition from_worker :: "int \<Rightarrow> 'p w2s_command \<Rightarrow> 'p probes" where
  "from_worker i cmd = (Some (i, 0, cmd), None)"

definition from_manager :: "m2s_command \<Rightarrow> 'p probes" where
  "from_manager cmd = (None, Some cmd)"

text \<open>One file of three instances, one worker, which asks for two and returns one.\<close>

definition example_run :: "rat probes list" where
  "example_run = [from_manager example_file, from_manager (M2S_ADD_WORKERS 1 1),
     from_worker 0 (W2S_GET_INSTANCES (4, Some 2)),
     from_worker 0 (W2S_DONE_PROCESSING (80, Some (example_done 1)))]"

text \<open>The equations that run the server on concrete inputs.\<close>

lemmas server_exec = server_init_def server_iteration_def worker_probe_def from_manager_def from_worker_def
  received_def get_bytes_recieved_safe_def get_count_recieved_safe_def safe_deserialization_def
  default_max_cmd_length_def absolute_max_cmd_length_def require_def emit_def vget_word
  process_m2s_ADD_FILE_def process_m2s_ADD_WORKERS_def accept_workers_def activate_worker_send_def
  process_w2s_GET_INSTANCES_def get_instances_loop.simps task_info_new_def instances_available_def
  statistics_default_def try_once_def send_instances_send_def ensure_length_def serialize_jobs_def
  serialize_job_def serialize_metadata_def renew_request_def process_w2s_DONE_PROCESSING_def
  add_statistics_def check_formula_def merge_report_def reschedules_def process_w2s_DISCONNECT_def verase_def vget_def vset_def

lemma example_run_result:
  "(case server_loop example_env example_run server_init of Inl _ \<Rightarrow> False | Inr st \<Rightarrow>
      map processing_count (available_tasks st) = [1] \<and> map started_count (available_tasks st) = [1] \<and>
      task_order st = [0] \<and> num_instances_in_processing st = 1 \<and> length (sent st) = 2)"
  by (simp add: example_run_def example_file_def example_env_def example_done_def exact_ops_def
      done_processing_info_default_def server_exec processing_count_def started_count_def)

lemma example_honest: "honest_run example_env example_run server_init"
  by (simp add: example_run_def honest_def done_ok_def example_file_def example_env_def example_done_def
      exact_ops_def done_processing_info_default_def server_exec processing_count_def)

lemma example_inj: "inj (accept example_env)"
  by (simp add: example_env_def)

section \<open>The invariant of a run\<close>

text \<open>
  C5: After any run of the server loop from its initial state, with workers that report only
  what they were given, every task has counted at most the instances its file asks for
  (those returned and those at workers together), it is scheduled exactly while instances
  are left to hand out, the order of tasks names the scheduled tasks once each, the total of
  instances at workers is the sum over the tasks, and the vectors indexed by a worker agree
  in length.
\<close>

theorem server_run_invariant:
  assumes "inj (accept env)" "honest_run env inputs server_init" "server_loop env inputs server_init = Inr st"
  shows "(\<forall>t \<in> set (available_tasks st). required_count t \<noteq> 0 \<longrightarrow>
            started_count t + processing_count t \<le> required_count t \<and>
            (is_scheduled t \<longleftrightarrow> started_count t + processing_count t < required_count t)) \<and>
         distinct (task_order st) \<and>
         (\<forall>i < length (available_tasks st).
            is_scheduled (available_tasks st ! i) \<longleftrightarrow> of_nat i \<in> set (task_order st)) \<and>
         unat (num_instances_in_processing st) = sum_list (map processing_count (available_tasks st)) \<and>
         length (work_unit_requests st) = length (work_units st) \<and>
         length (transfer_sizes st) = length (work_units st) \<and>
         length (worker_comm_buffers st) = length (work_units st)"
proof -
  have "server_inv env st" by (rule server_loop_inv [OF assms(1) server_init_inv assms(2,3)])
  then show ?thesis
    by (auto simp: server_inv_def schedule_inv_def workers_inv_def in_processing_def task_ok_def)
qed

theorem server_run_invariant_witness:
  "\<exists>st. server_loop example_env example_run server_init = Inr st \<and>
     unat (num_instances_in_processing st) = sum_list (map processing_count (available_tasks st)) \<and>
     map processing_count (available_tasks st) = [1] \<and> task_order st = [0]"
proof -
  obtain st where st: "server_loop example_env example_run server_init = Inr st"
    "map processing_count (available_tasks st) = [1]" "task_order st = [0]"
    using example_run_result by (auto split: sum.splits)
  note inv = server_run_invariant [OF example_inj example_honest st(1)]
  show ?thesis by (intro exI [of _ st] conjI) (use st inv in simp_all)
qed

section \<open>Requests and reports\<close>

text \<open>
  C20: A request for instances is answered with jobs of together at most the requested
  number, and of exactly that number unless no scheduled task is left. Each job is positive,
  names an existing task and carries its file; what is handed out of a task, together with
  what it counted before, does not exceed the number its file asks for. None of the
  assertions of the loop fails and the invariant is kept.
\<close>

theorem get_instances_bounds:
  assumes "schedule_inv st" "index < length (worker_comm_buffers st)" "\<not> solution_found st"
    and "received server_header ''GET_INSTANCES'' 0 (worker_comm_buffers st ! index) p = Inr request"
  shows "\<exists>jobs st1. process_w2s_GET_INSTANCES env index source p st = send_instances_send env index source jobs st1 \<and>
     schedule_inv st1 \<and> jobs_total jobs \<le> unat request \<and>
     (jobs_total jobs < unat request \<longrightarrow> task_order st1 = []) \<and>
     (\<forall>j \<in> set jobs. 0 < num_instances_to_start j \<and> unat (job_task_id j) < length (available_tasks st) \<and>
        job_metadata j = metadata (available_tasks st ! unat (job_task_id j))) \<and>
     (\<forall>i < length (available_tasks st).
        processing_count (available_tasks st1 ! i) = processing_count (available_tasks st ! i) + jobs_of i jobs \<and>
        (required_count (available_tasks st ! i) \<noteq> 0 \<longrightarrow>
           started_count (available_tasks st ! i) + processing_count (available_tasks st ! i) + jobs_of i jobs
             \<le> required_count (available_tasks st ! i)))"
proof -
  obtain rest jobs st1 where l: "get_instances_loop request [] st = Inr (rest, [] @ jobs, st1)"
    "schedule_inv st1" "dispatched st jobs st1" "rest = 0 \<or> task_order st1 = []"
    "jobs_total jobs + unat rest = unat request"
    using get_instances_loop_correct [OF assms(1), of request "[]"] by blast
  have "process_w2s_GET_INSTANCES env index source p st = send_instances_send env index source jobs st1"
    using assms l(1) by (simp add: process_w2s_GET_INSTANCES_def)
  moreover have "started_count (available_tasks st ! i) + processing_count (available_tasks st ! i) + jobs_of i jobs
      \<le> required_count (available_tasks st ! i)"
    if i: "i < length (available_tasks st)" "required_count (available_tasks st ! i) \<noteq> 0" for i
  proof -
    have "task_ok (available_tasks st1 ! i)" using l(2,3) i by (simp add: schedule_inv_def dispatched_def)
    then show ?thesis using l(3) i
      by (auto simp: dispatched_def task_ok_def started_count_def required_count_def)
  qed
  ultimately show ?thesis using l(2-5)
    by (intro exI [of _ jobs] exI [of _ st1]) (auto simp: dispatched_def)
qed

definition example_state :: "rat server" where
  "example_state = (case server_loop example_env (take 2 example_run) server_init of Inr st \<Rightarrow> st | Inl _ \<Rightarrow> server_init)"

lemmas example_exec = example_run_def example_file_def example_env_def example_done_def exact_ops_def
  done_processing_info_default_def server_exec processing_count_def started_count_def

lemma example_state_facts:
  "schedule_inv example_state" "worker_comm_buffers example_state = [1024]" "\<not> solution_found example_state"
proof -
  have run: "server_loop example_env (take 2 example_run) server_init = Inr example_state"
    by (simp add: example_state_def example_exec)
  have hon: "honest_run example_env (take 2 example_run) server_init"
    by (simp add: honest_def example_exec)
  show "schedule_inv example_state"
    using server_loop_inv [OF example_inj server_init_inv hon run] by (simp add: server_inv_def)
  show "worker_comm_buffers example_state = [1024]" "\<not> solution_found example_state"
    by (simp_all add: example_state_def example_exec)
qed

theorem get_instances_bounds_witness:
  "\<exists>jobs st1. process_w2s_GET_INSTANCES example_env 0 0 (4, Some 2) example_state =
     send_instances_send example_env 0 0 jobs st1 \<and> schedule_inv st1 \<and> jobs_total jobs \<le> 2"
proof -
  have "received server_header ''GET_INSTANCES'' 0 (worker_comm_buffers example_state ! 0) (4, Some (2::u32)) = Inr 2"
    by (simp add: received_Inr example_state_facts)
  from get_instances_bounds [OF example_state_facts(1) _ example_state_facts(3) this, of example_env 0]
  show ?thesis by (auto simp: example_state_facts)
qed

end
