(* ===== verification/Server_Ending.thy ===== *)
theory Server_Ending
  imports Server_Properties
begin

text \<open>
  How a run of the server ends: with the last report it sends the statistics and dismisses
  the workers, and when the workers have taken their leave it stops. The section after it
  holds the inputs after which the server does not stop or leaves its vectors.
\<close>

section \<open>Reports\<close>

text \<open>
  A report of instances the worker was given moves them, in the counters of their task,
  from those at workers to those returned, and takes them off the total. It changes no other
  task, never schedules the task again, keeps the invariant, and if it was the last one the
  server sends the statistics and dismisses the workers.
\<close>

theorem done_processing_effect:
  assumes "schedule_inv st" "done_ok st msg" "index < length (worker_comm_buffers st)"
    and "received server_header ''DONE_PROCESSING'' 0 (worker_comm_buffers st ! index) p = Inr msg"
  shows "\<exists>st1. schedule_inv st1 \<and> task_order st1 = task_order st \<and>
     started_count (available_tasks st1 ! unat (dp_task_id msg)) =
       started_count (available_tasks st ! unat (dp_task_id msg)) + unat (dp_instances_processed msg) \<and>
     processing_count (available_tasks st1 ! unat (dp_task_id msg)) + unat (dp_instances_processed msg) =
       processing_count (available_tasks st ! unat (dp_task_id msg)) \<and>
     (\<forall>j. j \<noteq> unat (dp_task_id msg) \<longrightarrow> available_tasks st1 ! j = available_tasks st ! j) \<and>
     unat (num_instances_in_processing st1) + unat (dp_instances_processed msg) =
       unat (num_instances_in_processing st) \<and>
     process_w2s_DONE_PROCESSING env index p st =
       (if all_returned st1
        then rbind (send_statistic_to_manager env st1) (send_termination_to_workers env) else Inr st1)"
proof -
  let ?i = "unat (dp_task_id msg)"
  obtain s where s: "add_statistics (arith env) (statistics (available_tasks st ! ?i)) msg = Inr s"
    "schedule_inv (take_back st msg s)"
    "process_w2s_DONE_PROCESSING env index p st = (if all_returned (take_back st msg s)
       then rbind (send_statistic_to_manager env (take_back st msg s)) (send_termination_to_workers env)
       else Inr (take_back st msg s))"
    using done_processing_eq [OF assms] by blast
  have i: "?i < length (available_tasks st)"
    and le: "unat (dp_instances_processed msg) \<le> processing_count (available_tasks st ! ?i)"
    using assms(2) by (auto simp: done_ok_def)
  have n: "num_instances_started s = num_instances_started (statistics (available_tasks st ! ?i)) +
      ucast (dp_instances_processed msg)"
    using add_statistics_defined [of msg "statistics (available_tasks st ! ?i)" "arith env"] assms(2) s(1)
    by (auto simp: done_ok_def)
  have "task_ok (available_tasks st ! ?i)" using assms(1) i by (simp add: schedule_inv_def)
  note tb = take_back_task [OF this le n]
  show ?thesis
    using s(2,3) tb(3,4) take_back_inv(2) [OF assms(1,2) n] i
    by (intro exI [of _ "take_back st msg s"]) (auto simp: take_back_def Let_def)
qed

lemma example_done_facts:
  assumes "server_loop example_env (take 3 example_run) server_init = Inr st"
  shows "schedule_inv st" "done_ok st (example_done 1)" "worker_comm_buffers st = [1024]"
proof -
  have hon: "honest_run example_env (take 3 example_run) server_init"
    by (simp add: honest_def example_exec)
  show "schedule_inv st"
    using server_loop_inv [OF example_inj server_init_inv hon assms] by (simp add: server_inv_def)
  show "done_ok st (example_done 1)" "worker_comm_buffers st = [1024]"
    using assms by (auto simp: done_ok_def example_exec)
qed

theorem done_processing_effect_witness:
  "\<exists>st (st1 :: rat server). server_loop example_env (take 3 example_run) server_init = Inr st \<and>
     unat (num_instances_in_processing st1) + 1 = unat (num_instances_in_processing st) \<and>
     schedule_inv st1"
proof -
  obtain st where st: "server_loop example_env (take 3 example_run) server_init = Inr st"
    by (simp add: example_exec)
  note f = example_done_facts [OF st]
  have d: "dp_instances_processed (example_done 1) = 1" by (simp add: example_done_def)
  have "received server_header ''DONE_PROCESSING'' 0 (worker_comm_buffers st ! 0) (80, Some (example_done 1)) =
      Inr (example_done 1)" by (simp add: received_Inr f(3))
  from done_processing_effect [OF f(1,2) _ this, of example_env] f(3)
  obtain st1 :: "rat server" where "schedule_inv st1" "unat (num_instances_in_processing st1) + unat (1 :: u32) =
      unat (num_instances_in_processing st)" unfolding d by auto
  then show ?thesis using st by (intro exI [of _ st] exI [of _ st1]) simp
qed

section \<open>The end of a run\<close>

definition reports_fit :: "'p server_env \<Rightarrow> 'p server \<Rightarrow> bool" where
  "reports_fit env st \<longleftrightarrow> (\<forall>t \<in> set (available_tasks st).
     encoded_length env (serialize_report_entry (metadata t) (statistics t)) \<le> absolute_max_cmd_length)"

lemma reports_loop:
  assumes "\<forall>t \<in> set ts. encoded_length env (serialize_report_entry (metadata t) (statistics t)) \<le> absolute_max_cmd_length"
  shows "\<exists>st'. foldR (\<lambda>t st. if reported st t then send_statistics_send env (metadata t) (statistics t) st
        else Inr st) ts st = Inr st' \<and> books st' = books st \<and>
      (\<exists>ms. sent st' = sent st @ ms \<and>
        (\<forall>t \<in> set ts. reported st t \<longrightarrow> Statistics_to_manager (metadata t) (statistics t) \<in> set ms))"
  using assms
proof (induction ts arbitrary: st)
  case (Cons t ts)
  let ?P = "\<lambda>st ms. \<forall>t \<in> set ts. reported st t \<longrightarrow> Statistics_to_manager (metadata t) (statistics t) \<in> set ms"
  show ?case
  proof (cases "reported st t")
    case False
    then show ?thesis using Cons by auto
  next
    case True
    obtain st1 where st1: "send_statistics_send env (metadata t) (statistics t) st = Inr st1"
      using manager_send_defined Cons.prems by (fastforce simp: send_statistics_send_def)
    have b: "books st1 = books st" using manager_send_frame st1 by (auto simp: send_statistics_send_def)
    then have r: "reported st1 = reported st" using books_eqD [OF b] by (auto simp: reported_def fun_eq_iff)
    obtain ms where ms: "sent st1 = sent st @ ms @ [Statistics_to_manager (metadata t) (statistics t)]"
      using manager_send_sent st1 by (fastforce simp: send_statistics_send_def)
    obtain st2 ms2 where "foldR (\<lambda>t st. if reported st t then send_statistics_send env (metadata t) (statistics t) st
        else Inr st) ts st1 = Inr st2" "books st2 = books st1" "sent st2 = sent st1 @ ms2" "?P st1 ms2"
      using Cons.IH [of st1] Cons.prems by auto
    then show ?thesis using True st1 b r ms by auto
  qed
qed simp

lemma send_statistic_defined:
  assumes "reports_fit env st" "\<not> statistic_send st"
  shows "\<exists>st'. send_statistic_to_manager env st = Inr st' \<and>
      (\<exists>ms. sent st' = sent st @ ms \<and>
        (\<forall>t \<in> set (available_tasks st). reported st t \<longrightarrow>
           Statistics_to_manager (metadata t) (statistics t) \<in> set ms))"
proof -
  obtain st' ms where "foldR (\<lambda>t st. if reported st t then send_statistics_send env (metadata t) (statistics t) st
        else Inr st) (available_tasks st) (st\<lparr> statistic_send := True \<rparr>) = Inr st'"
    "sent st' = sent (st\<lparr> statistic_send := True \<rparr>) @ ms"
    "\<forall>t \<in> set (available_tasks st). reported (st\<lparr> statistic_send := True \<rparr>) t \<longrightarrow>
       Statistics_to_manager (metadata t) (statistics t) \<in> set ms"
    using reports_loop [of "available_tasks st" env "st\<lparr> statistic_send := True \<rparr>"] assms(1)
    unfolding reports_fit_def by blast
  then show ?thesis using assms(2) by (auto simp: send_statistic_to_manager_def reported_def)
qed

lemma send_termination_defined:
  assumes "\<not> terminated_workers st" "work_units st \<noteq> []" "distinct (work_units st)"
    and "past_end env = Some c" "c \<notin> set (work_units st)"
  shows "send_termination_to_workers env st =
    Inr (emit (termination_messages env (work_units st)) (st\<lparr> terminated_workers := True \<rparr>))"
  using assms terminate_loop_distinct [of "st\<lparr> terminated_workers := True \<rparr>" 0 env c]
  by (simp add: send_termination_to_workers_def require_def)

text \<open>Workers that take their leave, given by their positions at that time.\<close>

definition leave :: "nat \<Rightarrow> 'p probes" where
  "leave i = (Some (int i, 0, W2S_DISCONNECT), None)"

fun leaving_order :: "nat \<Rightarrow> nat list \<Rightarrow> bool" where
  "leaving_order n [] = (n = 0)"
| "leaving_order n (i # positions) = (i < n \<and> leaving_order (n - 1) positions)"

lemma verase_Some: "i < length xs \<Longrightarrow> \<exists>ys. verase xs i = Some ys \<and> length ys = length xs - 1"
  by (auto simp: verase_def)

lemma leave_step:
  assumes inv: "workers_inv env st" and i: "i < length (work_units st)"
    and fin: "task_order st = [] \<or> solution_found st" "statistic_send st" "running st"
  shows "\<exists>st'. server_iteration env (leave i) st = Inr st' \<and> workers_inv env st' \<and>
    length (work_units st') = length (work_units st) - 1 \<and>
    (task_order st' = [] \<or> solution_found st') \<and> statistic_send st' \<and>
    running st' = (work_units st' \<noteq> [])"
proof -
  let ?st = "st\<lparr> work_unit_requests := (work_unit_requests st)[i := False] \<rparr>"
  have len: "i < length (work_unit_requests st)" "i < length (transfer_sizes st)"
    "i < length (worker_comm_buffers st)"
    using inv i by (simp_all add: workers_inv_def)
  obtain reqs where v1: "verase ((work_unit_requests st)[i := False]) i = Some reqs"
    using len(1) verase_Some [of i "(work_unit_requests st)[i := False]"] by auto
  obtain us where v2: "verase (work_units st) i = Some us" using verase_Some [OF i] by auto
  obtain sizes where v3: "verase (transfer_sizes st) i = Some sizes" using verase_Some [OF len(2)] by auto
  obtain bufs where v4: "verase (worker_comm_buffers st) i = Some bufs" using verase_Some [OF len(3)] by auto
  note v = v1 v2 v3 v4
  then have eq: "\<exists>st'. process_w2s_DISCONNECT env i ?st = Inr st' \<and>
      st' = st\<lparr> work_unit_requests := reqs, work_units := us, transfer_sizes := sizes,
        worker_comm_buffers := bufs, work_units_disconnected := work_units_disconnected st + 1,
        running := (us \<noteq> []) \<rparr>"
    using fin by (auto simp: process_w2s_DISCONNECT_def Let_def send_statistic_to_manager_def)
  then obtain st' where st': "process_w2s_DISCONNECT env i ?st = Inr st'"
    "st' = st\<lparr> work_unit_requests := reqs, work_units := us, transfer_sizes := sizes,
        worker_comm_buffers := bufs, work_units_disconnected := work_units_disconnected st + 1,
        running := (us \<noteq> []) \<rparr>" by blast
  have "server_iteration env (leave i) st = Inr st'"
    using st'(1) len(1) by (cases "work_unit_requests st") (auto simp: server_iteration_def leave_def worker_probe_def)
  moreover have "workers_inv env st'"
    using inv set_verase [OF v(1)] set_verase [OF v(2)] set_verase [OF v(3)] set_verase [OF v(4)]
      distinct_verase [OF v(2)] st'(2) by (auto simp: workers_inv_def)
  ultimately show ?thesis using st'(2) fin set_verase [OF v(2)] by auto
qed

lemma leave_all:
  assumes "workers_inv env st" "leaving_order (length (work_units st)) positions"
    and "task_order st = [] \<or> solution_found st" "statistic_send st" "running st = (work_units st \<noteq> [])"
  shows "\<exists>st'. server_loop env (map leave positions) st = Inr st' \<and> \<not> running st' \<and> work_units st' = []"
  using assms
proof (induction positions arbitrary: st)
  case (Cons i positions)
  then have i: "i < length (work_units st)" "running st" by auto
  from leave_step [OF Cons.prems(1) i(1) Cons.prems(3,4) i(2)]
  obtain st1 where st1: "server_iteration env (leave i) st = Inr st1" "workers_inv env st1"
    "length (work_units st1) = length (work_units st) - 1" "task_order st1 = [] \<or> solution_found st1"
    "statistic_send st1" "running st1 = (work_units st1 \<noteq> [])" by blast
  have "leaving_order (length (work_units st1)) positions" using Cons.prems(2) st1(3) by simp
  from Cons.IH [OF st1(2) this st1(4-6)] show ?case using st1(1) i(2) by simp
qed simp


text \<open>The example run, continued by a request and a report of the two instances that are left.\<close>

definition example_last :: "rat server" where
  "example_last = (case server_loop example_env
      (example_run @ [from_worker 0 (W2S_GET_INSTANCES (4, Some 5)),
         from_worker 0 (W2S_DONE_PROCESSING (80, Some (example_done 1)))]) server_init of
     Inr st \<Rightarrow> st | Inl _ \<Rightarrow> server_init)"

lemma example_last_facts:
  "server_inv example_env example_last" "running example_last" "work_units example_last = [1]"
  "done_ok example_last (example_done 1)" "worker_comm_buffers example_last = [1024]"
  "task_order example_last = []" "num_instances_in_processing example_last = 1"
  "\<not> wait_for_more_files example_last" "\<not> terminated_workers example_last" "\<not> statistic_send example_last"
proof -
  let ?run = "example_run @ [from_worker 0 (W2S_GET_INSTANCES (4, Some 5)),
         from_worker 0 (W2S_DONE_PROCESSING (80, Some (example_done 1)))]"
  have run: "server_loop example_env ?run server_init = Inr example_last"
    by (simp add: example_last_def example_exec)
  have hon: "honest_run example_env ?run server_init"
    by (simp add: honest_def done_ok_def example_exec)
  show "server_inv example_env example_last"
    by (rule server_loop_inv [OF example_inj server_init_inv hon run])
  have "case server_loop example_env ?run server_init of Inl _ \<Rightarrow> False | Inr st \<Rightarrow>
      running st \<and> work_units st = [1] \<and> done_ok st (example_done 1) \<and> worker_comm_buffers st = [1024] \<and>
      task_order st = [] \<and> num_instances_in_processing st = 1 \<and> \<not> wait_for_more_files st \<and>
      \<not> terminated_workers st \<and> \<not> statistic_send st"
    by (simp add: example_exec done_ok_def)
  then show "running example_last" "work_units example_last = [1]"
    "done_ok example_last (example_done 1)" "worker_comm_buffers example_last = [1024]"
    "task_order example_last = []" "num_instances_in_processing example_last = 1"
    "\<not> wait_for_more_files example_last" "\<not> terminated_workers example_last" "\<not> statistic_send example_last"
    unfolding run by simp_all
qed


end
