(* ===== verification/Server_Limits.thy ===== *)
theory Server_Limits
  imports Server_Ending
begin

text \<open>
  What the server does outside the intended course: dismissing workers reads past the end of
  a vector, a server that was dismissed by the manager with work left never stops, and what
  the averages in the statistics are.
\<close>

section \<open>Dismissing the workers\<close>

lemma skip_run_past_end:
  "past_end env = None \<Longrightarrow> skip_run env us c i = Some j \<Longrightarrow> j < length us"
proof (induction env us c i rule: skip_run.induct)
  case (1 env us c i)
  have "(case unit_at env us i of None \<Rightarrow> None
     | Some c' \<Rightarrow> if c = c' then skip_run env us c (i + 1) else Some i) = Some j"
    using "1.prems"(2) skip_run.simps [of env us c i] by simp
  then show ?case using "1.IH" "1.prems"(1)
    by (auto simp: unit_at_def split: option.splits if_splits)
qed

lemma terminate_loop_past_end:
  "past_end env = None \<Longrightarrow> terminate_loop env i st = Inl Undefined_behaviour"
proof (induction "length (work_units st) - i" arbitrary: i st rule: less_induct)
  case less
  show ?case
  proof (cases "i < length (work_units st)")
    case True
    let ?st = "emit (map (Terminate_worker (work_units st ! i)) [0..<comm_size env (work_units st ! i)]) st"
    have "terminate_loop env j ?st = Inl Undefined_behaviour"
      if "skip_run env (work_units st) (work_units st ! i) (i + 1) = Some j" for j
      using less.hyps [of ?st j] skip_run_ge [OF that] True less.prems by simp
    then show ?thesis
      using True skip_run_past_end [OF less.prems]
      by (auto simp: terminate_loop.simps [of env i st] terminate_sends split: option.splits)
  qed (simp add: terminate_loop.simps [of env i st])
qed

text \<open>
  C37: Dismissing the workers fails an assertion when there is none, and otherwise always
  reads \<open>work_units\<close> one past its end: the inner loop that skips equal communicators has no
  test of the bound. With memory that does not answer such a read it is undefined behaviour,
  with memory that does (a value that is no communicator of a worker) every worker is sent
  \<open>TERMINATE\<close> once per process.
\<close>

theorem termination_reads_past_end:
  assumes "\<not> terminated_workers st" "distinct (work_units st)"
    and "\<forall>c. past_end env = Some c \<longrightarrow> c \<notin> set (work_units st)"
  shows "send_termination_to_workers env st =
    (if work_units st = [] then Inl Assertion_failed
     else if past_end env = None then Inl Undefined_behaviour
     else Inr (emit (termination_messages env (work_units st)) (st\<lparr> terminated_workers := True \<rparr>)))"
proof (cases "work_units st = [] \<or> past_end env = None")
  case True
  then show ?thesis using assms(1) terminate_loop_past_end [of env]
    by (auto simp: send_termination_to_workers_def require_def)
next
  case False
  then obtain d where "past_end env = Some d" by auto
  with assms(3) have "d \<notin> set (work_units st)" by simp
  then show ?thesis using send_termination_defined [OF assms(1) _ assms(2) \<open>past_end env = Some d\<close>] False
    by simp
qed

theorem termination_reads_past_end_witness:
  "send_termination_to_workers (example_env\<lparr> past_end := None \<rparr>) (server_init\<lparr> work_units := [1, 2] \<rparr>) =
     Inl Undefined_behaviour \<and>
   send_termination_to_workers example_env (server_init :: rat server) = Inl Assertion_failed"
  using termination_reads_past_end [of "server_init\<lparr> work_units := [1, 2] \<rparr>" "example_env\<lparr> past_end := None \<rparr>"]
    termination_reads_past_end [of server_init example_env]
  by (simp add: server_init_def)

section \<open>A server that does not stop\<close>

lemma idle_probe: "work_unit_requests st = [] \<Longrightarrow> worker_probe env p st = Inr st"
  by (simp add: worker_probe_def)

lemma stuck_step:
  assumes st: "work_units st = []" "work_unit_requests st = []" "terminated_workers st"
    and cmd: "\<forall>c n. snd i \<noteq> Some (M2S_ADD_WORKERS c n)" and run: "server_iteration env i st = Inr st'"
  shows "work_units st' = [] \<and> work_unit_requests st' = [] \<and> terminated_workers st' \<and> running st' = running st"
proof (cases "snd i")
  case None
  then show ?thesis using st run by (auto simp: server_iteration_def idle_probe)
next
  case (Some m)
  then have "process_manager_cmd env m st = Inr st'"
    using run by (simp add: server_iteration_def idle_probe [OF st(2)])
  then show ?thesis using st cmd Some
    by (cases m) (auto simp: rbind_Inr_iff process_m2s_ADD_FILE_def send_termination_to_workers_def Let_def)
qed

text \<open>
  C36: A server that has dismissed its workers and lost the last of them while it is still
  running never stops, whatever else the manager sends, unless it adds new workers: only the
  disconnection of a worker ends the loop.
\<close>

theorem server_never_stops:
  assumes "work_units st = []" "work_unit_requests st = []" "terminated_workers st" "running st"
    and "\<forall>i \<in> set inputs. \<forall>c n. snd i \<noteq> Some (M2S_ADD_WORKERS c n)"
    and "server_loop env inputs st = Inr st'"
  shows "running st' \<and> work_units st' = []"
  using assms
proof (induction inputs arbitrary: st)
  case (Cons i inputs)
  then obtain st1 where st1: "server_iteration env i st = Inr st1" "server_loop env inputs st1 = Inr st'"
    by (auto simp: rbind_Inr_iff)
  have "work_units st1 = [] \<and> work_unit_requests st1 = [] \<and> terminated_workers st1 \<and> running st1 = running st"
    using stuck_step [OF Cons.prems(1-3) _ st1(1)] Cons.prems(5) by simp
  then show ?case using Cons.IH [of st1] Cons.prems(4,5) st1(2) by simp
qed simp

text \<open>
  The state is reached when the manager sends \<open>TERMINATE\<close> while a file is unfinished and the
  worker disconnects: the instance it held is never reported.
\<close>

definition dismissed_run :: "rat probes list" where
  "dismissed_run = [from_manager example_file, from_manager (M2S_ADD_WORKERS 1 1),
     from_worker 0 (W2S_GET_INSTANCES (4, Some 2)), from_manager M2S_TERMINATE, leave 0]"

lemma terminate_loop_single:
  "work_units st = [c] \<Longrightarrow> past_end env = Some d \<Longrightarrow> d \<noteq> c \<Longrightarrow>
   terminate_loop env 0 st = Inr (emit (map (Terminate_worker c) [0..<comm_size env c]) st)"
  using terminate_loop_distinct [of st 0 env d] by (simp add: termination_messages_def)

lemma dismissed_run_result:
  "\<exists>st. server_loop example_env dismissed_run server_init = Inr st \<and> work_units st = [] \<and>
     work_unit_requests st = [] \<and> terminated_workers st \<and> running st"
  by (simp add: dismissed_run_def leave_def send_termination_to_workers_def terminate_loop_single example_exec)

theorem server_never_stops_witness:
  "\<exists>st. server_loop example_env dismissed_run server_init = Inr st \<and>
     (\<forall>st'. server_loop example_env [from_manager M2S_TERMINATE, (None, None)] st = Inr st' \<longrightarrow> running st')"
proof -
  obtain st where st: "server_loop example_env dismissed_run server_init = Inr st" "work_units st = []"
    "work_unit_requests st = []" "terminated_workers st" "running st" using dismissed_run_result by blast
  have "\<forall>i \<in> set [from_manager M2S_TERMINATE, (None, None)]. \<forall>c n. snd i \<noteq> Some (M2S_ADD_WORKERS c n)"
    by (simp add: from_manager_def)
  then show ?thesis using server_never_stops [OF st(2-5)] st(1) by blast
qed

section \<open>Statistics\<close>

definition reports_processed :: "rat done_processing_info list \<Rightarrow> nat" where
  "reports_processed ms = sum_list (map (\<lambda>m. unat (dp_instances_processed m)) ms)"

text \<open>What the statistics of a task say after the reports \<open>ms\<close>.\<close>

definition summarises :: "rat problem_instance_statistics \<Rightarrow> rat done_processing_info list \<Rightarrow> bool" where
  "summarises s ms \<longleftrightarrow>
     unat (num_instances_started s) = reports_processed ms \<and>
     avg_flips_per_second s * of_nat (reports_processed ms) =
       sum_list (map (\<lambda>m. dp_flips_per_second m * of_nat (unat (dp_instances_processed m))) ms) \<and>
     total_num_flips s = sum_list (map dp_num_flips_done ms) \<and>
     times_solved s = of_nat (length (filter dp_solved ms)) \<and>
     (\<forall>m \<in> set ms. dp_solved m \<longrightarrow> min_flips_to_solve s \<le> dp_num_flips_done m) \<and>
     (filter dp_solved ms = [] \<longrightarrow> min_flips_to_solve s = - 1) \<and>
     (filter dp_solved ms \<noteq> [] \<longrightarrow> (\<exists>m \<in> set ms. dp_solved m \<and> min_flips_to_solve s = dp_num_flips_done m))"

lemma summarises_step:
  assumes s: "summarises s ms" and nv: "0 < total_num_flips s \<longrightarrow> stat_num_vars s = v \<and> stat_num_clauses s = c"
    and m: "dp_num_vars m = v" "dp_num_clauses m = c"
    and bound: "reports_processed (ms @ [m]) < 2 ^ 64" and pos: "0 < unat (dp_instances_processed m)"
  shows "\<exists>s'. add_statistics exact_ops s m = Inr s' \<and> summarises s' (ms @ [m]) \<and>
    (0 < total_num_flips s' \<longrightarrow> stat_num_vars s' = v \<and> stat_num_clauses s' = c)"
proof -
  let ?n = "reports_processed ms" and ?k = "unat (dp_instances_processed m)"
  define s1 where "s1 = (if 0 < dp_num_flips_done m \<and> \<not> 0 < total_num_flips s
      then s\<lparr> stat_num_vars := v, stat_num_clauses := c \<rparr> else s)"
  have s1: "check_formula s m = Inr s1"
    "num_instances_started s1 = num_instances_started s" "avg_flips_per_second s1 = avg_flips_per_second s"
    "total_num_flips s1 = total_num_flips s" "times_solved s1 = times_solved s"
    "min_flips_to_solve s1 = min_flips_to_solve s"
    "0 < dp_num_flips_done m \<or> 0 < total_num_flips s \<longrightarrow> stat_num_vars s1 = v \<and> stat_num_clauses s1 = c"
    using nv m by (auto simp: check_formula_def s1_def)
  define s' where "s' = merge_report exact_ops s1 m"
  have s': "add_statistics exact_ops s m = Inr s'" by (simp add: add_statistics_def s1(1) s'_def)
  have ns: "unat (num_instances_started s) = ?n" using s by (simp add: summarises_def)
  have sum: "unat (num_instances_started s + ucast (dp_instances_processed m)) = ?n + ?k"
    using bound ns by (simp add: unat_u64_add reports_processed_def)
  have rats: "(unsigned (num_instances_started s) :: rat) = of_nat ?n"
    "(unsigned (num_instances_started s + ucast (dp_instances_processed m)) :: rat) =
       of_nat ?n + unsigned (dp_instances_processed m)"
    using arg_cong [OF ns, of rat_of_nat] arg_cong [OF sum, of rat_of_nat] by simp_all
  have flds: "num_instances_started s' = num_instances_started s + ucast (dp_instances_processed m)"
    "avg_flips_per_second s' = (avg_flips_per_second s * of_nat ?n + dp_flips_per_second m * of_nat ?k) / of_nat (?n + ?k)"
    "total_num_flips s' = total_num_flips s + dp_num_flips_done m"
    "times_solved s' = times_solved s + (if dp_solved m then 1 else 0)"
    "min_flips_to_solve s' = (if dp_solved m then min (min_flips_to_solve s) (dp_num_flips_done m) else min_flips_to_solve s)"
    by (simp_all add: s'_def merge_report_def Let_def exact_ops_def rats s1(2-6))
  have "0 < total_num_flips s' \<longrightarrow> stat_num_vars s' = v \<and> stat_num_clauses s' = c"
    using s1(7) by (cases "dp_num_flips_done m = 0") (auto simp: s'_def merge_report_def Let_def word_gt_0 s1(4))
  note flds = flds this
  have "avg_flips_per_second s' * of_nat (?n + ?k) =
      avg_flips_per_second s * of_nat ?n + dp_flips_per_second m * of_nat ?k"
  proof -
    have "rat_of_nat (?n + ?k) \<noteq> 0" using pos by (metis add_is_0 less_numeral_extra(3) of_nat_eq_0_iff)
    then show ?thesis by (simp only: flds(2) times_divide_eq_left nonzero_mult_div_cancel_right [OF \<open>rat_of_nat (?n + ?k) \<noteq> 0\<close>])
  qed
  moreover have "reports_processed (ms @ [m]) = ?n + ?k" by (simp add: reports_processed_def)
  moreover have "\<forall>x \<in> set (ms @ [m]). dp_solved x \<longrightarrow> min_flips_to_solve s' \<le> dp_num_flips_done x"
    using s unfolding summarises_def flds(5) by (auto simp: min_le_iff_disj)
  moreover have "filter dp_solved (ms @ [m]) = [] \<longrightarrow> min_flips_to_solve s' = - 1"
    using s unfolding summarises_def flds(5) by (auto split: if_splits)
  moreover have "filter dp_solved (ms @ [m]) \<noteq> [] \<longrightarrow>
      (\<exists>x \<in> set (ms @ [m]). dp_solved x \<and> min_flips_to_solve s' = dp_num_flips_done x)"
  proof (cases "dp_solved m \<and> min_flips_to_solve s' = dp_num_flips_done m")
    case False
    have top: "min (- 1) d = d" for d :: u64 by (rule min_absorb2) (rule word_order.extremum)
    have keep: "min_flips_to_solve s' = min_flips_to_solve s"
      using False by (auto simp: flds(5) min_def split: if_splits)
    show ?thesis
    proof (cases "filter dp_solved ms = []")
      case True
      then have "\<not> dp_solved m" using False s top by (auto simp: flds(5) summarises_def)
      then show ?thesis using True by simp
    next
      case False
      then show ?thesis using keep s by (auto simp: summarises_def)
    qed
  qed auto
  ultimately have "summarises s' (ms @ [m])"
    using s sum unfolding summarises_def flds(1,3,4) by simp
  then show ?thesis using s' flds(6) by blast
qed



end
