(* ===== verification/Manager_Properties.thy ===== *)
theory Manager_Properties
  imports Manager_Correct Server_Limits
begin

text \<open>
  The properties of the manager: what a command sends, the statistic it keeps, the end of
  its main loop, and the inputs and messages it does not survive.
\<close>

section \<open>Commands\<close>

text \<open>
  C31: \<open>add_workers\<close> with a number starts that many workers, one at a time: each is announced to
  the server and spawned with the name of the problem instance and the arguments of the
  command, which MPI reads back unchanged from the buffer they were packed into. A number
  that is not positive starts none.
\<close>

theorem add_workers_correct:
  assumes "\<not> mg_solution_found m" and "2 \<le> length args" and "stoi (args ! 1) = Inr n"
    and "argv = mg_server_name m # drop 3 args" and "\<forall>arg \<in> set argv. nul \<notin> set arg"
  shows "\<exists>m'. cmd_add_workers env args m = Inr m' \<and>
    mg_sent m' = mg_sent m @ concat (replicate (nat n) [Add_workers 1, Spawn_workers 1 argv]) \<and>
    length (mg_workers m') = length (mg_workers m) + nat n"
  using add_workers_loop_eq [OF assms(5), of env n m] assms
  by (simp add: cmd_add_workers_def thrown_def)

definition example_manager_env :: "string \<Rightarrow> rat manager_env" where
  "example_manager_env text = \<lparr> me_arith = exact_ops, me_round = (\<lambda>x. x), me_length = (\<lambda>_. 40),
     me_grown = (\<lambda>cap n. max cap n), me_spawn = (\<lambda>k. k), me_memory = (\<lambda>_. CHR ''x''),
     me_input = text, me_seekable = True \<rparr>"

definition example_manager :: "string \<Rightarrow> rat manager" where
  "example_manager text = projr (manager_start (example_manager_env text) [''manager'', ''test'', ''_no_output_file''] [])"

lemma example_manager_eq:
  "example_manager text = \<lparr> mg_running = True, mg_solution_found = False,
     mg_statistic = complete_statistic_init exact_ops, mg_workers = [], mg_server_name = ''test'',
     mg_capacity = default_max_cmd_length, mg_server_max_cmd_length = default_max_cmd_length,
     mg_default_cmds = [], mg_cin = istream_of text, mg_once = True, mg_output_to_file = False,
     mg_inbox = [], mg_sent = [], mg_stdout = [], mg_file = [] \<rparr>"
  by (simp add: example_manager_def manager_start_def example_manager_env_def Let_def)

theorem add_workers_correct_witness:
  "\<exists>m'. cmd_add_workers (example_manager_env []) [''add_workers'', ''2''] (example_manager []) = Inr m' \<and>
    mg_sent m' = [Add_workers 1, Spawn_workers 1 [''test''], Add_workers 1, Spawn_workers 1 [''test'']]"
proof -
  have "stoi ''2'' = Inr 2" by code_simp
  then show ?thesis
    using add_workers_correct [OF _ _ _ refl, of "example_manager []" "[''add_workers'', ''2'']" 2 "example_manager_env []"]
    by (auto simp: example_manager_eq numeral_2_eq_2)
qed

section \<open>The statistic\<close>

definition instances_of :: "'p problem_instance_statistics list \<Rightarrow> nat" where
  "instances_of stats = sum_list (map (\<lambda>s. unat (num_instances_started s)) stats)"

definition collects :: "rat complete_statistic \<Rightarrow> rat problem_instance_statistics list \<Rightarrow> bool" where
  "collects s stats \<longleftrightarrow>
     unat (cs_num_instances_started s) = instances_of stats \<and>
     cs_total_num_flips s = sum_list (map total_num_flips stats) \<and>
     cs_num_instances_solved s = sum_list (map times_solved stats) \<and>
     cs_total_solve_duration s = sum_list (map (\<lambda>t. of_nat (unat (total_solve_duration t)) / 1000) stats) \<and>
     cs_avg_flips_per_second s * of_nat (instances_of stats) =
       sum_list (map (\<lambda>t. avg_flips_per_second t * of_nat (unat (num_instances_started t))) stats) \<and>
     cs_avg_flips_per_var s * of_nat (instances_of stats) =
       sum_list (map (\<lambda>t. of_nat (unat (total_num_flips t)) / of_nat (unat (stat_num_vars t)) *
         of_nat (unat (num_instances_started t))) stats) \<and>
     cs_avg_flips_per_clause s * of_nat (instances_of stats) =
       sum_list (map (\<lambda>t. of_nat (unat (total_num_flips t)) / of_nat (unat (stat_num_clauses t)) *
         of_nat (unat (num_instances_started t))) stats)"

lemma of_u64_exact: "of_u64 exact_ops n = of_nat (unat n)"
  by (simp add: of_u64_def exact_ops_def)

lemma weighted_exact:
  assumes "unat whole = unat n + unat k" "0 < unat k"
  shows "weighted exact_ops a n b k whole * of_nat (unat n + unat k) = a * of_nat (unat n) + b * of_nat (unat k)"
proof -
  have "(of_nat (unat n + unat k) :: rat) \<noteq> 0" using assms(2) by (simp del: of_nat_add)
  then show ?thesis
    unfolding weighted_def of_u64_exact assms(1) by (simp add: exact_ops_def del: of_nat_add)
qed

lemma add_to_statistic_fields:
  "cs_num_instances_started (add_to_statistic ops s stat) = cs_num_instances_started s + num_instances_started stat"
  "cs_total_num_flips (add_to_statistic ops s stat) = cs_total_num_flips s + total_num_flips stat"
  "cs_num_instances_solved (add_to_statistic ops s stat) = cs_num_instances_solved s + times_solved stat"
  "cs_total_solve_duration (add_to_statistic ops s stat) =
     p_add ops (cs_total_solve_duration s) (p_div ops (of_u64 ops (total_solve_duration stat)) (p_of_int ops 1000))"
  "cs_avg_flips_per_second (add_to_statistic ops s stat) = weighted ops (cs_avg_flips_per_second s)
     (cs_num_instances_started s) (avg_flips_per_second stat) (num_instances_started stat)
     (cs_num_instances_started s + num_instances_started stat)"
  "cs_avg_flips_per_var (add_to_statistic ops s stat) = weighted ops (cs_avg_flips_per_var s)
     (cs_num_instances_started s) (p_div ops (of_u64 ops (total_num_flips stat)) (of_u64 ops (stat_num_vars stat)))
     (num_instances_started stat) (cs_num_instances_started s + num_instances_started stat)"
  "cs_avg_flips_per_clause (add_to_statistic ops s stat) = weighted ops (cs_avg_flips_per_clause s)
     (cs_num_instances_started s) (p_div ops (of_u64 ops (total_num_flips stat)) (of_u64 ops (stat_num_clauses stat)))
     (num_instances_started stat) (cs_num_instances_started s + num_instances_started stat)"
  by (simp_all add: add_to_statistic_def Let_def)

lemma add_to_statistic_step:
  assumes "collects s stats" "0 < unat (num_instances_started stat)" "instances_of (stats @ [stat]) < 2 ^ 64"
  shows "collects (add_to_statistic exact_ops s stat) (stats @ [stat])"
proof -
  let ?n = "cs_num_instances_started s" and ?k = "num_instances_started stat"
  have n: "unat ?n = instances_of stats" using assms(1) by (simp add: collects_def)
  have whole: "unat (?n + ?k) = unat ?n + unat ?k"
    using assms(3) n by (simp add: unat_u64_add instances_of_def)
  have i: "instances_of (stats @ [stat]) = unat ?n + unat ?k" using n by (simp add: instances_of_def)
  note w = weighted_exact [OF whole assms(2)]
  have c: "cs_avg_flips_per_second s * of_nat (unat ?n) =
       sum_list (map (\<lambda>t. avg_flips_per_second t * of_nat (unat (num_instances_started t))) stats)"
    "cs_avg_flips_per_var s * of_nat (unat ?n) =
       sum_list (map (\<lambda>t. of_nat (unat (total_num_flips t)) / of_nat (unat (stat_num_vars t)) *
         of_nat (unat (num_instances_started t))) stats)"
    "cs_avg_flips_per_clause s * of_nat (unat ?n) =
       sum_list (map (\<lambda>t. of_nat (unat (total_num_flips t)) / of_nat (unat (stat_num_clauses t)) *
         of_nat (unat (num_instances_started t))) stats)"
    "cs_total_num_flips s = sum_list (map total_num_flips stats)"
    "cs_num_instances_solved s = sum_list (map times_solved stats)"
    "cs_total_solve_duration s = sum_list (map (\<lambda>t. of_nat (unat (total_solve_duration t)) / 1000) stats)"
    using assms(1) unfolding collects_def n by blast+
  have q: "p_div exact_ops a b = a / b" "p_add exact_ops a b = a + b" "p_of_int exact_ops i = rat_of_int i" for a b i
    by (simp_all add: exact_ops_def)
  show ?thesis unfolding collects_def i
    by (intro conjI) (simp_all only: add_to_statistic_fields whole map_append sum_list.append w c
      list.map sum_list.Cons sum_list.Nil add_0_right of_u64_exact q of_int_numeral)
qed

lemma statistic_collects:
  assumes "\<forall>s \<in> set stats. 0 < unat (num_instances_started s)" and "instances_of stats < 2 ^ 64"
  shows "collects (fold (\<lambda>stat s. add_to_statistic exact_ops s stat) stats (complete_statistic_init exact_ops)) stats"
  using assms
proof (induction stats rule: rev_induct)
  case Nil
  then show ?case by (simp add: collects_def instances_of_def complete_statistic_init_def exact_ops_def)
next
  case (snoc stat stats)
  then have "instances_of stats < 2 ^ 64" by (simp add: instances_of_def)
  then show ?case using snoc by (simp add: add_to_statistic_step)
qed


definition example_report :: "rat \<Rightarrow> u64 \<Rightarrow> rat problem_instance_statistics" where
  "example_report rate k = (statistics_default exact_ops)\<lparr> num_instances_started := k, avg_flips_per_second := rate,
     total_num_flips := 12, stat_num_vars := 3, stat_num_clauses := 4 \<rparr>"


section \<open>The main loop\<close>

text \<open>
  C30: The server is told to terminate exactly once, and it is the last thing it is told: when the
  main loop has stopped by a command, the message is the last of the manager; while it runs,
  whatever the commands, their errors and the messages of the server were, it was not sent.
\<close>

theorem manager_terminates_server_last:
  assumes "manager_start env argv inbox = Inr m0" and "manager_loop env flags m0 = Some (Inr m)"
  shows "if mg_running m then Terminate \<notin> set (mg_sent m)
    else \<exists>ms. mg_sent m = ms @ [Terminate] \<and> Terminate \<notin> set ms"
proof -
  have "manager_phase m0"
    using assms(1) by (auto simp: manager_start_def manager_phase_def Let_def split: if_splits)
  then show ?thesis using loop_phase [OF assms(2)] by (simp add: manager_phase_def)
qed

definition example_input :: string where
  "example_input = ''add_file 2 50 a.cnf'' @ [CHR 0x0A] @ ''exit'' @ [CHR 0x0A]"

lemma example_read:
  "getline (CHR 0x0A) (istream_of example_input) [] = (''add_file 2 50 a.cnf'', istream_of (''exit'' @ [CHR 0x0A]))"
  "getline (CHR 0x0A) (istream_of (''exit'' @ [CHR 0x0A])) [] = (''exit'', istream_of [])"
  by (simp_all add: getline_def istream_of_def example_input_def)

lemma example_words:
  "split_words ''add_file 2 50 a.cnf'' = [''add_file'', ''2'', ''50'', ''a.cnf'']" "split_words ''exit'' = [''exit'']"
  "stoi ''2'' = Inr 2" "stoi ''50'' = Inr 50" "split_words ''help'' = [''help'']"
  by code_simp+

lemma example_run:
  "\<exists>m. manager_loop (example_manager_env example_input) [False, False] (example_manager example_input) = Some (Inr m) \<and>
     \<not> mg_running m"
proof -
  let ?env = "example_manager_env example_input"
  let ?data = "\<lparr> anzahl_startbelegungen = 2, anzahl_flips = 50, filename = ''a.cnf'' \<rparr>"
  let ?m1 = "(example_manager example_input)\<lparr> mg_cin := istream_of (''exit'' @ [CHR 0x0A]) \<rparr>"
  have is_ok: "is_fail (istream_of s) = False" for s by (simp add: istream_of_def)
  have r: "read_command ?env True (istream_of example_input) [] = Some (''add_file 2 50 a.cnf'', True, istream_of (''exit'' @ [CHR 0x0A]))"
    "read_command ?env True (istream_of (''exit'' @ [CHR 0x0A])) [] = Some (''exit'', True, istream_of [])"
    by (rule read_command_line [OF example_read(1)] read_command_line [OF example_read(2)]; simp add: is_ok)+
  have "manager_turn ?env False (example_manager example_input) = Some (Inr (?m1\<lparr> mg_sent := [Add_file ?data] \<rparr>))"
    using r(1) by (simp add: manager_turn_def next_line_def example_manager_eq is_ok run_command_def example_words
        command_registry_def cmd_add_file_def do_add_file_def thrown_def ensure_length_def example_manager_env_def
        default_max_cmd_length_def mg_emit_def probe_server_def)
  moreover have "manager_turn ?env False (?m1\<lparr> mg_sent := [Add_file ?data] \<rparr>) =
      Some (Inr (stop_manager (?m1\<lparr> mg_sent := [Add_file ?data], mg_cin := istream_of [] \<rparr>)))"
    using r(2) by (simp add: manager_turn_def next_line_def example_manager_eq is_ok run_command_def example_words
        command_registry_def cmd_exit_def probe_server_def stop_manager_def do_exit_def mg_emit_def)
  ultimately show ?thesis
    by (simp add: example_manager_eq stop_manager_def)
qed

theorem manager_terminates_server_last_witness:
  "\<exists>m. manager_loop (example_manager_env example_input) [False, False] (example_manager example_input) = Some (Inr m) \<and>
     last (mg_sent m) = Terminate"
proof -
  have "manager_start (example_manager_env example_input) [''manager'', ''test'', ''_no_output_file''] [] =
      Inr (example_manager example_input)"
    by (simp add: example_manager_def manager_start_def Let_def)
  from manager_terminates_server_last [OF this] example_run show ?thesis by fastforce
qed

text \<open>
  C40: The standard input. When it is used up, no command is left over and the stream has not been
  rewound, a file is read once more from its start, so every command of the user is executed
  a second time; after that, or when the input cannot be rewound, the manager never returns
  from reading, and neither stops nor takes a message of the server. A line of white space
  that is not empty makes it read the first element of an empty vector.
\<close>

theorem manager_input_ends_badly:
  assumes "mg_default_cmds m = []" and "\<not> is_fail (mg_cin m)"
  shows "(is_rest (mg_cin m) = [] \<and> mg_once m \<and> me_seekable env \<longrightarrow>
      manager_turn env flag m = manager_turn env flag (m\<lparr> mg_cin := istream_of (me_input env), mg_once := False \<rparr>)) \<and>
    (is_rest (mg_cin m) = [] \<and> (\<not> mg_once m \<or> \<not> me_seekable env) \<longrightarrow> manager_turn env flag m = None) \<and>
    (\<forall>line. line \<noteq> [] \<and> list_all is_space line \<longrightarrow>
      run_command env line m = Some (Inl (Undefined_behaviour, m)))"
proof (intro conjI impI allI)
  assume a: "is_rest (mg_cin m) = [] \<and> mg_once m \<and> me_seekable env"
  then have e: "exhausted (mg_cin m)" by (simp add: exhausted_def)
  have "read_command env True (mg_cin m) [] = read_command env False (istream_of (me_input env)) []"
    using read_command_rewinds [OF e, of env] a by simp
  then show "manager_turn env flag m =
      manager_turn env flag (m\<lparr> mg_cin := istream_of (me_input env), mg_once := False \<rparr>)"
    using assms a by (simp add: manager_turn_def next_line_def istream_of_def option.map_comp o_def split_def)
next
  assume a: "is_rest (mg_cin m) = [] \<and> (\<not> mg_once m \<or> \<not> me_seekable env)"
  then have e: "exhausted (mg_cin m)" by (simp add: exhausted_def)
  then have "read_command env (mg_once m) (mg_cin m) [] = None"
    using a read_command_hangs [OF e, of env] read_command_rewinds [OF e, of env] by (cases "mg_once m") simp_all
  then show "manager_turn env flag m = None" using assms by (simp add: manager_turn_def next_line_def)
next
  fix line :: string assume "line \<noteq> [] \<and> list_all is_space line"
  then have "split_words line = []" by (subst split_words.simps) (simp add: list_all_iff)
  then show "run_command env line m = Some (Inl (Undefined_behaviour, m))" by (simp add: run_command_def)
qed

theorem manager_input_ends_badly_witness:
  "manager_turn (example_manager_env []) True ((example_manager [])\<lparr> mg_once := False \<rparr>) = None \<and>
   run_command (example_manager_env []) '' '' (example_manager []) = Some (Inl (Undefined_behaviour, example_manager []))"
proof -
  have "list_all is_space '' ''" by (simp add: is_space_def)
  then show ?thesis
    using manager_input_ends_badly [of "(example_manager [])\<lparr> mg_once := False \<rparr>" "example_manager_env []" True]
      manager_input_ends_badly [of "example_manager []" "example_manager_env []" True]
    by (simp add: example_manager_eq istream_of_def)
qed

text \<open>
  A report that needs more than 1024 bytes. The server announces its size first, with a
  command the manager does not know: arriving after a command of the user it throws out of
  the main loop, without the server having been told to terminate; arriving while the manager
  waits for the server it ends the waiting, and the buffer stays too small for the report.
\<close>

theorem large_report_ends_manager:
  assumes "manager_send senv items msg st = Inr st'" and "current_manager_max_cmd_length st = default_max_cmd_length"
    and "default_max_cmd_length < encoded_length senv items"
    and "next_line env m = Some (line, m1)" and "run_command env line m1 = Some (Inr m2)"
    and "mg_inbox m2 = S2M_REQ_MAX_CMD_LENGTH p # msgs"
  shows "sent st' = sent st @ [To_manager_req_max (encoded_length senv items), msg] \<and>
    manager_turn env True m = Some (Inl (unknown_command, m2\<lparr> mg_inbox := msgs \<rparr>)) \<and>
    run_command env ''wait_for_server'' m2 = Some (Inr (m2\<lparr> mg_inbox := msgs \<rparr>))"
proof (intro conjI)
  show "sent st' = sent st @ [To_manager_req_max (encoded_length senv items), msg]"
    using assms(1-3)
    by (auto simp: manager_send_def Let_def rbind_Inr_iff ensure_length_def req_max_transfer_size_send_def
        split: if_splits)
  show "manager_turn env True m = Some (Inl (unknown_command, m2\<lparr> mg_inbox := msgs \<rparr>))"
    using assms(4-6) by (simp add: manager_turn_def probe_server_def)
  have "split_words ''wait_for_server'' = [''wait_for_server'']" by code_simp
  then show "run_command env ''wait_for_server'' m2 = Some (Inr (m2\<lparr> mg_inbox := msgs \<rparr>))"
    using assms(6) by (simp add: run_command_def command_registry_def cmd_wait_for_server_def unknown_command_def)
qed

theorem large_report_ends_manager_witness:
  "manager_turn (example_manager_env []) True
     ((example_manager [])\<lparr> mg_default_cmds := [''help''], mg_inbox := [S2M_REQ_MAX_CMD_LENGTH (4, Some 2000)] \<rparr>) =
   Some (Inl (unknown_command, cmd_help (example_manager [])))"
proof -
  let ?m = "(example_manager [])\<lparr> mg_default_cmds := [''help''], mg_inbox := [S2M_REQ_MAX_CMD_LENGTH (4, Some 2000)] \<rparr>"
  let ?env = "example_manager_env []" and ?senv = "example_env\<lparr> encoded_length := (\<lambda>_. 2000) \<rparr>"
  let ?m1 = "?m\<lparr> mg_default_cmds := [] \<rparr>"
  have s: "\<exists>st'. manager_send ?senv [] (Solution_to_manager undefined) server_init = Inr st'"
    by (simp add: manager_send_def Let_def ensure_length_def req_max_transfer_size_send_def require_def
        server_init_def default_max_cmd_length_def absolute_max_cmd_length_def)
  then obtain st' where st': "manager_send ?senv [] (Solution_to_manager undefined) server_init = Inr st'" by blast
  have "manager_turn ?env True ?m = Some (Inl (unknown_command, (cmd_help ?m1)\<lparr> mg_inbox := [] \<rparr>))"
    using large_report_ends_manager [OF st', of ?env ?m "''help''" ?m1 "cmd_help ?m1" "(4, Some 2000)" "[]"]
    by (simp add: server_init_def next_line_def run_command_def example_words command_registry_def
        default_max_cmd_length_def cmd_help_def)
  then show ?thesis by (simp add: example_manager_eq cmd_help_def)
qed

end
