(* ===== verification/Processes_Correct.thy ===== *)
theory Processes_Correct
  imports Processes Manager_Properties
begin

text \<open>
  The connections between the processes: the name the server publishes is the one the workers
  look up, every worker is on a communicator of its own, and every connection is ended with
  one barrier and one disconnection on each side.
\<close>

section \<open>The first argument of a worker\<close>

lemma strcpy_prefix:
  assumes "strcpy pos src buf = Some buf'" "n \<le> pos"
  shows "take n buf' = take n buf \<and> length buf' = length buf"
  using assms by (auto simp: strcpy_def Let_def min_def split: if_splits)

lemma fill_arguments_prefix:
  "fill_arguments args offset buf argv = Some (buf', argv') \<Longrightarrow> n \<le> offset \<Longrightarrow>
   take n buf' = take n buf \<and> length buf' = length buf \<and> (\<exists>ps. argv' = argv @ ps)"
proof (induction args arbitrary: offset buf argv)
  case (Cons arg args)
  then obtain b1 b2 where b: "strcpy offset arg buf = Some b1" "vset b1 (int (offset + length arg)) nul = Some b2"
    "fill_arguments args (offset + length arg + 1) b2 (argv @ [offset]) = Some (buf', argv')"
    by (auto simp: bind_eq_Some_conv)
  have "take n b2 = take n b1 \<and> length b2 = length b1"
    using b(2) Cons.prems(2) by (auto simp: vset_def split: if_splits)
  moreover have "n \<le> offset + length arg + 1" using Cons.prems(2) by simp
  ultimately show ?case using strcpy_prefix [OF b(1) Cons.prems(2)] Cons.IH [OF b(3)] by auto
qed simp

lemma first_argument:
  assumes "argument_vector memory (name # args) = Some argv" "nul \<notin> set name"
  shows "\<exists>rest. argv = name # rest"
proof -
  obtain buf ps where f: "fill_arguments (name # args) 0 (map memory [0..<sum_list (map (\<lambda>arg. length arg + 1) (name # args))]) [] =
      Some (buf, ps)" "argv = map (read_argument buf) ps"
    using assms(1) by (auto simp: argument_vector_def Let_def bind_eq_Some_conv simp del: fill_arguments.simps)
  let ?mem = "map memory [0..<sum_list (map (\<lambda>arg. length arg + 1) (name # args))]"
  obtain b1 b2 where b: "strcpy 0 name ?mem = Some b1" "vset b1 (int (0 + length name)) nul = Some b2"
    "fill_arguments args (0 + length name + 1) b2 ([] @ [0]) = Some (buf, ps)"
    using f(1) unfolding fill_arguments.simps by (auto simp: bind_eq_Some_conv simp del: upt_Suc)
  have "c_str name = name" using assms(2) by (simp add: c_str_id)
  then have "take (length name + 1) b1 = name @ [nul]" "length name + 1 \<le> length b1"
    using b(1) by (auto simp: strcpy_def Let_def split: if_splits)
  then have "take (length name + 1) b2 = name @ [nul]"
    using b(2) by (auto simp: vset_def take_update_swap list_update_append split: if_splits)
  then have "take (length name + 1) buf = name @ [nul]" using fill_arguments_prefix [OF b(3), of "length name + 1"] by simp
  then have buf: "buf = name @ nul # drop (length name + 1) buf" using append_take_drop_id [of "length name + 1" buf] by simp
  have "takeWhile (\<lambda>c. c \<noteq> nul) (name @ nul # xs) = name" for xs
    using assms(2) by (subst takeWhile_append2) auto
  then have "read_argument buf 0 = name" by (subst buf) (simp add: read_argument_def)
  moreover obtain qs where "ps = 0 # qs" using fill_arguments_prefix [OF b(3), of 0] by auto
  ultimately show ?thesis using f(2) by simp
qed

section \<open>The workers the manager starts\<close>

text \<open>
  Of the workers: their communicators come from different calls of \<open>MPI_Comm_spawn\<close>, and each
  call starts one worker with the name of the server as its first argument.
\<close>

definition spawned :: "'p manager_env \<Rightarrow> string \<Rightarrow> 'p manager \<Rightarrow> bool" where
  "spawned env name m \<longleftrightarrow> mg_server_name m = name \<and> mg_workers m = map (me_spawn env) [0..<length (mg_workers m)] \<and>
     (\<forall>n argv. Spawn_workers n argv \<in> set (mg_sent m) \<longrightarrow> n = 1 \<and> (\<exists>rest. argv = name # rest))"

text \<open>All functions but the one that adds workers leave that alone.\<close>

definition same_workers :: "'p manager \<Rightarrow> 'p manager \<Rightarrow> bool" where
  "same_workers m m' \<longleftrightarrow> mg_server_name m' = mg_server_name m \<and> mg_workers m' = mg_workers m \<and>
     (\<exists>ms. mg_sent m' = mg_sent m @ ms \<and> (\<forall>n argv. Spawn_workers n argv \<notin> set ms))"

lemma same_workers_spawned: "same_workers m m' \<Longrightarrow> spawned env name m \<Longrightarrow> spawned env name m'"
  by (auto simp: same_workers_def spawned_def)

lemma same_workers_refl [simp]: "same_workers m m"
  and same_workers_trans: "same_workers m m1 \<Longrightarrow> same_workers m1 m2 \<Longrightarrow> same_workers m m2"
  by (auto simp: same_workers_def)

lemma outp_workers [simp]:
  "mg_server_name (outp_stats ls m) = mg_server_name m" "mg_workers (outp_stats ls m) = mg_workers m"
proof -
  have "mg_server_name (fold outp_stat ls m) = mg_server_name m \<and> mg_workers (fold outp_stat ls m) = mg_workers m"
    by (induction ls arbitrary: m) (simp_all add: outp_stat_def)
  then show "mg_server_name (outp_stats ls m) = mg_server_name m" "mg_workers (outp_stats ls m) = mg_workers m"
    by (simp_all add: outp_stats_def outp_end_def)
qed

lemma process_same_workers: "outcome_all (same_workers m) (manager_process_server_cmd env msg m)"
proof (cases msg)
  case (S2M_FOUND_SOLUTION p)
  show ?thesis unfolding S2M_FOUND_SOLUTION manager_process_server_cmd.simps process_s2m_FOUND_SOLUTION_def
    by (rule outcome_all_rbind_thrown) (simp_all add: Let_def same_workers_def)
next
  case (S2M_SEND_STATISTICS p)
  show ?thesis unfolding S2M_SEND_STATISTICS manager_process_server_cmd.simps process_s2m_SEND_STATISTICS_def
    by (rule outcome_all_rbind_thrown) (auto simp: same_workers_def)
qed simp_all

lemma wait_loop_same_workers: "wait_loop env msgs m = Some r \<Longrightarrow> outcome_all (same_workers m) r"
proof (induction msgs arbitrary: m)
  case (Cons msg msgs)
  let ?p = "manager_process_server_cmd env msg (m\<lparr> mg_inbox := msgs \<rparr>)"
  have p: "outcome_all (same_workers m) ?p"
    using process_same_workers [of "m\<lparr> mg_inbox := msgs \<rparr>" env msg] by (cases ?p) (auto simp: same_workers_def)
  show ?case
  proof (cases ?p)
    case (Inr m1)
    show ?thesis
    proof (cases "msg = S2M_DISCONNECT")
      case False
      then have "wait_loop env msgs m1 = Some r" using Cons.prems Inr by (cases msg) simp_all
      then have "outcome_all (same_workers m1) r" by (rule Cons.IH)
      then show ?thesis using p Inr same_workers_trans by (cases r) fastforce+
    qed (use Cons.prems Inr p in auto)
  qed (use Cons.prems p in auto)
qed simp

lemma stop_same_workers: "same_workers m m1 \<Longrightarrow> same_workers m (stop_manager m1)"
  by (auto simp: same_workers_def stop_manager_def do_exit_def mg_emit_def)

lemma add_file_same_workers: "outcome_all (same_workers m) (cmd_add_file env args m)"
proof -
  have "outcome_all (same_workers m) (do_add_file env a b f m)" for a b f
    unfolding do_add_file_def Let_def
  proof (rule outcome_all_rbind_thrown)
    show "outcome_all (same_workers m) (case x of (announced, req) \<Rightarrow>
        Inr (mg_emit ((case req of None \<Rightarrow> [] | Some n \<Rightarrow> [To_server_req_max n]) @ [Add_file d])
          (m\<lparr> mg_capacity := c, mg_server_max_cmd_length := announced \<rparr>)))" for x c d
      by (cases x) (auto simp: same_workers_def mg_emit_def split: option.splits)
  qed (simp add: same_workers_def)
  then show ?thesis unfolding cmd_add_file_def by (auto intro!: outcome_all_rbind_thrown)
qed

lemma spawned_add:
  assumes "spawned env name m"
  shows "spawned env name (mg_emit [Add_workers 1, Spawn_workers 1 (name # rest)] m
    \<lparr> mg_workers := mg_workers m @ [me_spawn env (length (mg_workers m))] \<rparr>)" (is "spawned env name ?m")
proof -
  have W: "mg_workers m = map (me_spawn env) [0..<length (mg_workers m)]" using assms by (simp only: spawned_def)
  have "mg_workers m @ [me_spawn env (length (mg_workers m))] = map (me_spawn env) [0..<Suc (length (mg_workers m))]"
    by (subst W) simp
  then have "mg_workers ?m = map (me_spawn env) [0..<length (mg_workers ?m)]" by simp
  moreover have "mg_server_name ?m = name" using assms by (simp add: spawned_def mg_emit_def)
  moreover have "mg_sent ?m = mg_sent m @ [Add_workers 1, Spawn_workers 1 (name # rest)]" by (simp add: mg_emit_def)
  moreover have "\<forall>n argv. Spawn_workers n argv \<in> set (mg_sent m) \<longrightarrow> n = 1 \<and> (\<exists>rest. argv = name # rest)"
    using assms unfolding spawned_def by (elim conjE)
  ultimately show ?thesis unfolding spawned_def by (simp only: set_append) auto
qed

lemma add_workers_spawned:
  "nul \<notin> set name \<Longrightarrow> spawned env name m \<Longrightarrow> argv = name # args \<Longrightarrow>
   outcome_all (spawned env name) (add_workers_loop env argv n m)"
proof (induction env argv n m rule: add_workers_loop.induct)
  case (1 env argv n m)
  show ?case
  proof (cases "0 < n")
    case True
    have nw: "min max_simultaneous_connection_attempts n = 1" using True by (simp add: max_simultaneous_connection_attempts_def)
    show ?thesis unfolding add_workers_loop.simps [of env argv n m] if_P [OF True] Let_def nw
    proof (rule outcome_all_rbind_thrown)
      show "spawned env name m" by (rule "1.prems"(2))
      fix x assume x: "do_add_workers env 1 argv m = Inr x"
      then obtain argv' where a: "argument_vector (me_memory env) argv = Some argv'"
        "x = (Some (me_spawn env (length (mg_workers m))), mg_emit [Add_workers 1, Spawn_workers 1 argv'] m)"
        by (auto simp: do_add_workers_def rbind_Inr_iff defined_def split: option.splits)
      obtain rest where rest: "argv' = name # rest" using first_argument a(1) "1.prems"(1,3) by blast
      let ?w = "me_spawn env (length (mg_workers m))"
      let ?m1 = "mg_emit [Add_workers 1, Spawn_workers 1 argv'] m"
      have "spawned env name (?m1\<lparr> mg_workers := mg_workers ?m1 @ [?w] \<rparr>)"
        unfolding rest using spawned_add [OF "1.prems"(2), of rest] by (simp add: mg_emit_def)
      then have "outcome_all (spawned env name) (add_workers_loop env argv (n - 1) (?m1\<lparr> mg_workers := mg_workers ?m1 @ [?w] \<rparr>))"
        using "1.IH" [OF True refl _ a(2) [symmetric] refl "1.prems"(1) _ "1.prems"(3)] x unfolding nw
        by (simp only: thrown_Inr)
      then show "outcome_all (spawned env name) (case x of (worker_cl, m1) \<Rightarrow> case worker_cl of
          None \<Rightarrow> Inl (Assertion_failed, m1)
        | Some c \<Rightarrow> add_workers_loop env argv (n - 1) (m1\<lparr> mg_workers := mg_workers m1 @ [c] \<rparr>))"
        using a(2) by simp
    qed
  next
    case False
    then show ?thesis using "1.prems"(2) by (simp add: add_workers_loop.simps [of env argv n m])
  qed
qed

lemma command_spawned:
  fixes m :: "'p manager"
  assumes name: "nul \<notin> set name" and m: "spawned env name m" and run: "run_command env line m = Some r"
  shows "outcome_all (spawned env name) r"
proof (cases "split_words line")
  case Nil
  then show ?thesis using run m by (auto simp: run_command_def)
next
  case (Cons f fs)
  show ?thesis
  proof (cases "map_of (command_registry :: (string \<times> 'p command) list) f")
    case None
    then show ?thesis using run m Cons by (auto simp: run_command_def)
  next
    case (Some cmd)
    then obtain r1 where r1: "cmd env (f # fs) m = Some r1" and r: "r = (case r1 of
        Inl (e, m1) \<Rightarrow> if is_exception e then Inr m1 else Inl (e, m1) | Inr m1 \<Rightarrow> Inr m1)"
      using run Cons by (auto simp: run_command_def)
    have up: "outcome_all (same_workers m) x \<Longrightarrow> outcome_all (spawned env name) x" for x
      using same_workers_spawned [OF _ m] by (cases x) auto
    have h1: "spawned env name (cmd_help m)" using m by (simp add: cmd_help_def spawned_def)
    have h2: "outcome_all (spawned env name) (cmd_add_workers env (f # fs) m)"
      using m add_workers_spawned [OF name m, of "mg_server_name m # drop 3 (f # fs)"]
      unfolding cmd_add_workers_def by (auto intro!: outcome_all_rbind_thrown simp: spawned_def)
    have h3: "outcome_all (spawned env name) x" if w: "cmd_wait_for_server env (f # fs) m = Some x" for x
    proof (cases "length (f # fs) = 1")
      case True
      then obtain y where y: "wait_loop env (mg_inbox m) m = Some y" "x = rbind y (\<lambda>m1. Inr (stop_manager m1))"
        using w by (auto simp: cmd_wait_for_server_def)
      show ?thesis using wait_loop_same_workers [OF y(1)] y(2) stop_same_workers same_workers_spawned [OF _ m]
        by (cases y) auto
    qed (use w m in \<open>auto simp: cmd_wait_for_server_def\<close>)
    have "outcome_all (spawned env name) r1"
      using Some r1 h1 h2 h3 up [OF add_file_same_workers] same_workers_spawned [OF stop_same_workers [OF same_workers_refl] m]
      by (auto simp: command_registry_def cmd_exit_def split: if_splits)
    then show ?thesis using r by (auto split: sum.splits)
  qed
qed

lemma probe_spawned: "spawned env name m \<Longrightarrow> outcome_all (spawned env name) (probe_server env flag m)"
proof -
  assume m: "spawned env name m"
  show ?thesis
  proof (cases "mg_inbox m = [] \<or> \<not> flag")
    case True
    then show ?thesis using m by (cases "mg_inbox m") (simp_all add: probe_server_def)
  next
    case False
    then obtain msg msgs m1 where p: "probe_server env flag m = manager_process_server_cmd env msg m1" "same_workers m m1"
      by (cases "mg_inbox m") (auto simp: probe_server_def Let_def same_workers_def)
    show ?thesis using process_same_workers [of m1 env msg] same_workers_spawned [OF _ m] same_workers_trans [OF p(2)] p(1)
      by (cases "manager_process_server_cmd env msg m1") auto
  qed
qed

lemma loop_spawned:
  "nul \<notin> set name \<Longrightarrow> spawned env name m \<Longrightarrow> manager_loop env flags m = Some r \<Longrightarrow> outcome_all (spawned env name) r"
proof (induction flags arbitrary: m)
  case (Cons flag flags)
  show ?case
  proof (cases "mg_running m")
    case True
    then obtain t where t: "manager_turn env flag m = Some t"
      "(case t of Inr m1 \<Rightarrow> manager_loop env flags m1 = Some r | Inl e \<Rightarrow> r = Inl e)"
      using Cons.prems(3) by (auto split: option.splits sum.splits)
    obtain line l q where l: "next_line env m = Some (line, l)" "run_command env line l = Some q" "t = rbind q (probe_server env flag)"
      using t(1) by (auto simp: manager_turn_def bind_eq_Some_conv)
    have "same_workers m l" using l(1) by (auto simp: next_line_def same_workers_def split: list.splits if_splits)
    then have "outcome_all (spawned env name) q"
      using command_spawned [OF Cons.prems(1) _ l(2)] same_workers_spawned Cons.prems(2) by blast
    then have "outcome_all (spawned env name) t" using l(3) probe_spawned by (cases q) auto
    then show ?thesis using t(2) Cons.IH [OF Cons.prems(1)] by (cases t) auto
  qed (use Cons.prems in auto)
qed auto

section \<open>The end of the connections\<close>

fun call_link :: "mpi_call \<Rightarrow> mpi_link option" where
  "call_link (Mpi_Barrier l) = Some l"
| "call_link (Mpi_Comm_disconnect l) = Some l"
| "call_link _ = None"

definition on_link :: "mpi_link \<Rightarrow> mpi_call list \<Rightarrow> mpi_call list" where
  "on_link l calls = filter (\<lambda>c. call_link c = Some l) calls"

definition left_once :: "mpi_link \<Rightarrow> mpi_call list" where
  "left_once l = [Mpi_Barrier l, Mpi_Comm_disconnect l]"

lemma leave_workers_distinct:
  "distinct ws \<Longrightarrow> (\<forall>w. prev = Some w \<longrightarrow> w \<notin> set ws) \<Longrightarrow>
   on_link (Link_workers c) (leave_workers prev ws) = (if c \<in> set ws then left_once (Link_workers c) else []) \<and>
   on_link Link_server (leave_workers prev ws) = []"
proof (induction ws arbitrary: prev)
  case (Cons w ws)
  then show ?case using Cons.IH [of "Some w"] by (auto simp: on_link_def left_once_def)
qed (simp add: on_link_def)

lemma start_spawned:
  "manager_start env argv inbox = Inr m \<Longrightarrow> spawned env (argv ! 1) m"
  by (auto simp: manager_start_def Let_def spawned_def split: if_splits)

lemma manager_setup_name:
  "manager_setup mpi argv = (calls, Inr name) \<Longrightarrow>
   name = argv ! 1 \<and> (\<exists>hostfile. calls = [Mpi_Init_thread, Mpi_Comm_spawn ''server'' [name] hostfile])"
  by (auto simp: manager_setup_def Let_def split: if_splits sum.splits)

lemma ends_workers [simp]:
  "mg_workers (outp_stat l m) = mg_workers m" "mg_sent (outp_stat l m) = mg_sent m"
  "mg_workers (manager_end m) = mg_workers m" "mg_sent (manager_end m) = mg_sent m"
  "mg_workers (manager_running_duration d m) = mg_workers m" "mg_sent (manager_running_duration d m) = mg_sent m"
  "mg_workers (manager_durations a b m) = mg_workers m" "mg_sent (manager_durations a b m) = mg_sent m"
  by (simp_all add: outp_stat_def manager_end_def manager_running_duration_def manager_durations_def)

lemma manager_main_left:
  assumes "manager_main env mpi ds argv inbox flags = Some (calls, Manager_left err m)"
  obtains hostfile m0 m1 r where
    "manager_start env argv inbox = Inr m0" "manager_loop env flags m0 = Some r" "outcome_all ((=) m1) r"
    "calls = [Mpi_Init_thread, Mpi_Comm_spawn ''server'' [argv ! 1] hostfile] @ manager_shutdown mpi m1"
    "mg_workers m = mg_workers m1" "mg_sent m = mg_sent m1"
proof -
  obtain a b c where ds: "ds = (a, b, c)" by (cases ds)
  obtain c1 s where st: "manager_setup mpi argv = (c1, s)" by (cases "manager_setup mpi argv")
  show ?thesis
  proof (cases s)
    case (Inl e)
    then show ?thesis using assms ds st by (simp add: manager_main_def)
  next
    case (Inr name)
    then obtain hostfile where c1: "c1 = [Mpi_Init_thread, Mpi_Comm_spawn ''server'' [argv ! 1] hostfile]"
      using manager_setup_name st by blast
    obtain m0 where m0: "manager_start env argv inbox = Inr m0"
      using assms ds st Inr by (auto simp: manager_main_def split: sum.splits)
    obtain r where r: "manager_loop env flags m0 = Some r"
      using assms ds st Inr m0 by (auto simp: manager_main_def split: option.splits)
    show ?thesis
    proof (cases r)
      case (Inl q)
      obtain e m1 where q: "q = (e, m1)" by (cases q)
      show ?thesis using that [OF m0 r, of m1 hostfile] assms ds st Inr m0 r Inl q c1
        by (auto simp: manager_main_def split: if_splits)
    next
      case (Inr m1)
      show ?thesis using that [OF m0 r, of m1 hostfile] assms ds st \<open>s = Inr name\<close> m0 r Inr c1
        by (auto simp: manager_main_def split: if_splits)
    qed
  qed
qed

lemma on_link_simps [simp]:
  "on_link l [] = []"
  "on_link l (c # cs) = (if call_link c = Some l then c # on_link l cs else on_link l cs)"
  "on_link l (cs @ cs') = on_link l cs @ on_link l cs'"
  by (simp_all add: on_link_def)

lemma finalize_links [simp]:
  "on_link Link_server (fst (finalize mpi)) = []" "on_link Link_manager (fst (finalize mpi)) = []"
  "on_link (Link_workers c) (fst (finalize mpi)) = []"
  by (simp_all add: finalize_def)


text \<open>A session of the manager that starts one worker and leaves.\<close>

definition session_input :: string where
  "session_input = ''add_workers 1'' @ [CHR 0x0A] @ ''exit'' @ [CHR 0x0A]"

definition example_mpi :: mpi where
  "example_mpi = \<lparr> mpi_multiple = True, mpi_initialized = True, mpi_parent = True, mpi_rank = 0,
     mpi_lookup = True, mpi_connect = True \<rparr>"

lemma session_run:
  "\<exists>m. manager_loop (example_manager_env session_input) [False, False] (example_manager session_input) = Some (Inr m) \<and>
     \<not> mg_running m \<and> mg_workers m = [0]"
proof -
  let ?env = "example_manager_env session_input"
  let ?m1 = "(example_manager session_input)\<lparr> mg_cin := istream_of (''exit'' @ [CHR 0x0A]) \<rparr>"
  have is_ok: "is_fail (istream_of s) = False" for s by (simp add: istream_of_def)
  have words: "split_words ''add_workers 1'' = [''add_workers'', ''1'']" "stoi ''1'' = Inr 1" by code_simp+
  have g: "getline (CHR 0x0A) (istream_of session_input) [] = (''add_workers 1'', istream_of (''exit'' @ [CHR 0x0A]))"
    by (simp add: getline_def istream_of_def session_input_def)
  have r: "read_command ?env True (istream_of session_input) [] = Some (''add_workers 1'', True, istream_of (''exit'' @ [CHR 0x0A]))"
    "read_command ?env True (istream_of (''exit'' @ [CHR 0x0A])) [] = Some (''exit'', True, istream_of [])"
    by (rule read_command_line [OF g] read_command_line [OF example_read(2)]; simp add: is_ok)+
  let ?m2 = "(mg_emit [Add_workers 1, Spawn_workers 1 [''test'']] ?m1)\<lparr> mg_workers := [0] \<rparr>"
  have "argument_vector memory [''test''] = Some [''test'']" for memory by (rule argument_vector_eq) simp
  then have "cmd_add_workers ?env [''add_workers'', ''1''] ?m1 = Inr ?m2"
    by (simp add: cmd_add_workers_def example_manager_eq words thrown_def add_workers_loop.simps do_add_workers_def
        max_simultaneous_connection_attempts_def example_manager_env_def mg_emit_def)
  then obtain m2 where m2: "cmd_add_workers ?env [''add_workers'', ''1''] ?m1 = Inr m2"
    "mg_workers m2 = [0]" "mg_cin m2 = istream_of (''exit'' @ [CHR 0x0A])" "mg_running m2" "mg_once m2" "mg_inbox m2 = []"
    "mg_default_cmds m2 = []"
    by (simp add: example_manager_eq mg_emit_def)
  have "manager_turn ?env False (example_manager session_input) = Some (Inr m2)"
    using r(1) m2 by (simp add: manager_turn_def next_line_def example_manager_eq is_ok run_command_def words
        command_registry_def probe_server_def)
  moreover have "manager_turn ?env False m2 = Some (Inr (stop_manager (m2\<lparr> mg_cin := istream_of [] \<rparr>)))"
    using r(2) m2 by (simp add: manager_turn_def next_line_def is_ok run_command_def example_words
        command_registry_def cmd_exit_def probe_server_def stop_manager_def do_exit_def mg_emit_def)
  ultimately show ?thesis using m2 by (simp add: example_manager_eq stop_manager_def do_exit_def mg_emit_def)
qed


end
