(* ===== verification/Worker_Correct.thy ===== *)
theory Worker_Correct
  imports Worker
begin

text \<open>
  What a worker keeps: every thread is accounted for, either by an instance that is still to
  be requested, a queued task or a task in work; every instance that was received is queued,
  in work, waiting to be returned or reported; and after the order to stop, every schedule of
  the threads ends.
\<close>

section \<open>Threads and counters\<close>

fun busy :: "'p thread \<Rightarrow> bool" where
  "busy (Holding t) = True"
| "busy (Executed t) = True"
| "busy _ = False"

definition in_work :: "'p worker \<Rightarrow> nat" where
  "in_work w = length (filter busy (w_threads w))"

fun is_report :: "'p worker_message \<Rightarrow> bool" where
  "is_report (Done_processing d) = True"
| "is_report _ = False"

definition reports :: "'p worker \<Rightarrow> nat" where
  "reports w = length (filter is_report (w_sent w))"

lemma filter_update_count:
  "i < length xs \<Longrightarrow> length (filter P (xs[i := x])) + of_bool (P (xs ! i)) = length (filter P xs) + of_bool (P x)"
proof (induction xs arbitrary: i)
  case (Cons y xs)
  then show ?case by (cases i) auto
qed simp

lemma sum_update:
  fixes f :: "'a \<Rightarrow> nat"
  shows "i < length xs \<Longrightarrow> sum_list (map f (xs[i := x])) + f (xs ! i) = sum_list (map f xs) + f x"
proof (induction xs arbitrary: i)
  case (Cons y xs)
  then show ?case by (cases i) auto
qed simp

lemma set_thread_simps [simp]:
  "w_running (set_thread i th w) = w_running w" "w_tasks (set_thread i th w) = w_tasks w"
  "w_tasks_done (set_thread i th w) = w_tasks_done w"
  "w_instances_to_get (set_thread i th w) = w_instances_to_get w"
  "w_main (set_thread i th w) = w_main w" "w_sent (set_thread i th w) = w_sent w"
  "w_threads (set_thread i th w) = (w_threads w)[i := th]"
  "w_formulas (set_thread i th w) = w_formulas w"
  by (simp_all add: set_thread_def)

text \<open>What a thread does, case by case.\<close>

lemma worker_func_cases:
  assumes "worker_func env i m w = Some (Inr w')"
  obtains (idle) "w_threads w ! i = Polling" "w_running w" "w' = w" "i < length (w_threads w)"
  | (take) t ts where "w_threads w ! i = Polling" "w_running w" "w_tasks w = t # ts"
      "w' = set_thread i (Holding t) (w\<lparr> w_tasks := ts \<rparr>)" "i < length (w_threads w)"
  | (stop) "\<not> w_running w" "w_threads w ! i = Polling \<or> (\<exists>t. w_threads w ! i = Holding t)"
      "w' = set_thread i Ended w" "i < length (w_threads w)"
  | (exec) t t' fs where "w_threads w ! i = Holding t" "w_running w"
      "w' = set_thread i (Executed t') (w\<lparr> w_formulas := fs \<rparr>)" "i < length (w_threads w)"
  | (finish) t where "w_threads w ! i = Executed t"
      "w' = set_thread i Polling (w\<lparr> w_tasks_done := w_tasks_done w @ [t],
        w_instances_to_get := w_instances_to_get w + 1 \<rparr>)" "i < length (w_threads w)"
proof -
  have i: "i < length (w_threads w)" using assms by (simp add: worker_func_def split: if_splits)
  show ?thesis
  proof (cases "w_threads w ! i")
    case Polling
    then have w': "w' = get_task i w" using assms i by (simp add: worker_func_def)
    show ?thesis
    proof (cases "w_running w")
      case True
      then show ?thesis using idle take Polling i w' by (cases "w_tasks w") (simp_all add: get_task_def)
    qed (use stop Polling i w' in \<open>simp add: get_task_def\<close>)
  next
    case (Holding t)
    show ?thesis
    proof (cases "w_running w")
      case True
      then obtain t' fs where "w' = set_thread i (Executed t') (w\<lparr> w_formulas := fs \<rparr>)"
        using assms i Holding by (auto simp: worker_func_def execute_task_def rbind_Inr_iff split: option.splits)
      then show ?thesis using exec Holding True i by blast
    qed (use stop Holding i assms in \<open>simp add: worker_func_def\<close>)
  next
    case (Executed t)
    then show ?thesis using assms i finish by (simp add: worker_func_def)
  qed (use assms in \<open>simp add: worker_func_def split: if_splits\<close>)
qed

text \<open>What sending changes.\<close>

definition same_books :: "'p worker \<Rightarrow> 'p worker \<Rightarrow> bool" where
  "same_books w w' \<longleftrightarrow> w_running w' = w_running w \<and> w_tasks w' = w_tasks w \<and> w_tasks_done w' = w_tasks_done w \<and>
     w_instances_to_get w' = w_instances_to_get w \<and> w_formulas w' = w_formulas w \<and>
     w_threads w' = w_threads w \<and> w_main w' = w_main w"

lemma same_books_counts: "same_books w w' \<Longrightarrow> in_work w' = in_work w"
  by (simp add: same_books_def in_work_def)

lemma server_send_frame:
  assumes "server_send env items msg w = Inr w'"
  shows "same_books w w' \<and> (\<exists>ms. w_sent w' = w_sent w @ ms @ [msg] \<and> set ms \<subseteq> range Server_req_max)"
  using assms
  by (auto simp: server_send_def Let_def rbind_Inr_iff thrown_Inr same_books_def split: option.splits)

lemma server_send_Inl:
  assumes "server_send env items msg w = Inl (e, w')"
  shows "same_books w w' \<and> w_sent w' = w_sent w"
  using assms
  by (auto simp: server_send_def Let_def rbind_Inl_iff thrown_Inl same_books_def)

lemma req_max_no_report: "set ms \<subseteq> range Server_req_max \<Longrightarrow> filter is_report ms = []"
  by (auto simp: filter_empty_conv)

lemma server_send_reports:
  assumes "server_send env items msg w = Inr w'"
  shows "same_books w w' \<and> reports w' = reports w + of_bool (is_report msg)"
proof -
  obtain ms where "w_sent w' = w_sent w @ ms @ [msg]" "set ms \<subseteq> range Server_req_max"
    using server_send_frame [OF assms] by blast
  then show ?thesis using server_send_frame [OF assms] by (simp add: reports_def req_max_no_report)
qed

lemma same_books_trans: "same_books u v \<Longrightarrow> same_books v w \<Longrightarrow> same_books u w"
  and same_books_refl: "same_books w w"
  by (auto simp: same_books_def)

lemma solution_send_reports:
  assumes "(if dp_solved (t_dpi t)
      then server_send env (serialize_solution_info (solution_of t)) (Found_solution (solution_of t)) w
      else Inr w) = Inr w1"
  shows "same_books w w1 \<and> reports w1 = reports w"
  using assms server_send_reports [of env _ "Found_solution (solution_of t)" w w1]
  by (auto simp: same_books_refl split: if_splits)

lemma return_task_frame:
  assumes "return_task env t w = Inr w'"
  shows "same_books w w' \<and> reports w' = Suc (reports w)"
proof -
  obtain w1 where w1: "(if dp_solved (t_dpi t)
      then server_send env (serialize_solution_info (solution_of t)) (Found_solution (solution_of t)) w
      else Inr w) = Inr w1"
    and w2: "server_send env (serialize_done_processing_info (t_dpi t)) (Done_processing (t_dpi t)) w1 = Inr w'"
    using assms by (auto simp: return_task_def rbind_Inr_iff split: if_splits)
  then show ?thesis
    using solution_send_reports [OF w1] server_send_reports [OF w2] same_books_trans [of w w1 w'] by simp
qed

lemma return_task_Inl:
  assumes "return_task env t w = Inl (e, w')"
  shows "same_books w w' \<and> reports w' = reports w"
proof -
  let ?first = "if dp_solved (t_dpi t)
      then server_send env (serialize_solution_info (solution_of t)) (Found_solution (solution_of t)) w
      else Inr w"
  have sends: "server_send env items msg v = Inl (e, w') \<Longrightarrow> same_books v w' \<and> reports w' = reports v"
    for items msg v
    using server_send_Inl [of env items msg v e w'] by (simp add: reports_def)
  show ?thesis
  proof (cases ?first)
    case (Inl x)
    then show ?thesis using assms sends by (auto simp: return_task_def split: if_splits)
  next
    case (Inr w1)
    note w1 = solution_send_reports [OF Inr]
    show ?thesis
    proof (cases "0 \<ge> dp_instances_processed (t_dpi t)")
      case True
      then have "w' = w1" using assms by (simp add: return_task_def Inr)
      then show ?thesis using w1 by simp
    next
      case False
      then have "server_send env (serialize_done_processing_info (t_dpi t)) (Done_processing (t_dpi t)) w1 = Inl (e, w')"
        using assms by (simp add: return_task_def Inr)
      then show ?thesis using w1 sends same_books_trans [of w w1 w'] by fastforce
    qed
  qed
qed

section \<open>The invariant\<close>

definition accounted :: "'p worker \<Rightarrow> nat" where
  "accounted w = unat (w_instances_to_get w) + length (w_tasks w) + in_work w"

definition threads_up :: "'p worker \<Rightarrow> bool" where
  "threads_up w \<longleftrightarrow> length (w_threads w) = 2 \<and> accounted w \<le> 2 \<and>
     (w_running w \<longrightarrow> Ended \<notin> set (w_threads w) \<and> accounted w = 2)"

definition worker_inv :: "'p worker \<Rightarrow> bool" where
  "worker_inv w \<longleftrightarrow> (case w_main w of
     Awaiting_activation \<Rightarrow> w_threads w = [] \<and> w_tasks w = [] \<and> w_tasks_done w = []
   | Looping \<Rightarrow> threads_up w
   | Receiving n \<Rightarrow> threads_up w \<and> unat n \<le> unat (w_instances_to_get w)
   | Joining \<Rightarrow> threads_up w \<and> \<not> w_running w
   | Finished \<Rightarrow> list_all (\<lambda>th. th = Ended) (w_threads w) \<and> (\<exists>ms. w_sent w = ms @ [Disconnect]))"

definition ledger :: "nat \<Rightarrow> 'p worker \<Rightarrow> bool" where
  "ledger k w \<longleftrightarrow> reports w + length (w_tasks_done w) + length (w_tasks w) + in_work w \<le> k \<and>
     (w_running w \<and> w_main w \<noteq> Finished \<longrightarrow>
       reports w + length (w_tasks_done w) + length (w_tasks w) + in_work w = k)"

lemma same_books_inv:
  "same_books w w' \<Longrightarrow> accounted w' = accounted w"
  "same_books w w' \<Longrightarrow> threads_up w' = threads_up w"
  by (auto simp: same_books_def accounted_def in_work_def threads_up_def)

text \<open>A step of a thread.\<close>

lemma in_work_set_thread:
  "i < length (w_threads w) \<Longrightarrow>
   in_work (set_thread i th w) + of_bool (busy (w_threads w ! i)) = in_work w + of_bool (busy th)"
  by (simp add: in_work_def filter_update_count)

lemma in_work_frame [simp]:
  "in_work (w\<lparr> w_tasks := ts \<rparr>) = in_work w" "in_work (w\<lparr> w_formulas := fs \<rparr>) = in_work w"
  "in_work (w\<lparr> w_tasks_done := ts, w_instances_to_get := n \<rparr>) = in_work w"
  by (simp_all add: in_work_def)

lemma ended_update: "x \<noteq> th \<Longrightarrow> x \<notin> set xs \<Longrightarrow> x \<notin> set (xs[i := th])"
  using set_update_subset_insert [of xs i th] by auto

lemma unat_u32_inc: "unat (n :: u32) + 1 \<le> 2 \<Longrightarrow> unat (n + 1) = unat n + 1"
  using unat_u32_add [of n 1] by simp

lemma worker_func_keeps:
  assumes step: "worker_func env i m w = Some (Inr w')" and up: "threads_up w"
  shows "threads_up w' \<and> w_main w' = w_main w \<and> w_running w' = w_running w \<and> w_sent w' = w_sent w \<and>
    unat (w_instances_to_get w) \<le> unat (w_instances_to_get w') \<and> (ledger k w \<longrightarrow> ledger k w')"
  using step
proof (cases rule: worker_func_cases)
  case (take t ts)
  then have "in_work w' = in_work w + 1"
    using in_work_set_thread [of i "w\<lparr> w_tasks := ts \<rparr>" "Holding t"] by simp
  then show ?thesis using take up
    by (auto simp: threads_up_def accounted_def ledger_def reports_def ended_update)
next
  case stop
  then have "in_work w' \<le> in_work w" using in_work_set_thread [of i w Ended] by simp
  then show ?thesis using stop up by (auto simp: threads_up_def accounted_def ledger_def reports_def)
next
  case (exec t t' fs)
  then have "in_work w' = in_work w"
    using in_work_set_thread [of i "w\<lparr> w_formulas := fs \<rparr>" "Executed t'"] by simp
  then show ?thesis using exec up
    by (auto simp: threads_up_def accounted_def ledger_def reports_def ended_update)
next
  case (finish t)
  then have b: "in_work w' + 1 = in_work w"
    using in_work_set_thread [of i "w\<lparr> w_tasks_done := w_tasks_done w @ [t],
        w_instances_to_get := w_instances_to_get w + 1 \<rparr>" Polling] by simp
  then have "unat (w_instances_to_get w') = unat (w_instances_to_get w) + 1"
    using finish up unat_u32_inc [of "w_instances_to_get w"] by (simp add: threads_up_def accounted_def)
  then show ?thesis using finish up b
    by (auto simp: threads_up_def accounted_def ledger_def reports_def ended_update)
qed (use up in simp)

text \<open>Messages of the server.\<close>

fun sends_instances :: "s2w \<Rightarrow> bool" where
  "sends_instances (S2W_SEND_INSTANCES p) = True"
| "sends_instances _ = False"

lemma process_other_cases:
  assumes "\<not> sends_instances msg" "process_server_cmd env msg w = Some r"
  obtains cap where "r = Inr (w\<lparr> w_capacity := cap \<rparr>)" | "r = Inr (w\<lparr> w_running := False \<rparr>)" | e where "r = Inl (e, w)"
proof (cases msg)
  case (S2W_REQ_MAX_CMD_LENGTH p)
  then show ?thesis
    using assms(2) that by (cases "req_max_transfer_size_process worker_header p (w_capacity w)") (auto simp: thrown_def)
next
  case S2W_ACTIVATE_WORKER
  then show ?thesis using assms(2) that(1) [of "w_capacity w"] by simp
qed (use assms that in auto)

lemma process_other_keeps:
  assumes "\<not> sends_instances msg" "process_server_cmd env msg w = Some (Inr w')"
  shows "w_tasks w' = w_tasks w \<and> w_tasks_done w' = w_tasks_done w \<and> w_threads w' = w_threads w \<and>
    w_main w' = w_main w \<and> w_instances_to_get w' = w_instances_to_get w \<and> w_sent w' = w_sent w \<and>
    (w_running w' \<longrightarrow> w_running w) \<and> (threads_up w \<longrightarrow> threads_up w') \<and> (ledger k w \<longrightarrow> ledger k w')"
  using process_other_cases [OF assms]
  by (cases, auto simp: threads_up_def accounted_def in_work_def ledger_def reports_def)

lemma create_tasks_keeps:
  assumes "create_tasks env jobs w = Some (Inr w')" "jobs_total jobs \<le> unat (w_instances_to_get w)"
  shows "w_running w' = w_running w \<and> w_tasks_done w' = w_tasks_done w \<and> w_threads w' = w_threads w \<and>
    w_main w' = w_main w \<and> w_sent w' = w_sent w \<and>
    unat (w_instances_to_get w') + jobs_total jobs = unat (w_instances_to_get w) \<and>
    length (w_tasks w') = length (w_tasks w) + jobs_total jobs"
  using assms
proof (induction jobs arbitrary: w)
  case Nil
  then show ?case by (simp add: jobs_total_def)
next
  case (Cons j jobs)
  let ?n = "num_instances_to_start j"
  obtain F where c: "create_tasks env jobs (w\<lparr>
          w_formulas := w_formulas w @ [F],
          w_tasks := w_tasks w @ replicate (unat ?n)
            (task_new (we_arith env) (job_metadata j) (length (w_formulas w)) (job_task_id j)),
          w_instances_to_get := w_instances_to_get w - ?n \<rparr>) = Some (Inr w')"
    using Cons.prems(1) by (auto split: if_splits option.splits sum.splits)
  have n: "unat ?n + jobs_total jobs \<le> unat (w_instances_to_get w)" using Cons.prems(2) by (simp add: jobs_total_def)
  then have "unat (w_instances_to_get w - ?n) = unat (w_instances_to_get w) - unat ?n"
    by (intro unat_sub) (simp add: word_le_nat_alt)
  then show ?case using Cons.IH [OF c] n by (simp add: jobs_total_def) arith
qed

lemma send_instances_keeps:
  assumes p: "process_s2w_send_instances env p w = Some (Inr w')" and up: "threads_up w"
    and b: "case snd p of None \<Rightarrow> True | Some jobs \<Rightarrow> jobs_total jobs \<le> unat (w_instances_to_get w)"
  shows "threads_up w' \<and> w_main w' = w_main w \<and> w_running w' = w_running w \<and>
    (ledger k w \<and> w_main w \<noteq> Finished \<longrightarrow> ledger (k + granted (Main_receives (S2W_SEND_INSTANCES p)) w) w')"
proof -
  obtain jobs where j: "snd p = Some jobs"
    and w': "if \<not> w_running w \<or> jobs = [] then w' = w else create_tasks env jobs w = Some (Inr w')"
    using p by (auto simp: process_s2w_send_instances_def received_Inr split: sum.splits if_splits)
  have g: "granted (Main_receives (S2W_SEND_INSTANCES p)) w = (if w_running w then jobs_total jobs else 0)"
    using j by (cases p) simp
  show ?thesis
  proof (cases "\<not> w_running w \<or> jobs = []")
    case True
    then show ?thesis using w' up g by (auto simp: jobs_total_def)
  next
    case False
    then have "create_tasks env jobs w = Some (Inr w')" using w' by simp
    note c = create_tasks_keeps [OF this]
    show ?thesis using c b j up g False
      by (auto simp: threads_up_def accounted_def in_work_def ledger_def reports_def)
  qed
qed

text \<open>A round of the main thread.\<close>

lemma request_instances_keeps:
  assumes "request_instances env w = Inr w'" "w_main w = Looping"
  shows "threads_up w' = threads_up w \<and> ledger k w' = ledger k w \<and> w_running w' = w_running w \<and>
    (w_main w' = Looping \<or> w_main w' = Receiving (w_instances_to_get w'))"
proof (cases "w' = w")
  case False
  then obtain v where v: "get_instances_send env (w_instances_to_get w) w = Inr v"
    "w' = v\<lparr> w_main := Receiving (w_instances_to_get v) \<rparr>"
    using assms(1) by (auto simp: request_instances_def rbind_Inr_iff split: if_splits)
  then have "same_books w v \<and> reports v = reports w"
    using server_send_reports [of env _ _ w v] by (auto simp: get_instances_send_def)
  then show ?thesis using v assms(2)
    by (auto simp: same_books_def threads_up_def accounted_def in_work_def ledger_def reports_def)
qed (use assms in simp)

lemma main_loop_round_keeps:
  assumes step: "main_loop_round env probe w = Some (Inr w')" and main: "w_main w = Looping"
    and up: "threads_up w" and quiet: "\<And>msg. probe = Some msg \<Longrightarrow> \<not> sends_instances msg"
  shows "worker_inv w' \<and> (ledger k w \<longrightarrow> ledger k w')"
proof (cases "w_running w")
  case False
  then have "w' = w\<lparr> w_main := Joining \<rparr>" using step by (simp add: main_loop_round_def)
  then show ?thesis using up False
    by (simp add: worker_inv_def threads_up_def accounted_def in_work_def ledger_def reports_def)
next
  case True
  show ?thesis
  proof (cases "w_tasks_done w")
    case (Cons t ts)
    let ?v = "w\<lparr> w_tasks_done := ts \<rparr>"
    have r: "return_task env t ?v = Inr w'" using step True Cons by (simp add: main_loop_round_def)
    then have same: "same_books ?v w'" "reports w' = Suc (reports ?v)" using return_task_frame by blast+
    have "threads_up ?v = threads_up w" by (simp add: threads_up_def accounted_def in_work_def)
    then have "threads_up w'" using same_books_inv(2) [OF same(1)] up by simp
    moreover have "ledger k w \<longrightarrow> ledger k w'"
      using same Cons main by (auto simp: ledger_def same_books_def in_work_def reports_def)
    ultimately show ?thesis using same(1) main by (auto simp: worker_inv_def same_books_def)
  next
    case Nil
    obtain v where v: "case probe of None \<Rightarrow> v = w | Some msg \<Rightarrow> process_server_cmd env msg w = Some (Inr v)"
      "request_instances env v = Inr w'"
      using step True Nil by (auto simp: main_loop_round_def rbind_Inr_iff split: option.splits)
    have "threads_up v \<and> w_main v = Looping \<and> (ledger k w \<longrightarrow> ledger k v)"
    proof (cases probe)
      case (Some msg)
      then show ?thesis using v(1) quiet [OF Some] process_other_keeps [of msg env w v k] up main by auto
    qed (use v up main in simp)
    then show ?thesis using request_instances_keeps [OF v(2), of k] by (auto simp: worker_inv_def)
  qed
qed

lemma leave_server_simps [simp]:
  "w_threads (leave_server w) = w_threads w" "w_main (leave_server w) = Finished"
  "reports (leave_server w) = reports w" "in_work (leave_server w) = in_work w"
  "w_tasks (leave_server w) = w_tasks w" "w_tasks_done (leave_server w) = w_tasks_done w"
  "worker_inv (leave_server w) = list_all (\<lambda>th. th = Ended) (w_threads w)"
  by (simp_all add: leave_server_def reports_def in_work_def worker_inv_def)

lemma main_join_keeps:
  assumes step: "map_option (main_catch w) (main_join env w) = Some (Inr w')" and main: "w_main w = Joining"
    and up: "threads_up w" and run: "\<not> w_running w"
  shows "worker_inv w' \<and> (ledger k w \<longrightarrow> ledger k w')"
proof -
  have e: "list_all (\<lambda>th. th = Ended) (w_threads w)" using step by (simp add: main_join_def split: if_splits)
  show ?thesis
  proof (cases "w_tasks_done w")
    case Nil
    then have "w' = leave_server w" using step e by (simp add: main_join_def main_catch_def)
    then show ?thesis using e run Nil by (auto simp: ledger_def)
  next
    case (Cons t ts)
    let ?v = "w\<lparr> w_tasks_done := ts \<rparr>"
    have c: "main_catch w (return_task env t ?v) = Inr w'" using step e Cons by (simp add: main_join_def)
    show ?thesis
    proof (cases "return_task env t ?v")
      case (Inr x)
      then have same: "same_books ?v w'" "reports w' = Suc (reports ?v)"
        using return_task_frame [of env t ?v w'] c by (auto simp: main_catch_def)
      have "threads_up ?v = threads_up w" by (simp add: threads_up_def accounted_def in_work_def)
      then have "threads_up w'" using same_books_inv(2) [OF same(1)] up by simp
      moreover have "ledger k w \<longrightarrow> ledger k w'"
        using same Cons run by (auto simp: ledger_def same_books_def in_work_def reports_def)
      ultimately show ?thesis using same(1) main run by (auto simp: worker_inv_def same_books_def)
    next
      case (Inl x)
      then obtain err v where x: "return_task env t ?v = Inl (err, v)" by (cases x) auto
      then have "w' = leave_server v" using c main by (simp add: main_catch_def split: if_splits)
      then show ?thesis using return_task_Inl [OF x] e run Cons
        by (auto simp: same_books_def ledger_def in_work_def reports_def leave_server_def worker_inv_def)
    qed
  qed
qed

lemma threads_start: "w_tasks w = [] \<Longrightarrow> threads_up (start_threads w)"
proof -
  have two: "unat (2 :: u32) = Suc (Suc 0)" by simp
  show "w_tasks w = [] \<Longrightarrow> threads_up (start_threads w)"
    unfolding start_threads_def threads_up_def accounted_def in_work_def num_probsat_threads_per_worker_def
      two by simp
qed

lemma main_catch_Inr:
  "main_catch w r = Inr w' \<longleftrightarrow> r = Inr w' \<or> (\<exists>e v. r = Inl (e, v) \<and> is_exception e \<and>
     (w_main w = Awaiting_activation \<or> w_main w = Joining) \<and> w' = leave_server v)"
  by (auto simp: main_catch_def split: sum.splits)

lemma receive_keeps:
  assumes step: "worker_step env (Main_receives msg) w = Some (Inr w')" and inv: "worker_inv w"
    and ans: "answers (Main_receives msg) w"
  shows "worker_inv w' \<and> (ledger k w \<longrightarrow> ledger (k + granted (Main_receives msg) w) w')"
proof (cases "w_main w")
  case Awaiting_activation
  then have quiet: "\<not> sends_instances msg" using ans by (cases msg) auto
  then have g: "granted (Main_receives msg) w = 0" by (cases msg) auto
  obtain r where r: "process_server_cmd env msg w = Some r"
    using step Awaiting_activation by (auto simp: receive_server_cmd_def)
  have inv': "w_threads w = []" "w_tasks w = []" "w_tasks_done w = []"
    using inv Awaiting_activation by (simp_all add: worker_inv_def)
  show ?thesis
  proof (cases r)
    case (Inl x)
    have "r = Inl (fst x, w)" by (rule process_other_cases [OF quiet r]) (simp_all add: Inl)
    then have "w' = leave_server w"
      using step r Awaiting_activation by (simp add: receive_server_cmd_def main_catch_def split: if_splits)
    then show ?thesis using inv' g by (auto simp: ledger_def)
  next
    case (Inr v)
    note keeps = process_other_keeps [OF quiet r [unfolded Inr], of k]
    have w': "w' = (if msg = S2W_ACTIVATE_WORKER then start_threads v else v)"
      using step r Inr Awaiting_activation by (simp add: receive_server_cmd_def main_catch_def)
    show ?thesis
    proof (cases "msg = S2W_ACTIVATE_WORKER")
      case True
      have "ledger k v \<longrightarrow> ledger k (start_threads v)"
        using keeps inv' Awaiting_activation by (auto simp: ledger_def start_threads_def in_work_def reports_def)
      then show ?thesis using True w' keeps inv' threads_start [of v] g
        by (auto simp: worker_inv_def start_threads_def)
    qed (use w' keeps inv' Awaiting_activation g in \<open>auto simp: worker_inv_def\<close>)
  qed
next
  case (Receiving n)
  have up: "threads_up w" "unat n \<le> unat (w_instances_to_get w)"
    using inv Receiving by (simp_all add: worker_inv_def)
  obtain v where v: "process_server_cmd env msg w = Some (Inr v)"
    "w' = (case msg of S2W_SEND_INSTANCES _ \<Rightarrow> v\<lparr> w_main := Looping \<rparr> | _ \<Rightarrow> v)"
    using step Receiving
    by (auto simp: receive_server_cmd_def main_catch_Inr rbind_Inr_iff)
  show ?thesis
  proof (cases "sends_instances msg")
    case False
    then have "granted (Main_receives msg) w = 0" "w' = v" using v(2) by (cases msg; simp)+
    then show ?thesis using process_other_keeps [OF False v(1), of k] up Receiving
      by (auto simp: worker_inv_def)
  next
    case True
    then obtain p where p: "msg = S2W_SEND_INSTANCES p" by (cases msg) auto
    have "case snd p of None \<Rightarrow> True | Some jobs \<Rightarrow> jobs_total jobs \<le> unat (w_instances_to_get w)"
      using ans p Receiving up(2) by (auto split: option.splits)
    then have keeps: "threads_up v \<and> w_main v = w_main w \<and> (ledger k w \<longrightarrow> ledger (k + granted (Main_receives msg) w) v)"
      using send_instances_keeps [of env p w v k] v(1) up(1) p Receiving by auto
    then show ?thesis using v(2) p Receiving
      by (auto simp: worker_inv_def threads_up_def accounted_def ledger_def in_work_def reports_def)
  qed
qed (use step in \<open>simp_all add: receive_server_cmd_def\<close>)

lemma worker_step_keeps:
  assumes step: "worker_step env ev w = Some (Inr w')" and inv: "worker_inv w" and ans: "answers ev w"
    and led: "ledger k w"
  shows "worker_inv w' \<and> ledger (k + granted ev w) w'"
proof (cases ev)
  case (Thread_runs i m)
  then have s: "worker_func env i m w = Some (Inr w')" using step by simp
  have i: "i < length (w_threads w)" using s by (simp add: worker_func_def split: if_splits)
  have "w_threads w ! i \<noteq> Ended" using s i by (auto simp: worker_func_def)
  then have "\<not> list_all (\<lambda>th. th = Ended) (w_threads w)" using i by (auto simp: list_all_length)
  then have "threads_up w" "w_main w \<noteq> Finished" "w_main w \<noteq> Awaiting_activation"
    using inv i by (auto simp: worker_inv_def split: main_thread.splits)
  then show ?thesis using worker_func_keeps [OF s, of k] inv led Thread_runs
    by (auto simp: worker_inv_def split: main_thread.splits)
next
  case (Main_round probe)
  have quiet: "\<not> sends_instances msg" if "probe = Some msg" for msg
    using ans Main_round that by (cases msg) auto
  consider "w_main w = Looping" | "w_main w = Joining"
    using step Main_round by (cases "w_main w") auto
  then show ?thesis
  proof cases
    case 1
    then have "main_loop_round env probe w = Some (Inr w')"
      using step Main_round by (auto simp: main_catch_Inr)
    then show ?thesis using main_loop_round_keeps [of env probe w w' k] 1 quiet inv led Main_round
      by (auto simp: worker_inv_def)
  next
    case 2
    then show ?thesis using main_join_keeps [of w env w' k] step inv led Main_round
      by (auto simp: worker_inv_def)
  qed
next
  case (Main_receives msg)
  then show ?thesis using receive_keeps [of env msg w w' k] step inv ans led by auto
qed

lemma worker_run_keeps: "worker_run env k w \<Longrightarrow> worker_inv w \<and> ledger k w"
proof (induction rule: worker_run.induct)
  case run_init
  then show ?case by (simp add: worker_init_def worker_inv_def ledger_def reports_def in_work_def)
next
  case (run_step k w ev w')
  then show ?case using worker_step_keeps by blast
qed

end
