(* ===== verification/Network.thy ===== *)
theory Network
  imports Worker_Correct Server_Correct
begin

text \<open>
  The server and its workers as one system. Messages between two processes arrive in the order
  in which they were sent, and with the content and length they were sent with; nothing else
  is assumed of the transport. The \<open>k\<close>-th accepted worker is the \<open>k\<close>-th of the list of
  workers, and the server knows it by the communicator \<open>accept k\<close>. All workers see the same
  files. The commands of the manager come from outside.
\<close>

section \<open>State\<close>

record 'p network =
  net_server :: "'p server"
  net_workers :: "'p worker list"
  to_server :: "'p worker_message list list"
  to_worker :: "s2w list list"

definition network_init :: "'p network" where
  "network_init = \<lparr> net_server = server_init, net_workers = [], to_server = [], to_worker = [] \<rparr>"

section \<open>Transport\<close>

text \<open>What a worker receives of a message the server sent, and the server of one of a worker.\<close>

fun delivered :: "'p server_env \<Rightarrow> comm \<Rightarrow> 'p server_message \<Rightarrow> s2w list" where
  "delivered env c (To_worker_req_max c' r n) =
     (if c' = c \<and> r = 0 then [S2W_REQ_MAX_CMD_LENGTH (int (encoded_length env [Value4b (of_nat n)]), Some (int n))] else [])"
| "delivered env c (Activate_worker c' r) = (if c' = c \<and> r = 0 then [S2W_ACTIVATE_WORKER] else [])"
| "delivered env c (Send_instances c' r jobs) =
     (if c' = c \<and> r = 0 then [S2W_SEND_INSTANCES (int (encoded_length env (serialize_jobs jobs)), Some jobs)] else [])"
| "delivered env c (Terminate_worker c' r) = (if c' = c \<and> r = 0 then [S2W_TERMINATE] else [])"
| "delivered env c _ = []"

fun arriving :: "'p worker_env \<Rightarrow> 'p worker_message \<Rightarrow> 'p w2s_command" where
  "arriving env (Server_req_max n) =
     W2S_REQ_MAX_CMD_LENGTH (int (we_length env [Value4b (of_nat n)]), Some (int n))"
| "arriving env (Found_solution info) =
     W2S_FOUND_SOLUTION (int (we_length env (serialize_solution_info info)), Some info)"
| "arriving env (Done_processing info) =
     W2S_DONE_PROCESSING (int (we_length env (serialize_done_processing_info info)), Some info)"
| "arriving env (Get_instances n) = W2S_GET_INSTANCES (int (we_length env [Value4b n]), Some n)"
| "arriving env Disconnect = W2S_DISCONNECT"

definition deliver :: "'p server_env \<Rightarrow> 'p server_message list \<Rightarrow> s2w list list \<Rightarrow> s2w list list" where
  "deliver env ms chans =
     map (\<lambda>k. chans ! k @ concat (map (delivered env (accept env k)) ms)) [0..<length chans]"

section \<open>Steps\<close>

text \<open>
  A round of the server's loop: the completed request, given by its index and the worker it
  belongs to, with the first message of that worker, and a command of the manager. Or a step
  of a worker: of one of its threads, a round of its main loop, which may or may not see that
  a message has arrived (the loop does not receive it, so it stays where it is), or the
  reception of a message its main thread waits for.
\<close>

datatype 'p net_event =
    Server_round "(nat \<times> nat) option" "m2s_command option"
  | Thread nat nat "'p measured"
  | Main_polls nat bool
  | Main_takes nat

definition server_takes ::
    "'p server_env \<Rightarrow> 'p worker_env \<Rightarrow> (nat \<times> nat) option \<Rightarrow> 'p network \<Rightarrow>
     ((int \<times> nat \<times> 'p w2s_command) option \<times> 'p worker_message list list) option" where
  "server_takes senv wenv src net = (case src of
     None \<Rightarrow> Some (None, to_server net)
   | Some (i, k) \<Rightarrow>
       if i < length (work_units (net_server net)) \<and> k < length (net_workers net) \<and>
          work_units (net_server net) ! i = accept senv k \<and> work_unit_requests (net_server net) ! i
       then (case to_server net ! k of
           [] \<Rightarrow> None
         | m # ms \<Rightarrow> Some (Some (int i, 0, arriving wenv m), (to_server net)[k := ms]))
       else None)"

definition server_moves ::
    "'p server_env \<Rightarrow> 'p worker_env \<Rightarrow> (nat \<times> nat) option \<Rightarrow> m2s_command option \<Rightarrow> 'p network \<Rightarrow> 'p network option" where
  "server_moves senv wenv src cmd net =
     (if \<not> running (net_server net) then None
      else (case server_takes senv wenv src net of
        None \<Rightarrow> None
      | Some (probe, chans) \<Rightarrow> (case server_iteration senv (probe, cmd) (net_server net) of
          Inl e \<Rightarrow> None
        | Inr st \<Rightarrow> (let n = accepted st - accepted (net_server net) in
            Some \<lparr> net_server = st, net_workers = net_workers net @ replicate n worker_init,
              to_server = chans @ replicate n [],
              to_worker = deliver senv (drop (length (sent (net_server net))) (sent st))
                (to_worker net @ replicate n []) \<rparr>))))"

definition worker_moves ::
    "'p worker_env \<Rightarrow> nat \<Rightarrow> 'p worker_event \<Rightarrow> s2w list \<Rightarrow> 'p network \<Rightarrow> 'p network option" where
  "worker_moves wenv k ev chan net =
     (let w = net_workers net ! k in case worker_step wenv ev w of
        Some (Inr w') \<Rightarrow> Some (net\<lparr> net_workers := (net_workers net)[k := w'],
          to_server := (to_server net)[k := to_server net ! k @ drop (length (w_sent w)) (w_sent w')],
          to_worker := (to_worker net)[k := chan] \<rparr>)
      | _ \<Rightarrow> None)"

fun net_step :: "'p server_env \<Rightarrow> 'p worker_env \<Rightarrow> 'p net_event \<Rightarrow> 'p network \<Rightarrow> 'p network option" where
  "net_step senv wenv (Server_round src cmd) net = server_moves senv wenv src cmd net"
| "net_step senv wenv (Thread k i m) net =
     (if k < length (net_workers net) then worker_moves wenv k (Thread_runs i m) (to_worker net ! k) net else None)"
| "net_step senv wenv (Main_polls k arrived) net =
     (if k < length (net_workers net) then
        (if \<not> arrived then worker_moves wenv k (Main_round None) (to_worker net ! k) net
         else (case to_worker net ! k of [] \<Rightarrow> None
           | m # ms \<Rightarrow> worker_moves wenv k (Main_round (Some m)) (m # ms) net))
      else None)"
| "net_step senv wenv (Main_takes k) net =
     (if k < length (net_workers net) then
        (case to_worker net ! k of [] \<Rightarrow> None
         | m # ms \<Rightarrow> worker_moves wenv k (Main_receives m) ms net)
      else None)"

text \<open>The states of the system; the manager sends no more files than there are task numbers.\<close>

inductive reachable :: "'p server_env \<Rightarrow> 'p worker_env \<Rightarrow> 'p network \<Rightarrow> bool" for senv wenv where
  reachable_init: "reachable senv wenv network_init"
| reachable_step: "\<lbrakk> reachable senv wenv net; net_step senv wenv ev net = Some net';
    length (available_tasks (net_server net)) < 2 ^ 32 \<rbrakk> \<Longrightarrow> reachable senv wenv net'"

section \<open>What is under way\<close>

text \<open>The tasks a worker has, whether queued, in work or executed.\<close>

fun thread_task :: "'p thread \<Rightarrow> 'p task list" where
  "thread_task (Holding t) = [t]"
| "thread_task (Executed t) = [t]"
| "thread_task _ = []"

definition tasks_of :: "'p worker \<Rightarrow> 'p task list" where
  "tasks_of w = w_tasks w @ concat (map thread_task (w_threads w)) @ w_tasks_done w"

definition held :: "nat \<Rightarrow> 'p worker \<Rightarrow> nat" where
  "held i w = length (filter (\<lambda>t. unat (dp_task_id (t_dpi t)) = i) (tasks_of w))"

text \<open>The instances of a task in a message, sent out or reported back.\<close>

fun sent_out :: "nat \<Rightarrow> s2w \<Rightarrow> nat" where
  "sent_out i (S2W_SEND_INSTANCES (len, Some jobs)) = jobs_of i jobs"
| "sent_out i _ = 0"

fun reported_back :: "nat \<Rightarrow> 'p worker_message \<Rightarrow> nat" where
  "reported_back i (Done_processing d) = (if unat (dp_task_id d) = i then unat (dp_instances_processed d) else 0)"
| "reported_back i _ = 0"

definition outstanding :: "nat \<Rightarrow> 'p worker \<Rightarrow> 'p worker_message list \<Rightarrow> s2w list \<Rightarrow> nat" where
  "outstanding i w up down =
     sum_list (map (sent_out i) down) + held i w + sum_list (map (reported_back i) up)"

text \<open>All instances of a task that are on their way to a worker, at one, or on their way back.\<close>

definition under_way :: "nat \<Rightarrow> 'p network \<Rightarrow> nat" where
  "under_way i net = (\<Sum>k \<leftarrow> [0..<length (net_workers net)].
     outstanding i (net_workers net ! k) (to_server net ! k) (to_worker net ! k))"

end
