(* ===== verification/Network_Worker.thy ===== *)
theory Network_Worker
  imports Network
begin

text \<open>
  What the steps of one worker do to the instances under way and to the protocol with the
  server, in the system of \<open>Network\<close>.
\<close>

section \<open>Tasks and the formula of their file\<close>

text \<open>
  A formula that was read from a file. What a task reports fits its file if, unless it made no
  flip, the numbers of variables and clauses are those of the file.
\<close>

definition of_file :: "'p worker_env \<Rightarrow> string \<Rightarrow> cnf_formula \<Rightarrow> bool" where
  "of_file env name F \<longleftrightarrow>
     (\<exists>counts. read (open_file (we_file env name)) [] [] = Some (Inr (num_variables F, clauses F, counts)))"

definition fits :: "'p worker_env \<Rightarrow> string \<Rightarrow> 'p done_processing_info \<Rightarrow> bool" where
  "fits env name d \<longleftrightarrow> (0 < dp_num_flips_done d \<longrightarrow> (\<exists>F. of_file env name F \<and>
     dp_num_vars d = of_int (num_variables F) \<and> dp_num_clauses d = of_int (num_clauses F)))"

lemma of_file_same:
  "of_file env name F \<Longrightarrow> of_file env name G \<Longrightarrow> num_variables F = num_variables G \<and> clauses F = clauses G"
  by (auto simp: of_file_def)

lemma of_file_cong:
  "num_variables F = num_variables G \<Longrightarrow> clauses F = clauses G \<Longrightarrow> of_file env name F = of_file env name G"
  by (simp add: of_file_def)

lemma foldM_keeps:
  assumes "\<And>x s s'. f x s = Some s' \<Longrightarrow> g s' = g s" and "foldM f xs s = Some s'"
  shows "g s' = g s"
  using assms(2) by (induction xs arbitrary: s) (auto simp: bind_eq_Some_conv dest: assms(1))

lemma fill_step_keeps:
  "fill_step c l st = Some st' \<Longrightarrow>
   num_variables (fst st') = num_variables (fst st) \<and> clauses (fst st') = clauses (fst st)"
  by (cases st) (auto simp: fill_step_def bind_eq_Some_conv Let_def split: prod.splits if_splits)

lemma fill_clause_keeps:
  "fill_clause c st = Some st' \<Longrightarrow>
   (num_variables (fst st'), clauses (fst st')) = (num_variables (fst st), clauses (fst st))"
  by (auto simp: fill_clause_def bind_eq_Some_conv split: prod.splits dest!: fill_step_keeps
      elim!: foldM_keeps [rotated])

lemma constructor_keeps:
  assumes "cnf_formula_constructor_variant_cont_datastruct counts F = Inr F'"
  shows "num_variables F' = num_variables F \<and> clauses F' = clauses F"
proof -
  obtain G ci ci' where "foldM fill_clause [0..num_clauses F - 1] (G, ci) = Some (F', ci')"
    "num_variables G = num_variables F" "clauses G = clauses F"
    using assms
    by (auto simp: cnf_formula_constructor_variant_cont_datastruct_def rbind_Inr_iff Let_def
        defined_def split: option.splits prod.splits)
  then show ?thesis
    using foldM_keeps [of fill_clause "\<lambda>st. (num_variables (fst st), clauses (fst st))"] fill_clause_keeps
    by fastforce
qed

lemma initialized_of_file:
  assumes "initialize_sharing tol (we_file env name) F = Some (Inr F')" "clauses F = [] \<or> of_file env name F"
  shows "of_file env name F'"
proof (cases "clauses F = []")
  case True
  then obtain nv cls counts where r: "read (open_file (we_file env name)) [] [] = Some (Inr (nv, cls, counts))"
    "cnf_formula_constructor_variant_cont_datastruct counts (F\<lparr>num_variables := nv, clauses := cls\<rparr>) = Inr F'"
    using assms(1) by (auto simp: initialize_sharing_def initialize_formula_def rbind_Inr_iff bind_eq_Some_conv
        split: if_splits)
  then show ?thesis using constructor_keeps [OF r(2)] by (simp add: of_file_def)
next
  case False
  then show ?thesis using assms by (simp add: initialize_sharing_def)
qed

lemma finish_task_keeps:
  "finish_task m F dpi solver = Inr d \<Longrightarrow> dp_task_id d = dp_task_id dpi \<and> dp_instances_processed d = 1 \<and>
     dp_num_vars d = dp_num_vars dpi \<and> dp_num_clauses d = dp_num_clauses dpi"
  by (auto simp: finish_task_def Let_def rbind_Inr_iff split: if_splits)

lemma run_task_keeps:
  assumes "run_task ops pf m max_flips F dpi = Some (Inr d)"
  shows "dp_task_id d = dp_task_id dpi \<and> dp_instances_processed d = 1 \<and>
     dp_num_vars d = of_int (num_variables F) \<and> dp_num_clauses d = of_int (num_clauses F)"
  using assms
  by (auto simp: run_task_def Let_def rbind_Inr_iff bind_eq_Some_conv dest!: finish_task_keeps
      split: option.splits prod.splits)

lemma execute_keeps:
  assumes run: "execute ops pf tol (we_file env (t_name t)) m t F = Some (Inr (F', t'))" and F: "of_file env (t_name t) F"
  shows "t_name t' = t_name t \<and> t_cnf t' = t_cnf t \<and> dp_task_id (t_dpi t') = dp_task_id (t_dpi t) \<and>
    of_file env (t_name t) F' \<and>
    (t' = t \<or> fits env (t_name t) (t_dpi t') \<and> dp_instances_processed (t_dpi t') = 1)"
proof -
  obtain r where r: "initialize_sharing tol (we_file env (t_name t)) F = Some r"
    using run by (auto simp: execute_def split: option.splits)
  show ?thesis
  proof (cases r)
    case (Inl e)
    then show ?thesis using run r F by (auto simp: execute_def split: if_splits)
  next
    case (Inr G)
    then obtain d where d: "run_task ops pf m (t_max_flips t) G (t_dpi t) = Some (Inr d)" "F' = G" "t' = t\<lparr> t_dpi := d \<rparr>"
      using run r by (auto simp: execute_def rbind_Inr_iff)
    have "of_file env (t_name t) G" using initialized_of_file r Inr F by blast
    then show ?thesis using run_task_keeps [OF d(1)] d(2,3) by (auto simp: fits_def)
  qed
qed

section \<open>What a worker holds\<close>

abbreviation task_id_of :: "'p task \<Rightarrow> nat" where
  "task_id_of x \<equiv> unat (dp_task_id (t_dpi x))"

definition task_fits :: "'p worker_env \<Rightarrow> problem_instance_metadata list \<Rightarrow> cnf_formula list \<Rightarrow> 'p task \<Rightarrow> bool" where
  "task_fits env mds fs x \<longleftrightarrow> task_id_of x < length mds \<and> t_name x = filename (mds ! task_id_of x) \<and>
     t_cnf x < length fs \<and> of_file env (t_name x) (fs ! t_cnf x) \<and> fits env (t_name x) (t_dpi x) \<and>
     unat (dp_instances_processed (t_dpi x)) \<le> 1"

definition worker_fits :: "'p worker_env \<Rightarrow> problem_instance_metadata list \<Rightarrow> 'p worker \<Rightarrow> bool" where
  "worker_fits env mds w \<longleftrightarrow> (\<forall>x \<in> set (tasks_of w). task_fits env mds (w_formulas w) x)"

fun report_fits :: "'p worker_env \<Rightarrow> problem_instance_metadata list \<Rightarrow> 'p worker_message \<Rightarrow> bool" where
  "report_fits env mds (Done_processing d) \<longleftrightarrow>
     unat (dp_task_id d) < length mds \<and> fits env (filename (mds ! unat (dp_task_id d))) d"
| "report_fits env mds (Found_solution info) \<longleftrightarrow> si_filename info \<in> filename ` set mds"
| "report_fits env mds _ \<longleftrightarrow> True"

fun jobs_fit :: "problem_instance_metadata list \<Rightarrow> s2w \<Rightarrow> bool" where
  "jobs_fit mds (S2W_SEND_INSTANCES (len, Some jobs)) \<longleftrightarrow>
     (\<forall>j \<in> set jobs. unat (job_task_id j) < length mds \<and> job_metadata j = mds ! unat (job_task_id j))"
| "jobs_fit mds _ \<longleftrightarrow> True"

definition task_count :: "nat \<Rightarrow> 'p task list \<Rightarrow> nat" where
  "task_count i xs = length (filter (\<lambda>x. task_id_of x = i) xs)"

lemma task_count_simps [simp]:
  "task_count i [] = 0" "task_count i (x # xs) = of_bool (task_id_of x = i) + task_count i xs"
  "task_count i (xs @ ys) = task_count i xs + task_count i ys"
  "task_count i (replicate n x) = (if task_id_of x = i then n else 0)"
  by (simp_all add: task_count_def)

lemma held_eq:
  "held i w = task_count i (w_tasks w) + (\<Sum>th \<leftarrow> w_threads w. task_count i (thread_task th)) + task_count i (w_tasks_done w)"
proof -
  have "length (filter P (concat xss)) = (\<Sum>xs \<leftarrow> xss. length (filter P xs))" for P :: "'a task \<Rightarrow> bool" and xss
    by (induction xss) auto
  then show ?thesis by (simp add: held_def tasks_of_def task_count_def comp_def)
qed

lemma held_set_thread:
  "j < length (w_threads w) \<Longrightarrow>
   held i (set_thread j th w) + task_count i (thread_task (w_threads w ! j)) = held i w + task_count i (thread_task th)"
  using sum_update [of j "w_threads w" "\<lambda>th. task_count i (thread_task th)" th] by (simp add: held_eq)

lemma tasks_of_set_thread:
  "set (tasks_of (set_thread j th w)) \<subseteq> set (tasks_of w) \<union> set (thread_task th)"
  by (auto simp: tasks_of_def dest!: set_update_subset_insert [THEN subsetD])

lemma same_books_held: "same_books w w' \<Longrightarrow> held i w' = held i w"
  and same_books_fits: "same_books w w' \<Longrightarrow> worker_fits env mds w' = worker_fits env mds w"
  by (simp_all add: same_books_def held_eq worker_fits_def tasks_of_def)

text \<open>The requests among the messages of a worker.\<close>

fun requests :: "'p worker_message list \<Rightarrow> u32 list" where
  "requests [] = []"
| "requests (Get_instances n # ms) = n # requests ms"
| "requests (_ # ms) = requests ms"

lemma requests_append [simp]: "requests (ms @ ns) = requests ms @ requests ns"
  by (induction ms rule: requests.induct) auto

lemma req_max_silent:
  assumes "set ms \<subseteq> range Server_req_max"
  shows "requests ms = []" "sum_list (map (reported_back i) ms) = 0" "\<forall>m \<in> set ms. report_fits env mds m"
  using assms by (induction ms) auto

lemma server_send_effect:
  assumes "server_send env items msg w = Inr w'"
  shows "\<exists>out. w_sent w' = w_sent w @ out \<and> same_books w w' \<and> requests out = requests [msg] \<and>
    (\<forall>i. sum_list (map (reported_back i) out) = reported_back i msg) \<and>
    ((\<forall>m \<in> set out. report_fits wenv mds m) \<longleftrightarrow> report_fits wenv mds msg)"
proof -
  obtain ms where ms: "w_sent w' = w_sent w @ ms @ [msg]" "set ms \<subseteq> range Server_req_max"
    using server_send_frame [OF assms] by blast
  then show ?thesis using server_send_frame [OF assms] req_max_silent [OF ms(2)]
    by (intro exI [of _ "ms @ [msg]"]) auto
qed

section \<open>The effect of a step\<close>

text \<open>
  A step of a worker that took \<open>gained\<close> instances of each task from a message: what it holds
  and what it reported are accounted for, with equality as long as it works, and all of it
  still fits the files.
\<close>

definition effect ::
    "'p worker_env \<Rightarrow> problem_instance_metadata list \<Rightarrow> (nat \<Rightarrow> nat) \<Rightarrow> 'p worker \<Rightarrow> 'p worker_message list \<Rightarrow> 'p worker \<Rightarrow> bool" where
  "effect env mds gained w out w' \<longleftrightarrow> w_sent w' = w_sent w @ out \<and> (w_running w' \<longrightarrow> w_running w) \<and>
     worker_fits env mds w' \<and> (\<forall>m \<in> set out. report_fits env mds m) \<and>
     (\<forall>i. held i w' + sum_list (map (reported_back i) out) \<le> held i w + gained i \<and>
        (w_running w' \<longrightarrow> held i w' + sum_list (map (reported_back i) out) = held i w + gained i))"

lemma effect_refl: "worker_fits env mds w \<Longrightarrow> effect env mds (\<lambda>_. 0) w [] w"
  by (simp add: effect_def)

lemma solution_send_effect:
  assumes "(if dp_solved (t_dpi x) then w2s_found_solution_send env (solution_of x) w else Inr w) = Inr w1"
    and x: "task_fits env mds fs x"
  shows "\<exists>out. w_sent w1 = w_sent w @ out \<and> same_books w w1 \<and> requests out = [] \<and>
    (\<forall>i. sum_list (map (reported_back i) out) = 0) \<and> (\<forall>m \<in> set out. report_fits env mds m)"
proof (cases "dp_solved (t_dpi x)")
  case True
  have "filename (mds ! task_id_of x) \<in> filename ` set mds" using x by (auto simp: task_fits_def)
  then have "report_fits env mds (Found_solution (solution_of x))" using x by (simp add: solution_of_def task_fits_def)
  then show ?thesis using True assms(1) server_send_effect [of env _ "Found_solution (solution_of x)" w w1 env mds]
    by auto
next
  case False
  then show ?thesis using assms by (intro exI [of _ "[]"]) (simp add: same_books_refl)
qed

lemma return_task_effect:
  assumes r: "return_task env x w = Inr w'" and x: "task_fits env mds (w_formulas w) x"
  shows "\<exists>out. w_sent w' = w_sent w @ out \<and> same_books w w' \<and> requests out = [] \<and>
    (\<forall>m \<in> set out. report_fits env mds m) \<and>
    (\<forall>i. sum_list (map (reported_back i) out) = of_bool (task_id_of x = i))"
proof -
  obtain w1 where w1: "(if dp_solved (t_dpi x) then w2s_found_solution_send env (solution_of x) w else Inr w) = Inr w1"
    and w2: "done_processing_send env (t_dpi x) w1 = Inr w'" and pos: "\<not> 0 \<ge> dp_instances_processed (t_dpi x)"
    using r by (auto simp: return_task_def rbind_Inr_iff split: if_splits)
  have one: "unat (dp_instances_processed (t_dpi x)) = 1"
    using pos x by (auto simp: task_fits_def word_le_nat_alt)
  obtain o1 where o1: "w_sent w1 = w_sent w @ o1" "same_books w w1" "requests o1 = []"
    "\<forall>i. sum_list (map (reported_back i) o1) = 0" "\<forall>m \<in> set o1. report_fits env mds m"
    using solution_send_effect [OF w1 x] by blast
  have fit: "report_fits env mds (Done_processing (t_dpi x))" using x by (auto simp: task_fits_def)
  obtain o2 where o2: "w_sent w' = w_sent w1 @ o2" "same_books w1 w'" "requests o2 = []"
    "\<forall>i. sum_list (map (reported_back i) o2) = of_bool (task_id_of x = i)" "\<forall>m \<in> set o2. report_fits env mds m"
    using server_send_effect [OF w2, of env mds] one fit by auto
  show ?thesis using o1 o2 same_books_trans [OF o1(2) o2(2)] by (intro exI [of _ "o1 @ o2"]) auto
qed

text \<open>A thread.\<close>

lemma task_fits_formulas:
  assumes "task_fits env mds fs x" "length fs' = length fs"
    and "\<And>n name. n < length fs \<Longrightarrow> of_file env name (fs ! n) \<Longrightarrow> of_file env name (fs' ! n)"
  shows "task_fits env mds fs' x"
  using assms by (auto simp: task_fits_def)

lemma execute_task_effect:
  assumes run: "execute_task env j m x w = Some (Inr w')" and j: "j < length (w_threads w)"
    and th: "w_threads w ! j = Holding x" and fit: "worker_fits env mds w"
  shows "effect env mds (\<lambda>_. 0) w [] w'"
proof -
  obtain F F' x' where F: "vget (w_formulas w) (int (t_cnf x)) = Some F"
    and ex: "execute (we_arith env) (we_pfi env) (we_tolerated env) (we_file env (t_name x)) m x F = Some (Inr (F', x'))"
    and w': "w' = set_thread j (Executed x') (w\<lparr> w_formulas := (w_formulas w)[t_cnf x := F'] \<rparr>)"
    using run by (auto simp: execute_task_def rbind_Inr_iff split: option.splits)
  let ?fs = "(w_formulas w)[t_cnf x := F']"
  have "Holding x \<in> set (w_threads w)" using th j by (metis nth_mem)
  then have mem: "x \<in> set (tasks_of w)" by (force simp: tasks_of_def)
  then have xf: "task_fits env mds (w_formulas w) x" using fit by (auto simp: worker_fits_def)
  then have Fx: "F = w_formulas w ! t_cnf x" "t_cnf x < length (w_formulas w)" "of_file env (t_name x) F"
    using F by (auto simp: task_fits_def split: if_splits)
  note keep = execute_keeps [OF ex Fx(3)]
  have "num_variables F' = num_variables F" "clauses F' = clauses F"
    using of_file_same [of env "t_name x" F' F] keep Fx(3) by auto
  then have "of_file env name (?fs ! n)" if "of_file env name (w_formulas w ! n)" for n name
    using that of_file_cong [of F' F env name] Fx(1,2) by (cases "n = t_cnf x") auto
  then have fs: "task_fits env mds ?fs y" if "y \<in> set (tasks_of w)" for y
    using task_fits_formulas [of env mds "w_formulas w" y ?fs] fit that by (auto simp: worker_fits_def)
  have "task_fits env mds ?fs x'" using fs [OF mem] keep by (auto simp: task_fits_def)
  moreover have "set (tasks_of w') \<subseteq> set (tasks_of w) \<union> {x'}"
    using tasks_of_set_thread [of j "Executed x'" "w\<lparr> w_formulas := ?fs \<rparr>"] by (simp add: w' tasks_of_def)
  ultimately have "worker_fits env mds w'" using fs by (auto simp: worker_fits_def w')
  moreover have "held i w' = held i w" for i
    using held_set_thread [of j "w\<lparr> w_formulas := ?fs \<rparr>" i "Executed x'"] th j keep
    by (simp add: w' held_eq)
  ultimately show ?thesis by (simp add: effect_def w')
qed

lemma worker_func_effect:
  assumes run: "worker_func env j m w = Some (Inr w')" and fit: "worker_fits env mds w"
  shows "effect env mds (\<lambda>_. 0) w [] w' \<and> w_main w' = w_main w"
proof -
  have main: "w_main w' = w_main w" by (rule worker_func_cases [OF run]) simp_all
  have "effect env mds (\<lambda>_. 0) w [] w'"
    using run
  proof (cases rule: worker_func_cases)
    case idle
    then show ?thesis using effect_refl [OF fit] by simp
  next
    case (take t ts)
    then have "set (tasks_of w') \<subseteq> set (tasks_of w)"
      using tasks_of_set_thread [of j "Holding t" "w\<lparr> w_tasks := ts \<rparr>"] by (auto simp: tasks_of_def)
    moreover have "held i w' = held i w" for i
      using held_set_thread [of j "w\<lparr> w_tasks := ts \<rparr>" i "Holding t"] take by (simp add: held_eq)
    ultimately show ?thesis using fit take by (auto simp: effect_def worker_fits_def)
  next
    case stop
    then have "set (tasks_of w') \<subseteq> set (tasks_of w)" using tasks_of_set_thread [of j Ended w] by auto
    moreover have "held i w' \<le> held i w" for i using held_set_thread [of j w i Ended] stop by simp
    ultimately show ?thesis using fit stop by (auto simp: effect_def worker_fits_def)
  next
    case (exec t t' fs)
    then show ?thesis using execute_task_effect [of env j m t w w' mds] fit run by (simp add: worker_func_def)
  next
    case (finish t)
    let ?w = "w\<lparr> w_tasks_done := w_tasks_done w @ [t], w_instances_to_get := w_instances_to_get w + 1 \<rparr>"
    have "Executed t \<in> set (w_threads w)" using finish by (metis nth_mem)
    then have "t \<in> set (tasks_of w)" by (force simp: tasks_of_def)
    moreover have "set (tasks_of ?w) = insert t (set (tasks_of w))" by (auto simp: tasks_of_def)
    ultimately have "set (tasks_of w') \<subseteq> set (tasks_of w)"
      using tasks_of_set_thread [of j Polling ?w] finish(2) by auto
    moreover have "held i w' = held i w" for i
      using held_set_thread [of j ?w i Polling] finish by (simp add: held_eq)
    ultimately show ?thesis using fit finish by (auto simp: effect_def worker_fits_def)
  qed
  then show ?thesis using main by blast
qed

text \<open>Jobs become tasks.\<close>

lemma task_new_fits:
  assumes "initialize_sharing (we_tolerated env) (we_file env (filename md)) formula_new = Some (Inr F)"
    and "unat tid < length mds" "mds ! unat tid = md"
  shows "task_fits env mds (fs @ [F]) (task_new ops md (length fs) tid)"
proof -
  have "of_file env (filename md) F"
    using initialized_of_file [OF assms(1)] by (simp add: formula_new_def)
  then show ?thesis using assms(2,3)
    by (simp add: task_fits_def task_new_def fits_def done_processing_info_default_def)
qed

lemma create_tasks_effect:
  assumes "create_tasks env jobs w = Some (Inr w')" "worker_fits env mds w" "jobs_fit mds (S2W_SEND_INSTANCES (len, Some jobs))"
  shows "worker_fits env mds w' \<and> w_running w' = w_running w \<and> w_main w' = w_main w \<and> w_sent w' = w_sent w \<and>
    (\<forall>i. held i w' = held i w + jobs_of i jobs)"
  using assms
proof (induction jobs arbitrary: w)
  case Nil
  then show ?case by simp
next
  case (Cons j jobs)
  let ?new = "task_new (we_arith env) (job_metadata j) (length (w_formulas w)) (job_task_id j)"
  obtain F where F: "initialize_sharing (we_tolerated env) (we_file env (filename (job_metadata j))) formula_new = Some (Inr F)"
    and run: "create_tasks env jobs (w\<lparr> w_formulas := w_formulas w @ [F],
          w_tasks := w_tasks w @ replicate (unat (num_instances_to_start j)) ?new,
          w_instances_to_get := w_instances_to_get w - num_instances_to_start j \<rparr>) = Some (Inr w')"
    (is "create_tasks env jobs ?w = _")
    using Cons.prems(1) by (auto split: if_splits option.splits sum.splits)
  have new: "task_fits env mds (w_formulas w @ [F]) ?new"
    using task_new_fits [OF F, of "job_task_id j" mds] Cons.prems(3) by simp
  have old: "task_fits env mds (w_formulas w @ [F]) x" if "x \<in> set (tasks_of w)" for x
    using Cons.prems(2) that by (auto simp: worker_fits_def task_fits_def nth_append)
  have "worker_fits env mds ?w" using old new by (auto simp: worker_fits_def tasks_of_def)
  then have "worker_fits env mds w' \<and> w_running w' = w_running w \<and> w_main w' = w_main w \<and> w_sent w' = w_sent w \<and>
      (\<forall>i. held i w' = held i ?w + jobs_of i jobs)"
    using Cons.IH [OF run] Cons.prems(3) by simp
  moreover have "held i ?w = held i w + jobs_of i [j]" for i
    by (simp add: held_eq task_new_def)
  moreover have "jobs_of i (j # jobs) = jobs_of i [j] + jobs_of i jobs" for i
    by (simp add: jobs_of_def)
  ultimately show ?case by simp
qed

lemma process_cmd_effect:
  assumes run: "process_server_cmd env msg w = Some (Inr w')" and fit: "worker_fits env mds w" "jobs_fit mds msg"
  shows "effect env mds (\<lambda>i. sent_out i msg) w [] w' \<and> w_main w' = w_main w"
proof (cases "sends_instances msg")
  case False
  have "(\<exists>cap. w' = w\<lparr> w_capacity := cap \<rparr>) \<or> w' = w\<lparr> w_running := False \<rparr>"
    by (rule process_other_cases [OF False run]) auto
  then have "tasks_of w' = tasks_of w \<and> w_formulas w' = w_formulas w \<and> w_sent w' = w_sent w \<and>
      (w_running w' \<longrightarrow> w_running w) \<and> w_main w' = w_main w" by (auto simp: tasks_of_def)
  moreover have "sent_out i msg = 0" for i using False by (cases msg) auto
  ultimately show ?thesis using fit(1) by (simp add: effect_def held_def worker_fits_def)
next
  case True
  then obtain len c where msg: "msg = S2W_SEND_INSTANCES (len, c)" by (cases msg) auto
  then obtain jobs where jobs: "c = Some jobs"
    and w': "if \<not> w_running w \<or> jobs = [] then w' = w else create_tasks env jobs w = Some (Inr w')"
    using run by (auto simp: process_s2w_send_instances_def received_Inr split: sum.splits if_splits)
  show ?thesis
  proof (cases "\<not> w_running w \<or> jobs = []")
    case True
    then show ?thesis using w' fit(1) msg jobs by (auto simp: effect_def)
  next
    case False
    then show ?thesis using create_tasks_effect [of env jobs w w' mds len] w' fit msg jobs by (auto simp: effect_def)
  qed
qed

section \<open>The main thread\<close>

lemma effect_trans:
  assumes "effect env mds gained w o1 v" "effect env mds (\<lambda>_. 0) v o2 w'"
  shows "effect env mds gained w (o1 @ o2) w'"
proof -
  have "held i w' + sum_list (map (reported_back i) (o1 @ o2)) \<le> held i w + gained i \<and>
      (w_running w' \<longrightarrow> held i w' + sum_list (map (reported_back i) (o1 @ o2)) = held i w + gained i)" for i
  proof -
    have "held i v + sum_list (map (reported_back i) o1) \<le> held i w + gained i"
      "w_running v \<longrightarrow> held i v + sum_list (map (reported_back i) o1) = held i w + gained i"
      "held i w' + sum_list (map (reported_back i) o2) \<le> held i v"
      "w_running w' \<longrightarrow> held i w' + sum_list (map (reported_back i) o2) = held i v \<and> w_running v"
      using assms by (simp_all add: effect_def)
    then show ?thesis by auto
  qed
  then show ?thesis using assms by (auto simp: effect_def)
qed

lemma same_books_effect:
  assumes "same_books w w'" "w_sent w' = w_sent w @ out" "worker_fits env mds w"
    and "\<forall>i. sum_list (map (reported_back i) out) = 0" "\<forall>m \<in> set out. report_fits env mds m"
  shows "effect env mds (\<lambda>_. 0) w out w'"
  using assms same_books_held [OF assms(1)] same_books_fits [OF assms(1)]
  by (simp add: effect_def same_books_def)

text \<open>
  The control point of the main thread after a step that sent the requests \<open>rs\<close>, if it did
  or did not take an answer.
\<close>

definition main_change :: "bool \<Rightarrow> main_thread \<Rightarrow> u32 list \<Rightarrow> main_thread \<Rightarrow> bool" where
  "main_change answered before rs after \<longleftrightarrow> (case before of
     Receiving n \<Rightarrow> rs = [] \<and> after = (if answered then Looping else Receiving n)
   | _ \<Rightarrow> (case after of Receiving n \<Rightarrow> before = Looping \<and> rs = [n] | _ \<Rightarrow> rs = []))"

lemma request_instances_effect:
  assumes run: "request_instances env w = Inr w'" and fit: "worker_fits env mds w" and main: "w_main w = Looping"
  shows "\<exists>out. effect env mds (\<lambda>_. 0) w out w' \<and> main_change a Looping (requests out) (w_main w')"
proof (cases "w_running w \<and> min instances_buffered num_probsat_threads_per_worker < w_instances_to_get w")
  case False
  then have "w' = w" using run by (auto simp: request_instances_def split: if_splits)
  then show ?thesis using effect_refl [OF fit] main by (intro exI [of _ "[]"]) (simp add: main_change_def)
next
  case True
  then obtain v where v: "get_instances_send env (w_instances_to_get w) w = Inr v"
    "w' = v\<lparr> w_main := Receiving (w_instances_to_get v) \<rparr>"
    using run by (auto simp: request_instances_def rbind_Inr_iff)
  obtain out where out: "w_sent v = w_sent w @ out" "same_books w v" "requests out = [w_instances_to_get w]"
    "\<forall>i. sum_list (map (reported_back i) out) = 0" "\<forall>m \<in> set out. report_fits env mds m"
    using server_send_effect [OF v(1) [unfolded get_instances_send_def], of env mds] by auto
  have "w_instances_to_get v = w_instances_to_get w" using out(2) by (simp add: same_books_def)
  moreover have "tasks_of w' = tasks_of v" "w_formulas w' = w_formulas v" "w_sent w' = w_sent v"
    "w_running w' = w_running v" using v(2) by (simp_all add: tasks_of_def)
  ultimately show ?thesis using same_books_effect [OF out(2,1) fit out(4,5)] out(3) v(2)
    by (intro exI [of _ out]) (simp add: main_change_def effect_def held_def worker_fits_def)
qed

lemma return_first_effect:
  assumes d: "w_tasks_done w = x # xs" and r: "return_task env x (w\<lparr> w_tasks_done := xs \<rparr>) = Inr w'"
    and fit: "worker_fits env mds w"
  shows "\<exists>out. effect env mds (\<lambda>_. 0) w out w' \<and> requests out = [] \<and> w_main w' = w_main w"
proof -
  let ?v = "w\<lparr> w_tasks_done := xs \<rparr>"
  have sub: "set (tasks_of w) = insert x (set (tasks_of ?v))" using d by (auto simp: tasks_of_def)
  then have x: "task_fits env mds (w_formulas ?v) x" and v: "worker_fits env mds ?v"
    using fit by (auto simp: worker_fits_def)
  obtain out where out: "w_sent w' = w_sent ?v @ out" "same_books ?v w'" "requests out = []"
    "\<forall>m \<in> set out. report_fits env mds m" "\<forall>i. sum_list (map (reported_back i) out) = of_bool (task_id_of x = i)"
    using return_task_effect [OF r x] by blast
  have "held i w' + sum_list (map (reported_back i) out) = held i w" for i
    using same_books_held [OF out(2), of i] out(5) d by (simp add: held_eq)
  then show ?thesis using out same_books_fits [OF out(2)] v
    by (intro exI [of _ out]) (simp add: effect_def same_books_def)
qed

lemma main_loop_round_effect:
  assumes run: "main_loop_round env probe w = Some (Inr w')" and fit: "worker_fits env mds w"
    and main: "w_main w = Looping" and quiet: "\<And>msg. probe = Some msg \<Longrightarrow> \<not> sends_instances msg"
  shows "\<exists>out. effect env mds (\<lambda>_. 0) w out w' \<and> main_change a Looping (requests out) (w_main w')"
proof (cases "w_running w")
  case False
  then have w': "w' = w\<lparr> w_main := Joining \<rparr>" using run by (simp add: main_loop_round_def)
  have "effect env mds (\<lambda>_. 0) w [] w'"
    using fit by (simp add: effect_def w' held_def worker_fits_def tasks_of_def)
  then show ?thesis by (intro exI [of _ "[]"]) (simp add: main_change_def w')
next
  case True
  show ?thesis
  proof (cases "w_tasks_done w")
    case (Cons x xs)
    then have "return_task env x (w\<lparr> w_tasks_done := xs \<rparr>) = Inr w'" using run True by (simp add: main_loop_round_def)
    then show ?thesis using return_first_effect [OF Cons _ fit] main by (fastforce simp: main_change_def)
  next
    case Nil
    obtain v where v: "case probe of None \<Rightarrow> v = w | Some msg \<Rightarrow> process_server_cmd env msg w = Some (Inr v)"
      "request_instances env v = Inr w'"
      using run True Nil by (auto simp: main_loop_round_def rbind_Inr_iff split: option.splits)
    have 1: "effect env mds (\<lambda>_. 0) w [] v \<and> w_main v = Looping"
    proof (cases probe)
      case None
      then show ?thesis using v(1) effect_refl [OF fit] main by simp
    next
      case (Some msg)
      have "sent_out i msg = 0" "jobs_fit mds msg" for i using quiet [OF Some] by (cases msg; simp)+
      then show ?thesis using process_cmd_effect [of env msg w v mds] v(1) Some fit main by simp
    qed
    then have "worker_fits env mds v" by (simp add: effect_def)
    then show ?thesis using request_instances_effect [OF v(2), of mds a] effect_trans [of env mds _ w "[]" v] 1
      by fastforce
  qed
qed

lemma return_task_Inl_effect:
  assumes r: "return_task env x w = Inl (e, w')" and x: "task_fits env mds fs x"
  shows "\<exists>out. w_sent w' = w_sent w @ out \<and> same_books w w' \<and> requests out = [] \<and>
    (\<forall>i. sum_list (map (reported_back i) out) = 0) \<and> (\<forall>m \<in> set out. report_fits env mds m)"
proof (cases "if dp_solved (t_dpi x) then w2s_found_solution_send env (solution_of x) w else Inr w")
  case (Inl y)
  then have "w2s_found_solution_send env (solution_of x) w = Inl (e, w')"
    using r by (auto simp: return_task_def split: if_splits)
  then show ?thesis using server_send_Inl by (intro exI [of _ "[]"]) fastforce
next
  case (Inr w1)
  obtain out where out: "w_sent w1 = w_sent w @ out" "same_books w w1" "requests out = []"
    "\<forall>i. sum_list (map (reported_back i) out) = 0" "\<forall>m \<in> set out. report_fits env mds m"
    using solution_send_effect [OF Inr x] by blast
  have "w' = w1 \<or> done_processing_send env (t_dpi x) w1 = Inl (e, w')"
    using r Inr by (auto simp: return_task_def split: if_splits)
  then have "same_books w1 w' \<and> w_sent w' = w_sent w1" using server_send_Inl same_books_refl by blast
  then show ?thesis using out same_books_trans [OF out(2)] by auto
qed

lemma leave_server_effect:
  assumes "effect env mds gained w out v"
  shows "effect env mds gained w (out @ [Disconnect]) (leave_server v)"
  using assms by (simp add: effect_def leave_server_def held_def worker_fits_def tasks_of_def)

lemma main_join_effect:
  assumes step: "map_option (main_catch w) (main_join env w) = Some (Inr w')" and fit: "worker_fits env mds w"
    and main: "w_main w = Joining" and stop: "\<not> w_running w"
  shows "\<exists>out. effect env mds (\<lambda>_. 0) w out w' \<and> main_change a Joining (requests out) (w_main w')"
proof (cases "w_tasks_done w")
  case Nil
  then have w': "w' = leave_server w"
    using step by (auto simp: main_join_def main_catch_def split: if_splits)
  then show ?thesis using leave_server_effect [OF effect_refl [OF fit]]
    by (intro exI [of _ "[Disconnect]"]) (simp add: main_change_def)
next
  case (Cons x xs)
  let ?v = "w\<lparr> w_tasks_done := xs \<rparr>"
  have c: "main_catch w (return_task env x ?v) = Inr w'"
    using step Cons by (auto simp: main_join_def split: if_splits)
  show ?thesis
  proof (cases "return_task env x ?v")
    case (Inr y)
    then have "return_task env x ?v = Inr w'" using c by (simp add: main_catch_def)
    then show ?thesis using return_first_effect [OF Cons _ fit] main by (fastforce simp: main_change_def)
  next
    case (Inl y)
    obtain e v where y: "return_task env x ?v = Inl (e, v)" using Inl by (cases y) simp
    have w': "w' = leave_server v" using c y main by (simp add: main_catch_def split: if_splits)
    have x: "task_fits env mds (w_formulas w) x" using fit Cons by (simp add: worker_fits_def tasks_of_def)
    obtain out where out: "w_sent v = w_sent ?v @ out" "same_books ?v v" "requests out = []"
      "\<forall>i. sum_list (map (reported_back i) out) = 0" "\<forall>m \<in> set out. report_fits env mds m"
      using return_task_Inl_effect [OF y x] by blast
    have "held i v + sum_list (map (reported_back i) out) \<le> held i w" for i
      using same_books_held [OF out(2), of i] Cons out(4) by (simp only: held_eq) simp
    moreover have "set (tasks_of ?v) \<subseteq> set (tasks_of w)" using Cons by (auto simp: tasks_of_def)
    then have "worker_fits env mds ?v" using fit by (auto simp: worker_fits_def)
    ultimately have "effect env mds (\<lambda>_. 0) w out v"
      using out same_books_fits [OF out(2)] stop by (simp add: effect_def same_books_def del: sum_list_eq_0_iff)
    then show ?thesis using leave_server_effect out(3) w'
      by (intro exI [of _ "out @ [Disconnect]"]) (simp add: main_change_def)
  qed
qed

lemma receive_effect:
  assumes step: "worker_step env (Main_receives msg) w = Some (Inr w')" and fit: "worker_fits env mds w" "jobs_fit mds msg"
    and inv: "worker_inv w" and ans: "answers (Main_receives msg) w"
  shows "\<exists>out. effect env mds (\<lambda>i. sent_out i msg) w out w' \<and>
    main_change (sends_instances msg) (w_main w) (requests out) (w_main w')"
proof (cases "w_main w")
  case Awaiting_activation
  then have quiet: "\<not> sends_instances msg" using ans by (cases msg) auto
  then have g: "sent_out i msg = 0" for i by (cases msg) auto
  obtain r where r: "process_server_cmd env msg w = Some r"
    using step Awaiting_activation by (auto simp: receive_server_cmd_def)
  show ?thesis
  proof (cases r)
    case (Inl x)
    have "r = Inl (fst x, w)" by (rule process_other_cases [OF quiet r]) (simp_all add: Inl)
    then have "w' = leave_server w"
      using step r Awaiting_activation by (simp add: receive_server_cmd_def main_catch_def split: if_splits)
    then show ?thesis using leave_server_effect [OF effect_refl [OF fit(1)]] Awaiting_activation g
      by (intro exI [of _ "[Disconnect]"]) (simp add: main_change_def)
  next
    case (Inr v)
    have w': "w' = (if msg = S2W_ACTIVATE_WORKER then start_threads v else v)"
      using step r Inr Awaiting_activation by (simp add: receive_server_cmd_def main_catch_def)
    have v: "effect env mds (\<lambda>i. sent_out i msg) w [] v" "w_main v = Awaiting_activation"
      using process_cmd_effect [OF r [unfolded Inr] fit] Awaiting_activation by simp_all
    have "w_threads v = []"
      using process_other_keeps [OF quiet r [unfolded Inr]] inv Awaiting_activation by (simp add: worker_inv_def)
    then have "tasks_of (start_threads v) = tasks_of v" "w_sent (start_threads v) = w_sent v"
      "w_running (start_threads v) = w_running v" "w_formulas (start_threads v) = w_formulas v"
      by (simp_all add: start_threads_def tasks_of_def)
    then have "tasks_of w' = tasks_of v \<and> w_formulas w' = w_formulas v \<and> w_sent w' = w_sent v \<and> w_running w' = w_running v"
      using w' by simp
    then have "effect env mds (\<lambda>i. sent_out i msg) w [] w'"
      using v(1) by (simp add: effect_def held_def worker_fits_def)
    then show ?thesis using v(2) w' Awaiting_activation
      by (intro exI [of _ "[]"]) (simp add: main_change_def start_threads_def)
  qed
next
  case (Receiving n)
  obtain v where v: "process_server_cmd env msg w = Some (Inr v)"
    "w' = (case msg of S2W_SEND_INSTANCES _ \<Rightarrow> v\<lparr> w_main := Looping \<rparr> | _ \<Rightarrow> v)"
    using step Receiving by (auto simp: receive_server_cmd_def main_catch_Inr rbind_Inr_iff)
  note e = process_cmd_effect [OF v(1) fit]
  have "tasks_of w' = tasks_of v \<and> w_formulas w' = w_formulas v \<and> w_sent w' = w_sent v \<and> w_running w' = w_running v"
    using v(2) by (auto simp: tasks_of_def split: s2w.splits)
  then have "effect env mds (\<lambda>i. sent_out i msg) w [] w'" using e by (simp add: effect_def held_def worker_fits_def)
  moreover have "w_main w' = (if sends_instances msg then Looping else Receiving n)"
    using v(2) e Receiving by (cases msg) auto
  ultimately show ?thesis using Receiving by (intro exI [of _ "[]"]) (simp add: main_change_def)
qed (use step in \<open>simp_all add: receive_server_cmd_def\<close>)

section \<open>Any step\<close>

fun message_of :: "'p worker_event \<Rightarrow> s2w option" where
  "message_of (Main_receives msg) = Some msg"
| "message_of _ = None"

definition gains :: "'p worker_event \<Rightarrow> nat \<Rightarrow> nat" where
  "gains ev i = (case message_of ev of None \<Rightarrow> 0 | Some msg \<Rightarrow> sent_out i msg)"

theorem worker_step_effect:
  assumes step: "worker_step env ev w = Some (Inr w')" and fit: "worker_fits env mds w"
    and jobs: "\<And>msg. message_of ev = Some msg \<Longrightarrow> jobs_fit mds msg" and inv: "worker_inv w" and ans: "answers ev w"
  shows "\<exists>out. effect env mds (gains ev) w out w' \<and>
    main_change (\<exists>msg. message_of ev = Some msg \<and> sends_instances msg) (w_main w) (requests out) (w_main w')"
proof (cases ev)
  case (Thread_runs j m)
  then have "effect env mds (\<lambda>_. 0) w [] w' \<and> w_main w' = w_main w" using worker_func_effect step fit by simp
  then show ?thesis using Thread_runs
    by (intro exI [of _ "[]"]) (simp add: gains_def [abs_def] main_change_def split: main_thread.splits)
next
  case (Main_round probe)
  have quiet: "\<not> sends_instances msg" if "probe = Some msg" for msg
    using ans Main_round that by (cases msg) auto
  consider "w_main w = Looping" "main_loop_round env probe w = Some (Inr w')"
    | "w_main w = Joining" "map_option (main_catch w) (main_join env w) = Some (Inr w')"
    using step Main_round by (cases "w_main w") (auto simp: main_catch_Inr)
  then show ?thesis
  proof cases
    case 1
    then show ?thesis using main_loop_round_effect [OF 1(2) fit 1(1) quiet, of False] Main_round
      by (simp add: gains_def [abs_def])
  next
    case 2
    then have "\<not> w_running w" using inv by (simp add: worker_inv_def)
    then show ?thesis using main_join_effect [OF 2(2) fit 2(1), of False] Main_round 2(1)
      by (simp add: gains_def [abs_def])
  qed
next
  case (Main_receives msg)
  then show ?thesis using receive_effect [of env msg w w' mds] step fit jobs inv ans
    by (simp add: gains_def [abs_def])
qed

end
