(* ===== verification/Network_Server.thy ===== *)
theory Network_Server
  imports Network_Worker
begin

text \<open>
  What a round of the server does to the system of \<open>Network\<close>: which messages its handlers
  send, how the counters of the tasks change, and the invariant of the whole system, which
  every step of the server and of a worker keeps.
\<close>

section \<open>Messages the handlers send\<close>

text \<open>
  All handlers but the one of \<open>GET_INSTANCES\<close> send only messages to the manager, activations
  and orders to stop.
\<close>

fun light :: "'p server_message \<Rightarrow> bool" where
  "light (To_worker_req_max c r n) = False"
| "light (Send_instances c r jobs) = False"
| "light _ = True"

definition sends_light :: "'p server \<Rightarrow> 'p server \<Rightarrow> bool" where
  "sends_light st st' \<longleftrightarrow> (\<exists>ms. sent st' = sent st @ ms \<and> list_all light ms)"

lemma sends_light_refl: "sent st' = sent st \<Longrightarrow> sends_light st st'"
  by (simp add: sends_light_def)

lemma sends_light_trans: "sends_light st st1 \<Longrightarrow> sends_light st1 st2 \<Longrightarrow> sends_light st st2"
  by (auto simp: sends_light_def)

lemma sends_light_cong: "sends_light st1 st2 \<Longrightarrow> sent st = sent st1 \<Longrightarrow> sent st' = sent st2 \<Longrightarrow> sends_light st st'"
  by (simp add: sends_light_def)

lemma foldR_light:
  assumes "\<And>x s s'. f x s = Inr s' \<Longrightarrow> sends_light s s'" "foldR f xs st = Inr st'"
  shows "sends_light st st'"
  using assms(2)
proof (induction xs arbitrary: st)
  case Nil
  then show ?case by (simp add: sends_light_refl)
next
  case (Cons x xs)
  then obtain s where s: "f x st = Inr s" "foldR f xs s = Inr st'" by (auto simp: rbind_Inr_iff)
  show ?case by (rule sends_light_trans [OF assms(1) [OF s(1)] Cons.IH [OF s(2)]])
qed

lemma activate_light: "activate_worker_send i r st = Inr st' \<Longrightarrow> sends_light st st'"
  by (auto simp: activate_worker_send_def rbind_Inr_iff sends_light_def)

lemma activations_light: "foldR (\<lambda>i. activate_worker_send (f i) r) xs st = Inr st' \<Longrightarrow> sends_light st st'"
  by (erule foldR_light [rotated]) (rule activate_light)

lemma manager_send_light: "manager_send env fs m st = Inr st' \<Longrightarrow> light m \<Longrightarrow> sends_light st st'"
  using manager_send_sent [of env fs m st st'] by (fastforce simp: sends_light_def list_all_iff)

lemma send_statistic_light: "send_statistic_to_manager env st = Inr st' \<Longrightarrow> sends_light st st'"
proof -
  assume a: "send_statistic_to_manager env st = Inr st'"
  show ?thesis
  proof (cases "statistic_send st")
    case True
    then show ?thesis using a by (simp add: send_statistic_to_manager_def sends_light_refl)
  next
    case False
    then have f: "foldR (\<lambda>t st. if reported st t then send_statistics_send env (metadata t) (statistics t) st else Inr st)
        (available_tasks st) (st\<lparr> statistic_send := True \<rparr>) = Inr st'"
      using a by (simp add: send_statistic_to_manager_def)
    have "sends_light s s'" if "(if reported s t then send_statistics_send env (metadata t) (statistics t) s else Inr s) = Inr s'"
      for t s s'
      using that manager_send_light [of env _ "Statistics_to_manager (metadata t) (statistics t)" s s']
      by (auto simp: send_statistics_send_def sends_light_refl split: if_splits)
    from foldR_light [OF this f] show ?thesis by (rule sends_light_cong) simp_all
  qed
qed

lemma terminate_loop_light: "terminate_loop env i st = Inr st' \<Longrightarrow> sends_light st st'"
proof (induction env i st rule: terminate_loop.induct)
  case (1 env i st)
  from "1.prems" obtain st1 j where
    st1: "foldR (terminate_send i) [0..<comm_size env (work_units st ! i)] st = Inr st1"
    and i: "i < length (work_units st)" and j: "skip_run env (work_units st) (work_units st ! i) (i + 1) = Some j"
    and r: "if j < length (work_units st) then terminate_loop env j st1 = Inr st' else st1 = st'"
    by (subst (asm) terminate_loop.simps) (auto simp: rbind_Inr_iff split: if_splits option.splits)
  have "sends_light st st1"
    by (rule foldR_light [OF _ st1]) (auto simp: terminate_send_def rbind_Inr_iff sends_light_def)
  then show ?case using "1.IH" [OF i st1 j] r sends_light_trans by (auto split: if_splits)
qed

lemma send_termination_light: "send_termination_to_workers env st = Inr st' \<Longrightarrow> sends_light st st'"
proof -
  assume a: "send_termination_to_workers env st = Inr st'"
  show ?thesis
  proof (cases "terminated_workers st")
    case True
    then show ?thesis using a by (simp add: send_termination_to_workers_def sends_light_refl)
  next
    case False
    then have "terminate_loop env 0 (st\<lparr> terminated_workers := True \<rparr>) = Inr st'"
      using a by (auto simp: send_termination_to_workers_def rbind_Inr_iff Let_def)
    from terminate_loop_light [OF this] show ?thesis by (rule sends_light_cong) simp_all
  qed
qed

text \<open>Commands of the manager: the tasks they add, the workers they accept.\<close>

lemma manager_cmd_effect:
  assumes "process_manager_cmd env cmd st = Inr st'"
  shows "sends_light st st' \<and> accepted st \<le> accepted st' \<and>
    (available_tasks st' = available_tasks st \<or>
     (\<exists>data. available_tasks st' = available_tasks st @ [task_info_new (arith env) data]))"
proof (cases cmd)
  case (M2S_REQ_MAX_CMD_LENGTH p)
  then show ?thesis using assms by (auto simp: rbind_Inr_iff sends_light_refl)
next
  case (M2S_ADD_WORKERS c n)
  let ?st = "accept_workers env (nat n) st"
  have r: "?st = st' \<or> foldR (\<lambda>i. activate_worker_send (length (work_units st) + i) 0) [0..<nat n] ?st = Inr st'"
    using assms M2S_ADD_WORKERS by (auto simp: process_m2s_ADD_WORKERS_def rbind_Inr_iff Let_def split: if_splits)
  then have "books st' = books ?st" "sends_light ?st st'"
    using activations_frame [of "\<lambda>i. length (work_units st) + i"] activations_light [of "\<lambda>i. length (work_units st) + i"]
      sends_light_refl [of ?st ?st] by auto
  then have "accepted st' = accepted st + nat n" "available_tasks st' = available_tasks st" "sends_light st st'"
    using books_eqD [of st' ?st] sends_light_cong [of ?st st' st st'] by (simp_all add: accept_workers_def)
  then show ?thesis by simp
next
  case (M2S_ADD_FILE p)
  then obtain data where "add_file_process (command_capacity st) p = Inr data"
    using assms by (auto simp: process_m2s_ADD_FILE_def rbind_Inr_iff)
  let ?st = "st\<lparr> available_tasks := available_tasks st @ [task_info_new (arith env) data],
    task_order := of_nat (length (available_tasks st)) # task_order st \<rparr>"
  have "?st = st' \<or> foldR (\<lambda>i. activate_worker_send i 0) [0..<length (work_units ?st)] ?st = Inr st'"
    using assms M2S_ADD_FILE \<open>_ = Inr data\<close>
    by (auto simp: process_m2s_ADD_FILE_def Let_def split: if_splits)
  then have "books st' = books ?st" "sends_light ?st st'"
    using activations_frame [of "\<lambda>i. i"] activations_light [of "\<lambda>i. i"] sends_light_refl [of ?st ?st] by auto
  then have "accepted st' = accepted st" "sends_light st st'"
    "available_tasks st' = available_tasks st @ [task_info_new (arith env) data]"
    using books_eqD [of st' ?st] sends_light_cong [of ?st st' st st'] by simp_all
  then show ?thesis by auto
next
  case M2S_TERMINATE
  then have t: "send_termination_to_workers env st = Inr st'" using assms by simp
  then show ?thesis using send_termination_light [OF t] books_eqD [OF send_termination_frame [OF t]] by simp
qed (use assms in simp)

section \<open>Commands of a worker\<close>

lemma renewedE:
  assumes "rbind m (renew_request i) = Inr st'"
  obtains st1 reqs where "m = Inr st1" "st' = st1\<lparr> work_unit_requests := reqs \<rparr>"
  using assms by (auto simp: rbind_Inr_iff renew_request_def)

fun bookkeeping :: "'p w2s_command \<Rightarrow> bool" where
  "bookkeeping (W2S_DONE_PROCESSING p) = True"
| "bookkeeping (W2S_GET_INSTANCES p) = True"
| "bookkeeping _ = False"

lemma quiet_cmd_effect:
  assumes run: "process_worker_cmd env i s cmd st = Inr st'" and quiet: "\<not> bookkeeping cmd"
  shows "sends_light st st' \<and> accepted st' = accepted st \<and> available_tasks st' = available_tasks st"
proof (cases cmd)
  case (W2S_REQ_MAX_CMD_LENGTH p)
  obtain st1 reqs where st1: "process_w2s_REQ_MAX_CMD_LENGTH i p st = Inr st1" "st' = st1\<lparr> work_unit_requests := reqs \<rparr>"
    using renewedE [OF run [unfolded W2S_REQ_MAX_CMD_LENGTH process_worker_cmd.simps]] by blast
  then show ?thesis by (auto simp: process_w2s_REQ_MAX_CMD_LENGTH_def rbind_Inr_iff sends_light_refl)
next
  case (W2S_FOUND_SOLUTION p)
  obtain st1 reqs where st1: "process_w2s_FOUND_SOLUTION env i p st = Inr st1" "st' = st1\<lparr> work_unit_requests := reqs \<rparr>"
    using renewedE [OF run [unfolded W2S_FOUND_SOLUTION process_worker_cmd.simps]] by blast
  let ?st = "st\<lparr> solution_found := True \<rparr>"
  obtain v info where v: "(if terminate_after_solution_was_found st then send_termination_to_workers env ?st else Inr ?st) = Inr v"
    "found_solution_send env info v = Inr st1"
    using st1(1) by (auto simp: process_w2s_FOUND_SOLUTION_def rbind_Inr_iff Let_def)
  have 1: "sends_light ?st v \<and> accepted v = accepted ?st \<and> available_tasks v = available_tasks ?st"
    using v(1) send_termination_light [of env ?st v] send_termination_frame [of env ?st v]
      books_eqD [of v "?st\<lparr> terminated_workers := True \<rparr>"]
    by (auto simp: sends_light_refl split: if_splits)
  have "sends_light v st1" "books st1 = books v"
    using manager_send_light [OF v(2) [unfolded found_solution_send_def]]
      manager_send_frame [OF v(2) [unfolded found_solution_send_def]] by simp_all
  then show ?thesis using 1 books_eqD [of st1 v] sends_light_trans [of ?st v st1]
      sends_light_cong [of ?st st1 st st'] st1(2) by simp
next
  case W2S_DISCONNECT
  then have "\<exists>reqs us sizes bufs. let st1 = st\<lparr> work_unit_requests := reqs, work_units := us, transfer_sizes := sizes,
       worker_comm_buffers := bufs, work_units_disconnected := work_units_disconnected st + 1 \<rparr> in
     st' = st1 \<or> (\<exists>st2. send_statistic_to_manager env st1 = Inr st2 \<and> st' = st2\<lparr> running := False \<rparr>)"
    using run by (simp add: process_w2s_DISCONNECT_def rbind_Inr_iff Let_def split: if_splits) blast+
  then obtain reqs us sizes bufs where v:
    "let st1 = st\<lparr> work_unit_requests := reqs, work_units := us, transfer_sizes := sizes,
       worker_comm_buffers := bufs, work_units_disconnected := work_units_disconnected st + 1 \<rparr> in
     st' = st1 \<or> (\<exists>st2. send_statistic_to_manager env st1 = Inr st2 \<and> st' = st2\<lparr> running := False \<rparr>)" by blast
  let ?st = "st\<lparr> work_unit_requests := reqs, work_units := us, transfer_sizes := sizes,
     worker_comm_buffers := bufs, work_units_disconnected := work_units_disconnected st + 1 \<rparr>"
  have "(st' = ?st) \<or> (\<exists>st2. send_statistic_to_manager env ?st = Inr st2 \<and> st' = st2\<lparr> running := False \<rparr>)"
    using v by (simp only: Let_def)
  then show ?thesis
  proof (elim disjE exE conjE)
    fix st2 assume st2: "send_statistic_to_manager env ?st = Inr st2" "st' = st2\<lparr> running := False \<rparr>"
    then show ?thesis using sends_light_cong [OF send_statistic_light [OF st2(1)], of st st']
        books_eqD [OF send_statistic_frame [OF st2(1)]] by simp
  qed (simp add: sends_light_refl)
qed (use run quiet in simp_all)

lemma done_cmd_effect:
  assumes inv: "server_inv env st" and ok: "done_ok st d"
    and run: "process_worker_cmd env i s (W2S_DONE_PROCESSING (len, Some d)) st = Inr st'"
  shows "sends_light st st' \<and> accepted st' = accepted st \<and>
    (\<exists>st1. add_statistics (arith env) (statistics (available_tasks st ! unat (dp_task_id d))) d = Inr st1 \<and>
      available_tasks st' = available_tasks (take_back st d st1))"
proof -
  obtain v reqs where v: "process_w2s_DONE_PROCESSING env i (len, Some d) st = Inr v" "st' = v\<lparr> work_unit_requests := reqs \<rparr>"
    using renewedE [OF run [unfolded process_worker_cmd.simps]] by blast
  obtain cap msg where cap: "vget (worker_comm_buffers st) (int i) = Some cap"
    and msg: "done_processing_process cap (len, Some d) = Inr msg"
    using v(1) by (auto simp: process_w2s_DONE_PROCESSING_def rbind_Inr_iff defined_def split: option.splits)
  have "msg = d" using msg by (simp add: received_Inr)
  have i: "i < length (worker_comm_buffers st)" "cap = worker_comm_buffers st ! i" using cap by (auto split: if_splits)
  have sinv: "schedule_inv st" using inv by (simp add: server_inv_def)
  obtain x where x: "add_statistics (arith env) (statistics (available_tasks st ! unat (dp_task_id d))) d = Inr x"
    "process_w2s_DONE_PROCESSING env i (len, Some d) st = (if all_returned (take_back st d x)
       then rbind (send_statistic_to_manager env (take_back st d x)) (send_termination_to_workers env)
       else Inr (take_back st d x))"
    using done_processing_eq [OF sinv ok i(1), of "(len, Some d)" env] msg i(2) \<open>msg = d\<close> by blast
  let ?t = "take_back st d x"
  have t: "sent ?t = sent st" "accepted ?t = accepted st" by (simp_all add: take_back_def Let_def)
  have "sends_light ?t v \<and> accepted v = accepted ?t \<and> available_tasks v = available_tasks ?t"
  proof (cases "all_returned ?t")
    case True
    then obtain u where u: "send_statistic_to_manager env ?t = Inr u" "send_termination_to_workers env u = Inr v"
      using v(1) x(2) by (auto simp: rbind_Inr_iff)
    then show ?thesis
      using sends_light_trans [OF send_statistic_light [OF u(1)] send_termination_light [OF u(2)]]
        books_eqD [OF send_statistic_frame [OF u(1)]] books_eqD [OF send_termination_frame [OF u(2)]] by simp
  next
    case False
    then show ?thesis using v(1) x(2) by (simp add: sends_light_refl)
  qed
  then show ?thesis using x(1) v(2) t sends_light_cong [of ?t v st st'] by auto
qed

lemma get_cmd_effect:
  assumes inv: "server_inv env st"
    and run: "process_worker_cmd env i s (W2S_GET_INSTANCES (len, Some n)) st = Inr st'"
  shows "\<exists>ms jobs st1. sent st' = sent st @ ms @ [Send_instances (work_units st ! i) s jobs] \<and>
    set ms \<subseteq> range (To_worker_req_max (work_units st ! i) s) \<and> jobs_total jobs \<le> unat n \<and>
    dispatched st jobs st1 \<and> available_tasks st' = available_tasks st1 \<and> accepted st' = accepted st"
proof -
  obtain v reqs where v: "process_w2s_GET_INSTANCES env i s (len, Some n) st = Inr v" "st' = v\<lparr> work_unit_requests := reqs \<rparr>"
    using renewedE [OF run [unfolded process_worker_cmd.simps]] by blast
  obtain rest jobs st1 where l: "(if \<not> solution_found st then get_instances_loop n [] st else Inr (n, [], st)) =
      Inr (rest, jobs, st1)" "send_instances_send env i s jobs st1 = Inr v"
    using v(1) by (auto simp: process_w2s_GET_INSTANCES_def rbind_Inr_iff received_Inr)
  have d: "dispatched st jobs st1 \<and> jobs_total jobs \<le> unat n"
  proof (cases "solution_found st")
    case True
    then show ?thesis using l(1) dispatched_refl [of st] by simp
  next
    case False
    have "schedule_inv st" using inv by (simp add: server_inv_def)
    then show ?thesis using get_instances_loop_correct [of st n "[]"] l(1) False by auto
  qed
  then have same: "sent st1 = sent st" "work_units st1 = work_units st" "accepted st1 = accepted st"
    by (cases st; cases st1; simp add: dispatched_def)+
  obtain a req where "v = reply_sent env i s jobs a req st1" using l(2) by (auto simp: send_instances_Inr)
  then show ?thesis using d same v(2)
    by (intro exI [of _ "case req of None \<Rightarrow> [] | Some k \<Rightarrow> [To_worker_req_max (work_units st ! i) s k]"] exI [of _ jobs] exI [of _ st1])
      (auto simp: reply_sent_def split: option.splits)
qed

end
