(* ===== verification/Network_Correct.thy ===== *)
theory Network_Correct
  imports Network_Server
begin

text \<open>
  The invariant of the system of \<open>Network\<close> and its preservation: every worker is in a state
  it can reach, requests and answers alternate, everything under way belongs to a task of the
  server and fits the file of the task, and no instance of a task is under way that the server
  does not count; as long as all workers work, it counts exactly those.
\<close>

section \<open>The invariant\<close>

fun plain :: "s2w \<Rightarrow> bool" where
  "plain S2W_ACTIVATE_WORKER = True"
| "plain S2W_TERMINATE = True"
| "plain _ = False"

text \<open>
  A worker that waits for an answer has one request under way, or its answer. Before the
  answer there may be an announcement of its size; all other messages are plain.
\<close>

definition answer_coming :: "u32 \<Rightarrow> s2w list \<Rightarrow> bool" where
  "answer_coming n down \<longleftrightarrow> (\<exists>pre len jobs post. down = pre @ S2W_SEND_INSTANCES (len, Some jobs) # post \<and>
     list_all (\<lambda>m. \<not> sends_instances m) pre \<and> list_all plain post \<and> jobs_total jobs \<le> unat n)"

definition protocol :: "main_thread \<Rightarrow> 'p worker_message list \<Rightarrow> s2w list \<Rightarrow> bool" where
  "protocol main up down \<longleftrightarrow> (case main of
     Receiving n \<Rightarrow> requests up = [n] \<and> list_all plain down \<or> requests up = [] \<and> answer_coming n down
   | _ \<Rightarrow> requests up = [] \<and> list_all plain down)"

definition stats_fit :: "'p worker_env \<Rightarrow> 'p task_info list \<Rightarrow> bool" where
  "stats_fit env ts \<longleftrightarrow> (\<forall>t \<in> set ts. 0 < total_num_flips (statistics t) \<longrightarrow>
     (\<exists>F. of_file env (filename (metadata t)) F \<and> stat_num_vars (statistics t) = of_int (num_variables F) \<and>
       stat_num_clauses (statistics t) = of_int (num_clauses F)))"

definition worker_ok ::
    "'p worker_env \<Rightarrow> problem_instance_metadata list \<Rightarrow> 'p worker \<Rightarrow> 'p worker_message list \<Rightarrow> s2w list \<Rightarrow> bool" where
  "worker_ok env mds w up down \<longleftrightarrow> (\<exists>g. worker_run env g w) \<and> worker_fits env mds w \<and>
     (\<forall>m \<in> set up. report_fits env mds m) \<and> (\<forall>m \<in> set down. jobs_fit mds m) \<and> protocol (w_main w) up down"

definition flow :: "nat \<Rightarrow> 'p worker list \<Rightarrow> 'p worker_message list list \<Rightarrow> s2w list list \<Rightarrow> nat" where
  "flow i ws ups downs = (\<Sum>k \<leftarrow> [0..<length ws]. outstanding i (ws ! k) (ups ! k) (downs ! k))"

definition tallied ::
    "'p task_info list \<Rightarrow> 'p worker list \<Rightarrow> 'p worker_message list list \<Rightarrow> s2w list list \<Rightarrow> bool" where
  "tallied ts ws ups downs \<longleftrightarrow> (\<forall>i < length ts. flow i ws ups downs \<le> processing_count (ts ! i) \<and>
     ((\<forall>w \<in> set ws. w_running w) \<longrightarrow> flow i ws ups downs = processing_count (ts ! i)))"

definition system_inv ::
    "'p server_env \<Rightarrow> 'p worker_env \<Rightarrow> 'p server \<Rightarrow> 'p worker list \<Rightarrow> 'p worker_message list list \<Rightarrow> s2w list list \<Rightarrow> bool" where
  "system_inv senv wenv st ws ups downs \<longleftrightarrow> server_inv senv st \<and> stats_fit wenv (available_tasks st) \<and>
     length ws = accepted st \<and> length ups = accepted st \<and> length downs = accepted st \<and>
     (\<forall>k < accepted st. worker_ok wenv (map metadata (available_tasks st)) (ws ! k) (ups ! k) (downs ! k)) \<and>
     tallied (available_tasks st) ws ups downs"

lemma sum_change:
  fixes f f' :: "nat \<Rightarrow> nat"
  assumes "k < n" "\<And>j. j < n \<Longrightarrow> j \<noteq> k \<Longrightarrow> f' j = f j"
  shows "(\<Sum>j \<leftarrow> [0..<n]. f' j) + f k = (\<Sum>j \<leftarrow> [0..<n]. f j) + f' k"
  using assms
proof (induction n)
  case (Suc n)
  show ?case
  proof (cases "k = n")
    case True
    then have "map f' [0..<n] = map f [0..<n]" using Suc.prems(2) by simp
    then show ?thesis using arg_cong [of _ _ sum_list, OF \<open>map f' _ = _\<close>] True by simp
  next
    case False
    then have "(\<Sum>j \<leftarrow> [0..<n]. f' j) + f k = (\<Sum>j \<leftarrow> [0..<n]. f j) + f' k"
      using Suc.IH Suc.prems by simp
    moreover have "f' n = f n" using False Suc.prems(2) [of n] by simp
    ultimately show ?thesis by simp
  qed
qed simp

lemma flow_change:
  assumes "k < length ws" "length ws' = length ws"
    and "\<And>j. j < length ws \<Longrightarrow> j \<noteq> k \<Longrightarrow>
      outstanding i (ws' ! j) (ups' ! j) (downs' ! j) = outstanding i (ws ! j) (ups ! j) (downs ! j)"
  shows "flow i ws' ups' downs' + outstanding i (ws ! k) (ups ! k) (downs ! k) =
    flow i ws ups downs + outstanding i (ws' ! k) (ups' ! k) (downs' ! k)"
  unfolding flow_def assms(2) by (rule sum_change [OF assms(1)]) (rule assms(3))

lemma outstanding_flow:
  assumes "k < length ws"
  shows "outstanding i (ws ! k) (ups ! k) (downs ! k) \<le> flow i ws ups downs"
proof -
  have "outstanding i (ws ! k) (ups ! k) (downs ! k) \<in>
      set (map (\<lambda>k. outstanding i (ws ! k) (ups ! k) (downs ! k)) [0..<length ws])" using assms by force
  then show ?thesis unfolding flow_def by (rule member_le_sum_list) simp
qed

section \<open>More tasks, more messages\<close>

lemma fits_more:
  assumes "\<And>i. i < length mds \<Longrightarrow> i < length mds' \<and> mds' ! i = mds ! i"
  shows "worker_fits env mds w \<Longrightarrow> worker_fits env mds' w"
    and "report_fits env mds m \<Longrightarrow> report_fits env mds' m"
    and "jobs_fit mds msg \<Longrightarrow> jobs_fit mds' msg"
proof -
  show "worker_fits env mds w \<Longrightarrow> worker_fits env mds' w"
    using assms by (auto simp: worker_fits_def task_fits_def)
  have "set mds \<subseteq> set mds'"
  proof
    fix x assume "x \<in> set mds"
    then obtain i where i: "i < length mds" "mds ! i = x" by (auto simp: in_set_conv_nth)
    then show "x \<in> set mds'" using assms [OF i(1)] nth_mem [of i mds'] by simp
  qed
  then show "report_fits env mds m \<Longrightarrow> report_fits env mds' m" using assms by (cases m) auto
  show "jobs_fit mds msg \<Longrightarrow> jobs_fit mds' msg"
    using assms by (induction mds msg rule: jobs_fit.induct) auto
qed

lemma plain_simps:
  "plain m \<Longrightarrow> \<not> sends_instances m" "plain m \<Longrightarrow> sent_out i m = 0" "plain m \<Longrightarrow> jobs_fit mds m"
  by (cases m; simp)+

lemma plain_list:
  assumes "list_all plain ps"
  shows "sum_list (map (sent_out i) ps) = 0" "\<forall>m \<in> set ps. jobs_fit mds m" "list_all (\<lambda>m. \<not> sends_instances m) ps"
  using assms by (induction ps) (auto simp: plain_simps)

lemma answer_plain: "answer_coming n down \<Longrightarrow> list_all plain ps \<Longrightarrow> answer_coming n (down @ ps)"
  unfolding answer_coming_def
proof (elim exE conjE)
  fix pre len jobs post
  assume "list_all plain ps" "down = pre @ S2W_SEND_INSTANCES (len, Some jobs) # post"
    "list_all (\<lambda>m. \<not> sends_instances m) pre" "list_all plain post" "jobs_total jobs \<le> unat n"
  then show "\<exists>pre len jobs post. down @ ps = pre @ S2W_SEND_INSTANCES (len, Some jobs) # post \<and>
      list_all (\<lambda>m. \<not> sends_instances m) pre \<and> list_all plain post \<and> jobs_total jobs \<le> unat n"
    by (intro exI [of _ pre] exI [of _ len] exI [of _ jobs] exI [of _ "post @ ps"]) simp
qed

lemma protocol_plain: "protocol main up down \<Longrightarrow> list_all plain ps \<Longrightarrow> protocol main up (down @ ps)"
  using answer_plain by (cases main) (auto simp: protocol_def)

lemma worker_ok_plain:
  assumes "worker_ok env mds w up down" "list_all plain ps"
    and "\<And>i. i < length mds \<Longrightarrow> i < length mds' \<and> mds' ! i = mds ! i"
  shows "worker_ok env mds' w up (down @ ps)"
  using assms(1) fits_more(1,2) [OF assms(3), where env = env] fits_more(3) [OF assms(3)]
    plain_list(2) [OF assms(2), of mds'] protocol_plain [OF _ assms(2), of "w_main w" up down]
  by (auto simp: worker_ok_def)

lemma outstanding_plain: "list_all plain ps \<Longrightarrow> outstanding i w up (down @ ps) = outstanding i w up down"
  unfolding outstanding_def map_append sum_list_append by (simp only: plain_list(1))

text \<open>Nothing of a task that does not exist is under way.\<close>

lemma outstanding_unknown:
  assumes "worker_ok env mds w up down" "length mds \<le> i"
  shows "outstanding i w up down = 0"
proof -
  have "sent_out i m = 0" if "m \<in> set down" for m
  proof -
    have "jobs_fit mds m" using assms(1) that by (simp add: worker_ok_def)
    then show ?thesis using assms(2)
      by (induction mds m rule: jobs_fit.induct) (auto simp: jobs_of_def jobs_total_def filter_empty_conv)
  qed
  moreover have "reported_back i m = 0" if "m \<in> set up" for m
  proof -
    have "report_fits env mds m" using assms(1) that by (simp add: worker_ok_def)
    then show ?thesis using assms(2) by (cases m) auto
  qed
  moreover have "held i w = 0"
    using assms by (auto simp: held_def worker_ok_def worker_fits_def task_fits_def filter_empty_conv)
  ultimately show ?thesis by (simp add: outstanding_def)
qed

section \<open>Commands of the manager\<close>

lemma deliver_nth [simp]:
  "length (deliver env ms chans) = length chans"
  "k < length chans \<Longrightarrow> deliver env ms chans ! k = chans ! k @ concat (map (delivered env (accept env k)) ms)"
  by (simp_all add: deliver_def)

lemma delivered_light: "list_all light ms \<Longrightarrow> list_all plain (concat (map (delivered env c) ms))"
proof (induction ms)
  case (Cons m ms)
  then show ?case by (cases m) auto
qed simp

lemma worker_init_ok: "list_all plain ps \<Longrightarrow> worker_ok env mds worker_init [] ps"
  using worker_run.run_init plain_list(2) [of ps mds]
  by (auto simp: worker_ok_def worker_fits_def tasks_of_def protocol_def worker_init_def)

lemma worker_init_outstanding: "list_all plain ps \<Longrightarrow> outstanding i worker_init [] ps = 0"
  using outstanding_plain [of ps i worker_init "[]" "[]"]
  by (simp add: outstanding_def held_def tasks_of_def worker_init_def)

lemma flow_extended:
  assumes "length ups = length ws" "length downs' = length ws + n"
    and old: "\<And>k. k < length ws \<Longrightarrow> \<exists>ps. list_all plain ps \<and> downs' ! k = downs ! k @ ps"
    and new: "\<And>k. length ws \<le> k \<Longrightarrow> k < length ws + n \<Longrightarrow> list_all plain (downs' ! k)"
  shows "flow i (ws @ replicate n worker_init) (ups @ replicate n []) downs' = flow i ws ups downs"
proof -
  let ?ws = "ws @ replicate n worker_init" and ?ups = "ups @ replicate n []"
  have "outstanding i (?ws ! k) (?ups ! k) (downs' ! k) = outstanding i (ws ! k) (ups ! k) (downs ! k)" if "k < length ws" for k
    using old [OF that] outstanding_plain that assms(1) by (auto simp: nth_append)
  then have 1: "map (\<lambda>k. outstanding i (?ws ! k) (?ups ! k) (downs' ! k)) [0..<length ws] =
      map (\<lambda>k. outstanding i (ws ! k) (ups ! k) (downs ! k)) [0..<length ws]" by simp
  have "outstanding i (?ws ! k) (?ups ! k) (downs' ! k) = 0" if "length ws \<le> k" "k < length ws + n" for k
  proof -
    have "?ws ! k = worker_init" "?ups ! k = []" using that assms(1) by (simp_all add: nth_append)
    then show ?thesis using worker_init_outstanding [OF new [OF that]] by simp
  qed
  then have 2: "map (\<lambda>k. outstanding i (?ws ! k) (?ups ! k) (downs' ! k)) [length ws..<length ws + n] = replicate n 0"
    by (intro nth_equalityI) (simp_all del: nth_append_length_plus)
  have split: "[0..<length ws + n] = [0..<length ws] @ [length ws..<length ws + n]"
    using upt_add_eq_append [of 0 "length ws" n] by simp
  show ?thesis unfolding flow_def length_append length_replicate split map_append sum_list_append 1 2
    by (simp add: sum_list_replicate)
qed

lemma manager_keeps:
  assumes inv: "system_inv senv wenv st ws ups downs" and sinv: "server_inv senv st'"
    and acc: "accepted st' = accepted st + n" and len: "length downs' = accepted st'"
    and ts: "available_tasks st' = available_tasks st \<or>
      (\<exists>ops data. available_tasks st' = available_tasks st @ [task_info_new ops data])"
    and old: "\<And>k. k < accepted st \<Longrightarrow> \<exists>ps. list_all plain ps \<and> downs' ! k = downs ! k @ ps"
    and new: "\<And>k. accepted st \<le> k \<Longrightarrow> k < accepted st' \<Longrightarrow> list_all plain (downs' ! k)"
  shows "system_inv senv wenv st' (ws @ replicate n worker_init) (ups @ replicate n []) downs'"
proof -
  let ?ts = "available_tasks st" and ?ts' = "available_tasks st'"
  let ?mds = "map metadata ?ts" and ?mds' = "map metadata ?ts'"
  let ?ws = "ws @ replicate n worker_init" and ?ups = "ups @ replicate n []"
  have lens: "length ws = accepted st" "length ups = accepted st" "length downs = accepted st"
    using inv by (simp_all add: system_inv_def)
  have more: "i < length ?mds \<Longrightarrow> i < length ?mds' \<and> ?mds' ! i = ?mds ! i" for i
    using ts by (auto simp: nth_append)
  have ok: "worker_ok wenv ?mds (ws ! k) (ups ! k) (downs ! k)" if "k < accepted st" for k
    using inv that by (simp add: system_inv_def)
  have "worker_ok wenv ?mds' (?ws ! k) (?ups ! k) (downs' ! k)" if k: "k < accepted st'" for k
  proof (cases "k < accepted st")
    case True
    then show ?thesis using old [OF True] worker_ok_plain [OF ok [OF True] _ more] lens by (auto simp: nth_append)
  next
    case False
    then show ?thesis using worker_init_ok [OF new [of k]] k lens acc by (simp add: nth_append)
  qed
  moreover have "stats_fit wenv ?ts'"
  proof -
    have "stats_fit wenv ?ts" using inv by (simp add: system_inv_def)
    then show ?thesis using ts by (auto simp: stats_fit_def task_info_new_def statistics_default_def)
  qed
  moreover have "tallied ?ts' ?ws ?ups downs'"
    unfolding tallied_def
  proof (intro allI impI)
    fix i assume i: "i < length ?ts'"
    have fl: "flow i ?ws ?ups downs' = flow i ws ups downs"
      by (rule flow_extended) (use lens len acc old new in simp_all)
    show "flow i ?ws ?ups downs' \<le> processing_count (?ts' ! i) \<and>
        ((\<forall>w \<in> set ?ws. w_running w) \<longrightarrow> flow i ?ws ?ups downs' = processing_count (?ts' ! i))"
    proof (cases "i < length ?ts")
      case True
      then have "?ts' ! i = ?ts ! i" using ts by (auto simp: nth_append)
      then show ?thesis using inv True fl by (simp add: system_inv_def tallied_def)
    next
      case False
      then have "processing_count (?ts' ! i) = 0"
        using ts i by (auto simp: nth_append less_Suc_eq task_info_new_def processing_count_def)
      moreover have "flow i ws ups downs = 0"
        unfolding flow_def using outstanding_unknown [OF ok] lens False by (simp add: sum_list_eq_0_iff)
      ultimately show ?thesis using fl by simp
    qed
  qed
  ultimately show ?thesis using sinv lens acc len by (simp add: system_inv_def)
qed

section \<open>Commands of a worker\<close>

lemma command_keeps:
  assumes inv: "system_inv senv wenv st ws ups downs" and sinv: "server_inv senv st'"
    and k: "k < accepted st" "ups ! k = m # rest" and acc: "accepted st' = accepted st" and len: "length downs' = accepted st"
    and mds: "map metadata (available_tasks st') = map metadata (available_tasks st)" and stats: "stats_fit wenv (available_tasks st')"
    and others: "\<And>j. j < accepted st \<Longrightarrow> j \<noteq> k \<Longrightarrow> \<exists>ps. list_all plain ps \<and> downs' ! j = downs ! j @ ps"
    and own: "downs' ! k = downs ! k @ ps" "\<forall>m \<in> set ps. jobs_fit (map metadata (available_tasks st)) m"
      "protocol (w_main (ws ! k)) rest (downs' ! k)"
    and counts: "\<And>i. i < length (available_tasks st) \<Longrightarrow> processing_count (available_tasks st' ! i) + reported_back i m =
      processing_count (available_tasks st ! i) + sum_list (map (sent_out i) ps)"
  shows "system_inv senv wenv st' ws (ups[k := rest]) downs'"
proof -
  let ?mds = "map metadata (available_tasks st)" and ?ups = "ups[k := rest]"
  have lens: "length ws = accepted st" "length ups = accepted st" "length downs = accepted st"
    using inv by (simp_all add: system_inv_def)
  have ok: "worker_ok wenv ?mds (ws ! j) (ups ! j) (downs ! j)" if "j < accepted st" for j
    using inv that by (simp add: system_inv_def)
  have "worker_ok wenv ?mds (ws ! j) (?ups ! j) (downs' ! j)" if j: "j < accepted st" for j
  proof (cases "j = k")
    case True
    then show ?thesis using ok [OF k(1)] own lens k by (auto simp: worker_ok_def)
  next
    case False
    then show ?thesis using others [OF j False] worker_ok_plain [OF ok [OF j]] by auto
  qed
  moreover have "tallied (available_tasks st') ws ?ups downs'"
    unfolding tallied_def
  proof (intro allI impI)
    fix i assume i: "i < length (available_tasks st')"
    then have i': "i < length (available_tasks st)" using arg_cong [OF mds, of length] by simp
    have same: "outstanding i (ws ! j) (?ups ! j) (downs' ! j) = outstanding i (ws ! j) (ups ! j) (downs ! j)"
      if "j < length ws" "j \<noteq> k" for j
      using others [of j] that lens outstanding_plain by auto
    have "flow i ws ?ups downs' + outstanding i (ws ! k) (ups ! k) (downs ! k) =
        flow i ws ups downs + outstanding i (ws ! k) (?ups ! k) (downs' ! k)"
      by (rule flow_change) (use k lens same in simp_all)
    then have "flow i ws ?ups downs' + reported_back i m = flow i ws ups downs + sum_list (map (sent_out i) ps)"
      using k lens own(1) by (simp add: outstanding_def)
    moreover have "flow i ws ups downs \<le> processing_count (available_tasks st ! i)"
      "(\<forall>w \<in> set ws. w_running w) \<longrightarrow> flow i ws ups downs = processing_count (available_tasks st ! i)"
      using inv i' by (simp_all add: system_inv_def tallied_def)
    ultimately show "flow i ws ?ups downs' \<le> processing_count (available_tasks st' ! i) \<and>
        ((\<forall>w \<in> set ws. w_running w) \<longrightarrow> flow i ws ?ups downs' = processing_count (available_tasks st' ! i))"
      using counts [OF i'] by auto
  qed
  ultimately show ?thesis using sinv lens acc len mds stats by (simp add: system_inv_def)
qed

text \<open>A report that arrives is one the server can take.\<close>

lemma report_done_ok:
  assumes inv: "system_inv senv wenv st ws ups downs" and k: "k < accepted st" "ups ! k = Done_processing d # rest"
  shows "done_ok st d" "fits wenv (filename (metadata (available_tasks st ! unat (dp_task_id d)))) d"
proof -
  let ?i = "unat (dp_task_id d)" and ?ts = "available_tasks st"
  have "worker_ok wenv (map metadata ?ts) (ws ! k) (ups ! k) (downs ! k)" using inv k(1) by (simp add: system_inv_def)
  then have "\<forall>m \<in> set (ups ! k). report_fits wenv (map metadata ?ts) m" unfolding worker_ok_def by blast
  then have rep: "report_fits wenv (map metadata ?ts) (Done_processing d)" using k(2) by (metis list.set_intros(1))
  then have i: "?i < length ?ts" by simp
  with rep have fit: "fits wenv (filename (metadata (?ts ! ?i))) d" by simp
  then show "fits wenv (filename (metadata (?ts ! ?i))) d" by simp
  have "unat (dp_instances_processed d) \<le> outstanding ?i (ws ! k) (ups ! k) (downs ! k)"
    using k(2) by (simp add: outstanding_def)
  also have "\<dots> \<le> flow ?i ws ups downs" by (rule outstanding_flow) (use inv k in \<open>simp add: system_inv_def\<close>)
  also have "\<dots> \<le> processing_count (?ts ! ?i)" using inv i by (simp add: system_inv_def tallied_def)
  finally have le: "unat (dp_instances_processed d) \<le> processing_count (?ts ! ?i)" .
  have "stat_num_vars (statistics (?ts ! ?i)) = dp_num_vars d \<and> stat_num_clauses (statistics (?ts ! ?i)) = dp_num_clauses d"
    if pos: "0 < dp_num_flips_done d" "0 < total_num_flips (statistics (?ts ! ?i))"
  proof -
    have "stats_fit wenv ?ts" using inv by (simp add: system_inv_def)
    then obtain F where F: "of_file wenv (filename (metadata (?ts ! ?i))) F"
      "stat_num_vars (statistics (?ts ! ?i)) = of_int (num_variables F)" "stat_num_clauses (statistics (?ts ! ?i)) = of_int (num_clauses F)"
      using pos(2) i by (force simp: stats_fit_def)
    obtain G where G: "of_file wenv (filename (metadata (?ts ! ?i))) G"
      "dp_num_vars d = of_int (num_variables G)" "dp_num_clauses d = of_int (num_clauses G)"
      using fit pos(1) by (auto simp: fits_def)
    show ?thesis using of_file_same [OF F(1) G(1)] F(2,3) G(2,3) by (simp add: num_clauses_def)
  qed
  then show "done_ok st d" using i le by (simp add: done_ok_def)
qed

lemma add_statistics_fit:
  assumes "add_statistics ops s d = Inr s'"
  shows "if 0 < dp_num_flips_done d then stat_num_vars s' = dp_num_vars d \<and> stat_num_clauses s' = dp_num_clauses d
    else stat_num_vars s' = stat_num_vars s \<and> stat_num_clauses s' = stat_num_clauses s \<and>
      total_num_flips s' = total_num_flips s"
    and "num_instances_started s' = num_instances_started s + ucast (dp_instances_processed d)"
  using assms
  by (auto simp: add_statistics_def check_formula_def merge_report_def Let_def require_def word_gt_0 split: if_splits)

text \<open>All but three kinds of messages carry no bookkeeping; a report is taken off the counters.\<close>

lemma system_inv_requests:
  "system_inv senv wenv (st\<lparr> work_unit_requests := (work_unit_requests st)[i := b] \<rparr>) ws ups downs =
   system_inv senv wenv st ws ups downs"
  by (simp add: system_inv_def requests_inv)

lemma protocol_requests: "requests up = requests up' \<Longrightarrow> protocol main up down = protocol main up' down"
  by (simp add: protocol_def split: main_thread.splits)

lemma light_command_keeps:
  assumes inv: "system_inv senv wenv st ws ups downs" and sinv: "server_inv senv st'"
    and k: "k < accepted st" "ups ! k = m # rest" "requests [m] = []"
    and ms: "sent st' = sent st @ ms" "list_all light ms" and acc: "accepted st' = accepted st"
    and mds: "map metadata (available_tasks st') = map metadata (available_tasks st)" "stats_fit wenv (available_tasks st')"
    and counts: "\<And>i. i < length (available_tasks st) \<Longrightarrow>
      processing_count (available_tasks st' ! i) + reported_back i m = processing_count (available_tasks st ! i)"
  shows "system_inv senv wenv st' ws (ups[k := rest]) (deliver senv ms downs)"
proof -
  have len: "length downs = accepted st" using inv by (simp add: system_inv_def)
  let ?ps = "concat (map (delivered senv (accept senv k)) ms)"
  have plain: "list_all plain ?ps" by (rule delivered_light [OF ms(2)])
  have "protocol (w_main (ws ! k)) (m # rest) (downs ! k)"
    using inv k(1) unfolding system_inv_def worker_ok_def k(2) [symmetric] by blast
  moreover have "requests (m # rest) = requests rest" using k(3) by (cases m) simp_all
  ultimately have "protocol (w_main (ws ! k)) rest (downs ! k)"
    using protocol_requests [of "m # rest" rest "w_main (ws ! k)" "downs ! k"] by simp
  then have p: "protocol (w_main (ws ! k)) rest (deliver senv ms downs ! k)"
    using protocol_plain [OF _ plain] k(1) len by simp
  have others: "\<exists>ps. list_all plain ps \<and> deliver senv ms downs ! j = downs ! j @ ps" if "j < accepted st" for j
    using delivered_light [OF ms(2)] that len by simp
  show ?thesis
    by (rule command_keeps [OF inv sinv k(1,2) acc _ mds others _ plain_list(2) [OF plain] p])
      (use len k(1) counts plain_list(1) [OF plain] in simp_all)
qed

lemma quiet_keeps:
  assumes inv: "system_inv senv wenv st ws ups downs" and k: "k < accepted st" "ups ! k = m # rest"
    and quiet: "\<not> bookkeeping (arriving wenv m)"
    and run: "process_worker_cmd senv i s (arriving wenv m) st = Inr st'" and ms: "sent st' = sent st @ ms"
  shows "system_inv senv wenv st' ws (ups[k := rest]) (deliver senv ms downs) \<and> accepted st' = accepted st \<and>
    map metadata (available_tasks st') = map metadata (available_tasks st) \<and> list_all light ms"
proof -
  have e: "sends_light st st'" "accepted st' = accepted st" "available_tasks st' = available_tasks st"
    using quiet_cmd_effect [OF run quiet] by simp_all
  have l: "list_all light ms" using e(1) ms by (auto simp: sends_light_def)
  have m: "requests [m] = []" "reported_back j m = 0" for j using quiet by (cases m; simp)+
  have sinv: "server_inv senv st'"
    by (rule worker_cmd_inv [OF _ _ run]) (use inv quiet in \<open>auto simp: system_inv_def\<close>)
  show ?thesis
    using light_command_keeps [OF inv sinv k m(1) ms l e(2)] e inv m(2) l by (simp add: system_inv_def)
qed

lemma done_keeps:
  assumes inv: "system_inv senv wenv st ws ups downs" and k: "k < accepted st" "ups ! k = Done_processing d # rest"
    and run: "process_worker_cmd senv i s (arriving wenv (Done_processing d)) st = Inr st'" and ms: "sent st' = sent st @ ms"
  shows "system_inv senv wenv st' ws (ups[k := rest]) (deliver senv ms downs) \<and> accepted st' = accepted st \<and>
    map metadata (available_tasks st') = map metadata (available_tasks st) \<and> list_all light ms"
proof -
  let ?i = "unat (dp_task_id d)" and ?ts = "available_tasks st"
  note ok = report_done_ok [OF inv k]
  have i: "?i < length ?ts" and le: "unat (dp_instances_processed d) \<le> processing_count (?ts ! ?i)"
    using ok(1) by (simp_all add: done_ok_def)
  have si: "server_inv senv st" using inv by (simp add: system_inv_def)
  obtain s1 where e: "sends_light st st'" "accepted st' = accepted st"
    "add_statistics (arith senv) (statistics (?ts ! ?i)) d = Inr s1" "available_tasks st' = available_tasks (take_back st d s1)"
    using done_cmd_effect [OF si ok(1) run [unfolded arriving.simps]] by blast
  have l: "list_all light ms" using e(1) ms by (auto simp: sends_light_def)
  have ts: "available_tasks st' = ?ts[?i := (?ts ! ?i)\<lparr> statistics := s1,
      num_currently_processing := num_currently_processing (?ts ! ?i) - dp_instances_processed d \<rparr>]"
    using e(4) by (simp add: take_back_def Let_def)
  have mds: "map metadata (available_tasks st') = map metadata ?ts"
    unfolding ts by (simp add: map_update) (metis i length_map list_update_id nth_map)
  have "stats_fit wenv (available_tasks st')"
    unfolding stats_fit_def
  proof (intro ballI impI)
    fix t assume "t \<in> set (available_tasks st')" and pos: "0 < total_num_flips (statistics t)"
    then consider "t \<in> set ?ts" | "metadata t = metadata (?ts ! ?i)" "statistics t = s1"
      unfolding ts by (auto dest: set_update_subset_insert [THEN subsetD])
    then show "\<exists>F. of_file wenv (filename (metadata t)) F \<and> stat_num_vars (statistics t) = of_int (num_variables F) \<and>
        stat_num_clauses (statistics t) = of_int (num_clauses F)"
    proof cases
      case 1
      then show ?thesis using inv pos by (simp add: system_inv_def stats_fit_def)
    next
      case 2
      show ?thesis
      proof (cases "0 < dp_num_flips_done d")
        case True
        then show ?thesis using 2 ok(2) add_statistics_fit(1) [OF e(3)] by (simp add: fits_def)
      next
        case False
        have "?ts ! ?i \<in> set ?ts" using i by simp
        moreover have "stats_fit wenv ?ts" using inv by (simp add: system_inv_def)
        ultimately show ?thesis using 2 pos False add_statistics_fit(1) [OF e(3)] by (simp add: stats_fit_def)
      qed
    qed
  qed
  moreover have "processing_count (available_tasks st' ! j) + reported_back j (Done_processing d) = processing_count (?ts ! j)"
    if "j < length ?ts" for j
    using le that by (cases "j = ?i") (auto simp: ts processing_count_def unat_sub word_le_nat_alt)
  moreover have "server_inv senv st'"
    by (rule worker_cmd_inv [OF si _ run]) (use ok(1) in simp)
  ultimately show ?thesis using light_command_keeps [OF inv _ k _ ms l e(2) mds] l e(2) mds by simp
qed

text \<open>A request is answered to the worker that made it, and to no other.\<close>

lemma answer_delivered:
  assumes "set ms \<subseteq> range (To_worker_req_max c 0)"
  shows "concat (map (delivered env c') (ms @ [Send_instances c 0 jobs])) =
      (if c' = c then concat (map (delivered env c) ms) @ [S2W_SEND_INSTANCES (int (encoded_length env (serialize_jobs jobs)), Some jobs)] else [])"
    and "list_all (\<lambda>m. \<not> sends_instances m) (concat (map (delivered env c) ms))"
    and "\<forall>m \<in> set (concat (map (delivered env c) ms)). jobs_fit mds m"
    and "sum_list (map (sent_out i) (concat (map (delivered env c) ms))) = 0"
  using assms by (induction ms) auto

lemma request_keeps:
  assumes inj: "inj (accept senv)" and inv: "system_inv senv wenv st ws ups downs"
    and k: "k < accepted st" "ups ! k = Get_instances n # rest" "work_units st ! i = accept senv k"
    and run: "process_worker_cmd senv i 0 (arriving wenv (Get_instances n)) st = Inr st'" and ms: "sent st' = sent st @ ms"
  shows "system_inv senv wenv st' ws (ups[k := rest]) (deliver senv ms downs) \<and> accepted st' = accepted st \<and>
    map metadata (available_tasks st') = map metadata (available_tasks st) \<and>
    (\<forall>j. j \<noteq> k \<longrightarrow> concat (map (delivered senv (accept senv j)) ms) = [])"
proof -
  let ?ts = "available_tasks st" and ?c = "accept senv k"
  have si: "server_inv senv st" and len: "length downs = accepted st" using inv by (simp_all add: system_inv_def)
  obtain ms0 jobs st1 where e: "ms = ms0 @ [Send_instances ?c 0 jobs]" "set ms0 \<subseteq> range (To_worker_req_max ?c 0)"
    "jobs_total jobs \<le> unat n" "dispatched st jobs st1" "available_tasks st' = available_tasks st1" "accepted st' = accepted st"
    using get_cmd_effect [OF si run [unfolded arriving.simps]] ms k(3) by auto
  note d = answer_delivered [OF e(2), where env = senv]
  let ?pre = "concat (map (delivered senv ?c) ms0)"
  define a where "a = S2W_SEND_INSTANCES (int (encoded_length senv (serialize_jobs jobs)), Some jobs)"
  have own: "concat (map (delivered senv ?c) ms) = ?pre @ [a]" using d(1) [of ?c jobs] e(1) by (simp add: a_def)
  have others: "concat (map (delivered senv (accept senv j)) ms) = []" if "j \<noteq> k" for j
    using d(1) [of "accept senv j" jobs] e(1) that injD [OF inj, of j k] by auto
  have ds: "length (available_tasks st1) = length ?ts" "j < length ?ts \<Longrightarrow> statistics (available_tasks st1 ! j) = statistics (?ts ! j)"
    "j < length ?ts \<Longrightarrow> metadata (available_tasks st1 ! j) = metadata (?ts ! j)"
    "j < length ?ts \<Longrightarrow> processing_count (available_tasks st1 ! j) = processing_count (?ts ! j) + jobs_of j jobs"
    "\<forall>x \<in> set jobs. unat (job_task_id x) < length ?ts \<and> job_metadata x = metadata (?ts ! unat (job_task_id x))" for j
    using e(4) by (simp_all add: dispatched_def)
  have mds: "map metadata (available_tasks st') = map metadata ?ts"
    by (intro nth_equalityI) (simp_all add: e(5) ds)
  have stats: "stats_fit wenv (available_tasks st')"
  proof -
    have "\<exists>u \<in> set ?ts. statistics u = statistics t \<and> metadata u = metadata t" if "t \<in> set (available_tasks st1)" for t
      using that ds(1-3) by (metis in_set_conv_nth)
    then show ?thesis using inv unfolding system_inv_def stats_fit_def e(5) by metis
  qed
  have "protocol (w_main (ws ! k)) (Get_instances n # rest) (downs ! k)"
    using inv k(1) unfolding system_inv_def worker_ok_def k(2) [symmetric] by blast
  then have p: "w_main (ws ! k) = Receiving n" "requests rest = []" "list_all plain (downs ! k)"
    by (auto simp: protocol_def split: main_thread.splits)
  have "answer_coming n (downs ! k @ ?pre @ [a])"
    unfolding answer_coming_def a_def using d(2) plain_list(3) [OF p(3)] e(3)
    by (intro exI [of _ "downs ! k @ ?pre"] exI [of _ "int (encoded_length senv (serialize_jobs jobs))"] exI [of _ jobs] exI [of _ "[]"]) simp
  then have "protocol (w_main (ws ! k)) rest (deliver senv ms downs ! k)"
    using p k(1) len own by (simp add: protocol_def)
  moreover have "\<forall>m \<in> set (?pre @ [a]). jobs_fit (map metadata ?ts) m" using d(3) ds(5) by (simp add: a_def)
  moreover have "processing_count (available_tasks st' ! j) + reported_back j (Get_instances n) =
      processing_count (?ts ! j) + sum_list (map (sent_out j) (?pre @ [a]))" if "j < length ?ts" for j
    unfolding e(5) ds(4) [OF that] map_append sum_list_append d(4) by (simp add: a_def)
  moreover have "server_inv senv st'" by (rule worker_cmd_inv [OF si _ run]) simp
  ultimately have "system_inv senv wenv st' ws (ups[k := rest]) (deliver senv ms downs)"
    using command_keeps [OF inv _ k(1,2) e(6) _ mds stats, of "deliver senv ms downs" "?pre @ [a]"] others len k(1) own
    by simp
  then show ?thesis using others e(6) mds by simp
qed

text \<open>Any message of a worker.\<close>

lemma message_keeps:
  assumes inj: "inj (accept senv)" and inv: "system_inv senv wenv st ws ups downs"
    and k: "k < accepted st" "ups ! k = m # rest" "work_units st ! i = accept senv k"
    and run: "process_worker_cmd senv i 0 (arriving wenv m) st = Inr st'"
  shows "\<exists>ms. sent st' = sent st @ ms \<and> system_inv senv wenv st' ws (ups[k := rest]) (deliver senv ms downs) \<and>
    accepted st' = accepted st \<and> map metadata (available_tasks st') = map metadata (available_tasks st) \<and>
    (\<forall>j \<ge> accepted st. list_all plain (concat (map (delivered senv (accept senv j)) ms)))"
proof -
  have si: "server_inv senv st" using inv by (simp add: system_inv_def)
  consider (quiet) "\<not> bookkeeping (arriving wenv m)" | (done_p) d where "m = Done_processing d" | (get) n where "m = Get_instances n"
    by (cases m) auto
  then show ?thesis
  proof cases
    case quiet
    obtain ms where ms: "sent st' = sent st @ ms" using quiet_cmd_effect [OF run quiet] by (auto simp: sends_light_def)
    then show ?thesis using quiet_keeps [OF inv k(1,2) quiet run ms] delivered_light by blast
  next
    case done_p
    note k' = k(1) k(2) [unfolded done_p] and run' = run [unfolded done_p]
    obtain ms where ms: "sent st' = sent st @ ms"
      using done_cmd_effect [OF si report_done_ok(1) [OF inv k'] run' [unfolded arriving.simps]] by (auto simp: sends_light_def)
    then show ?thesis using done_keeps [OF inv k' run' ms] delivered_light by blast
  next
    case get
    note k' = k(1) k(2) [unfolded get] and run' = run [unfolded get]
    obtain ms where ms: "sent st' = sent st @ ms" using get_cmd_effect [OF si run' [unfolded arriving.simps]] by auto
    note r = request_keeps [OF inj inv k' k(3) run' ms]
    have "list_all plain (concat (map (delivered senv (accept senv j)) ms))" if "accepted st \<le> j" for j
    proof -
      have "j \<noteq> k" using k(1) that by simp
      then have "concat (map (delivered senv (accept senv j)) ms) = []" using r by blast
      then show ?thesis by (simp only: list_all_iff) simp
    qed
    then show ?thesis using r ms by blast
  qed
qed

section \<open>A round of the server\<close>

definition net_inv :: "'p server_env \<Rightarrow> 'p worker_env \<Rightarrow> 'p network \<Rightarrow> bool" where
  "net_inv senv wenv net \<longleftrightarrow>
     system_inv senv wenv (net_server net) (net_workers net) (to_server net) (to_worker net)"

lemma probe_keeps:
  assumes inj: "inj (accept senv)" and inv: "net_inv senv wenv net"
    and takes: "server_takes senv wenv src net = Some (probe, chans)" and run: "worker_probe senv probe (net_server net) = Inr st"
  shows "\<exists>ms. sent st = sent (net_server net) @ ms \<and>
    system_inv senv wenv st (net_workers net) chans (deliver senv ms (to_worker net)) \<and>
    accepted st = accepted (net_server net) \<and> length (available_tasks st) = length (available_tasks (net_server net)) \<and>
    map metadata (available_tasks st) = map metadata (available_tasks (net_server net)) \<and>
    (\<forall>j \<ge> accepted (net_server net). list_all plain (concat (map (delivered senv (accept senv j)) ms)))"
proof (cases src)
  case None
  then have "chans = to_server net" "st = net_server net"
    using takes run by (auto simp: server_takes_def worker_probe_def split: if_splits)
  moreover have "deliver senv [] (to_worker net) = to_worker net"
    by (intro nth_equalityI) (simp_all del: concat.simps, simp)
  ultimately show ?thesis using inv by (intro exI [of _ "[]"]) (simp add: net_inv_def)
next
  case (Some ik)
  obtain i k where ik: "ik = (i, k)" by force
  let ?s = "net_server net" and ?st = "(net_server net)\<lparr> work_unit_requests := (work_unit_requests (net_server net))[i := False] \<rparr>"
  obtain m rest where g: "i < length (work_units ?s)" "k < length (net_workers net)" "work_units ?s ! i = accept senv k"
    "to_server net ! k = m # rest" "probe = Some (int i, 0, arriving wenv m)" "chans = (to_server net)[k := rest]"
    using takes Some ik by (auto simp: server_takes_def split: if_splits list.splits)
  have "work_unit_requests ?s \<noteq> [] \<and> i < length (work_unit_requests ?s)"
    using inv g(1) by (auto simp: net_inv_def system_inv_def server_inv_def workers_inv_def)
  then have run': "process_worker_cmd senv i 0 (arriving wenv m) ?st = Inr st"
    using run g(5) by (simp add: worker_probe_def)
  have inv': "system_inv senv wenv ?st (net_workers net) (to_server net) (to_worker net)"
    using inv by (simp add: net_inv_def system_inv_requests)
  have "k < accepted ?st" using g(2) inv by (simp add: net_inv_def system_inv_def)
  then obtain ms where ms: "sent st = sent ?s @ ms" "system_inv senv wenv st (net_workers net) chans (deliver senv ms (to_worker net))"
    "accepted st = accepted ?s" "map metadata (available_tasks st) = map metadata (available_tasks ?s)"
    "\<forall>j \<ge> accepted ?s. list_all plain (concat (map (delivered senv (accept senv j)) ms))"
    using message_keeps [OF inj inv' _ g(4) _ run'] g(3,6) by auto
  moreover have "length (available_tasks st) = length (available_tasks ?s)" using ms(4) by (rule map_eq_imp_length_eq)
  ultimately show ?thesis by blast
qed

lemma server_moves_keeps:
  assumes inj: "inj (accept senv)" and inv: "net_inv senv wenv net"
    and moves: "server_moves senv wenv src cmd net = Some net'" and small: "length (available_tasks (net_server net)) < 2 ^ 32"
  shows "net_inv senv wenv net'"
proof -
  obtain probe chans st where t: "server_takes senv wenv src net = Some (probe, chans)"
    "server_iteration senv (probe, cmd) (net_server net) = Inr st"
    and net': "net' = \<lparr> net_server = st,
        net_workers = net_workers net @ replicate (accepted st - accepted (net_server net)) worker_init,
        to_server = chans @ replicate (accepted st - accepted (net_server net)) [],
        to_worker = deliver senv (drop (length (sent (net_server net))) (sent st))
          (to_worker net @ replicate (accepted st - accepted (net_server net)) []) \<rparr>"
    using moves by (auto simp: server_moves_def Let_def split: if_splits option.splits sum.splits)
  obtain st1 where st1: "worker_probe senv probe (net_server net) = Inr st1"
    "(case cmd of None \<Rightarrow> Inr st1 | Some c \<Rightarrow> process_manager_cmd senv c st1) = Inr st"
    using t(2) by (auto simp: server_iteration_def rbind_Inr_iff)
  obtain ms where ms: "sent st1 = sent (net_server net) @ ms"
    "system_inv senv wenv st1 (net_workers net) chans (deliver senv ms (to_worker net))"
    "accepted st1 = accepted (net_server net)" "length (available_tasks st1) = length (available_tasks (net_server net))"
    "\<forall>j \<ge> accepted st1. list_all plain (concat (map (delivered senv (accept senv j)) ms))"
    using probe_keeps [OF inj inv t(1) st1(1)] by auto
  have si: "server_inv senv st1" using ms(2) by (simp add: system_inv_def)
  have e: "sends_light st1 st \<and> accepted st1 \<le> accepted st \<and> (available_tasks st = available_tasks st1 \<or>
      (\<exists>data. available_tasks st = available_tasks st1 @ [task_info_new (arith senv) data])) \<and> server_inv senv st"
  proof (cases cmd)
    case None
    then show ?thesis using st1(2) si by (simp add: sends_light_refl)
  next
    case (Some c)
    then have c: "process_manager_cmd senv c st1 = Inr st" using st1(2) by simp
    show ?thesis using manager_cmd_effect [OF c] manager_cmd_inv [OF inj si _ c] ms(4) small by simp
  qed
  then obtain ms2 where ms2: "sent st = sent st1 @ ms2" "list_all light ms2" by (auto simp: sends_light_def)
  define n where "n = accepted st - accepted st1"
  let ?downs = "deliver senv (ms @ ms2) (to_worker net @ replicate n [])"
  have acc: "accepted st = accepted st1 + n" using e by (simp add: n_def)
  have len: "length (to_worker net) = accepted st1" using inv ms(3) by (simp add: net_inv_def system_inv_def)
  have pl: "list_all plain (concat (map (delivered senv c) ms2))" for c using delivered_light [OF ms2(2)] .
  have "system_inv senv wenv st (net_workers net @ replicate n worker_init) (chans @ replicate n []) ?downs"
  proof (rule manager_keeps [OF ms(2) _ acc])
    show "server_inv senv st" "length ?downs = accepted st" using e acc len by simp_all
    show "available_tasks st = available_tasks st1 \<or> (\<exists>ops data. available_tasks st = available_tasks st1 @ [task_info_new ops data])"
      using e by blast
    show "\<exists>ps. list_all plain ps \<and> ?downs ! k = deliver senv ms (to_worker net) ! k @ ps" if "k < accepted st1" for k
      using that len pl by (simp add: nth_append)
    show "list_all plain (?downs ! k)" if "accepted st1 \<le> k" "k < accepted st" for k
      using that len acc pl ms(5) by (simp add: nth_append)
  qed
  moreover have "drop (length (sent (net_server net))) (sent st) = ms @ ms2" using ms(1) ms2(1) by simp
  ultimately show ?thesis using net' ms(3) by (simp add: net_inv_def n_def)
qed

section \<open>A step of a worker\<close>

text \<open>What a step may leave of the messages to the worker.\<close>

definition reads :: "'p worker_event \<Rightarrow> s2w list \<Rightarrow> s2w list \<Rightarrow> bool" where
  "reads ev down chan \<longleftrightarrow> (case ev of
     Main_receives m \<Rightarrow> down = m # chan
   | Main_round (Some m) \<Rightarrow> chan = down \<and> m \<in> set down
   | _ \<Rightarrow> chan = down)"

lemma reads_message: "reads ev down chan \<Longrightarrow> down = (case message_of ev of None \<Rightarrow> chan | Some m \<Rightarrow> m # chan)"
  by (cases ev) (auto simp: reads_def split: option.splits)

lemma answer_first:
  assumes "answer_coming n (m # chan)"
  shows "sends_instances m \<Longrightarrow> list_all plain chan \<and> (\<exists>len jobs. m = S2W_SEND_INSTANCES (len, Some jobs) \<and> jobs_total jobs \<le> unat n)"
    and "\<not> sends_instances m \<Longrightarrow> answer_coming n chan"
proof -
  obtain pre len jobs post where d: "m # chan = pre @ S2W_SEND_INSTANCES (len, Some jobs) # post"
    "list_all (\<lambda>m. \<not> sends_instances m) pre" "list_all plain post" "jobs_total jobs \<le> unat n"
    using assms by (auto simp: answer_coming_def)
  show "sends_instances m \<Longrightarrow> list_all plain chan \<and> (\<exists>len jobs. m = S2W_SEND_INSTANCES (len, Some jobs) \<and> jobs_total jobs \<le> unat n)"
    using d by (cases pre) auto
  show "\<not> sends_instances m \<Longrightarrow> answer_coming n chan"
    using d by (cases pre) (auto simp: answer_coming_def)
qed

lemma protocol_answers:
  assumes p: "protocol (w_main w) up down" and r: "reads ev down chan" and step: "worker_step env ev w \<noteq> None"
  shows "answers ev w"
proof (cases ev)
  case (Main_round probe)
  then have "w_main w = Looping \<or> w_main w = Joining" using step by (auto split: main_thread.splits)
  then have "list_all plain down" using p by (auto simp: protocol_def)
  then show ?thesis using r Main_round by (cases probe; cases "the probe") (auto simp: reads_def list_all_iff)
next
  case (Main_receives m)
  then have d: "down = m # chan" using r by (simp add: reads_def)
  show ?thesis
  proof (cases "sends_instances m")
    case True
    then have "\<not> plain m" using plain_simps(1) by blast
    then obtain n where n: "w_main w = Receiving n" "answer_coming n (m # chan)"
      using p d by (auto simp: protocol_def split: main_thread.splits)
    then show ?thesis using answer_first(1) [OF n(2) True] Main_receives
      by (auto simp: Worker.jobs_total_def Server_Schedule.jobs_total_def)
  next
    case False
    then show ?thesis using Main_receives by (cases m) auto
  qed
qed simp

lemma protocol_step:
  assumes p: "protocol main up down" and r: "reads ev down chan"
    and c: "main_change (\<exists>m. message_of ev = Some m \<and> sends_instances m) main (requests out) main'"
  shows "protocol main' (up @ out) chan"
proof (cases "\<exists>n. main = Receiving n")
  case False
  then have "requests up = []" "list_all plain down" using p by (auto simp: protocol_def split: main_thread.splits)
  then show ?thesis using False c reads_message [OF r]
    by (auto simp: main_change_def protocol_def split: main_thread.splits option.splits)
next
  case True
  then obtain n where n: "main = Receiving n" by blast
  have c': "requests out = []" "main' = (if \<exists>m. message_of ev = Some m \<and> sends_instances m then Looping else Receiving n)"
    using c n by (simp_all add: main_change_def)
  have p': "requests up = [n] \<and> list_all plain down \<or> requests up = [] \<and> answer_coming n down"
    using p n by (simp add: protocol_def)
  show ?thesis
  proof (cases "message_of ev")
    case None
    then show ?thesis using p' c' reads_message [OF r] by (simp add: protocol_def)
  next
    case (Some m)
    then have d: "down = m # chan" using reads_message [OF r] by simp
    show ?thesis
    proof (cases "sends_instances m")
      case True
      then have "\<not> plain m" using plain_simps(1) by blast
      then show ?thesis using p' c' d Some True answer_first(1) [of n m chan] by (auto simp: protocol_def)
    next
      case False
      then show ?thesis using p' c' d Some answer_first(2) [of n m chan] by (auto simp: protocol_def)
    qed
  qed
qed

lemma worker_moves_keeps:
  assumes inv: "net_inv senv wenv net" and k: "k < length (net_workers net)"
    and r: "reads ev (to_worker net ! k) chan" and moves: "worker_moves wenv k ev chan net = Some net'"
  shows "net_inv senv wenv net'"
proof -
  let ?s = "net_server net" and ?ws = "net_workers net" and ?ups = "to_server net" and ?downs = "to_worker net"
  let ?mds = "map metadata (available_tasks ?s)" and ?w = "?ws ! k"
  obtain w' where step: "worker_step wenv ev ?w = Some (Inr w')"
    and net': "net' = net\<lparr> net_workers := ?ws[k := w'],
      to_server := ?ups[k := ?ups ! k @ drop (length (w_sent ?w)) (w_sent w')], to_worker := ?downs[k := chan] \<rparr>"
    using moves by (auto simp: worker_moves_def Let_def split: option.splits sum.splits)
  have lens: "length ?ws = accepted ?s" "length ?ups = accepted ?s" "length ?downs = accepted ?s"
    using inv by (simp_all add: net_inv_def system_inv_def)
  have ok: "worker_ok wenv ?mds (?ws ! j) (?ups ! j) (?downs ! j)" if "j < accepted ?s" for j
    using inv that by (simp add: net_inv_def system_inv_def)
  have kk: "k < accepted ?s" using k lens by simp
  obtain g where g: "worker_run wenv g ?w" and wf: "worker_fits wenv ?mds ?w" and up: "\<forall>m \<in> set (?ups ! k). report_fits wenv ?mds m"
    and down: "\<forall>m \<in> set (?downs ! k). jobs_fit ?mds m" and prot: "protocol (w_main ?w) (?ups ! k) (?downs ! k)"
    using ok [OF kk] unfolding worker_ok_def by blast
  have ans: "answers ev ?w" by (rule protocol_answers [OF prot r, where env = wenv]) (simp add: step)
  have jobs: "jobs_fit ?mds m" if "message_of ev = Some m" for m using down reads_message [OF r] that by simp
  have winv: "worker_inv ?w" using worker_run_keeps [OF g] by blast
  obtain out where out: "effect wenv ?mds (gains ev) ?w out w'"
    "main_change (\<exists>m. message_of ev = Some m \<and> sends_instances m) (w_main ?w) (requests out) (w_main w')"
    using worker_step_effect [OF step wf jobs winv ans] by blast
  have net': "net' = net\<lparr> net_workers := ?ws[k := w'], to_server := ?ups[k := ?ups ! k @ out], to_worker := ?downs[k := chan] \<rparr>"
    using net' out(1) by (simp add: effect_def)
  have "worker_ok wenv ?mds w' (?ups ! k @ out) chan"
    using worker_run.run_step [OF g ans step] out(1) up down reads_message [OF r] protocol_step [OF prot r out(2)]
    by (auto simp: worker_ok_def effect_def split: option.splits)
  then have ok': "worker_ok wenv ?mds (?ws[k := w'] ! j) (?ups[k := ?ups ! k @ out] ! j) (?downs[k := chan] ! j)"
    if "j < accepted ?s" for j using ok [OF that] that lens by (cases "j = k") simp_all
  have "tallied (available_tasks ?s) (?ws[k := w']) (?ups[k := ?ups ! k @ out]) (?downs[k := chan])"
    unfolding tallied_def
  proof (intro allI impI)
    fix i assume i: "i < length (available_tasks ?s)"
    let ?new = "flow i (?ws[k := w']) (?ups[k := ?ups ! k @ out]) (?downs[k := chan])"
    have ch: "?new + outstanding i ?w (?ups ! k) (?downs ! k) = flow i ?ws ?ups ?downs + outstanding i w' (?ups ! k @ out) chan"
      using flow_change [of k ?ws "?ws[k := w']" i "?ups[k := ?ups ! k @ out]" "?downs[k := chan]" ?ups ?downs] k lens by simp
    have "sum_list (map (sent_out i) (?downs ! k)) = gains ev i + sum_list (map (sent_out i) chan)"
      using reads_message [OF r] by (simp add: gains_def split: option.splits)
    then have "outstanding i ?w (?ups ! k) (?downs ! k) + held i w' + sum_list (map (reported_back i) out) =
        outstanding i w' (?ups ! k @ out) chan + held i ?w + gains ev i"
      by (simp add: outstanding_def)
    moreover have "held i w' + sum_list (map (reported_back i) out) \<le> held i ?w + gains ev i"
      "w_running w' \<longrightarrow> held i w' + sum_list (map (reported_back i) out) = held i ?w + gains ev i"
      "w_running w' \<longrightarrow> w_running ?w" using out(1) by (simp_all add: effect_def)
    moreover have "flow i ?ws ?ups ?downs \<le> processing_count (available_tasks ?s ! i)"
      "(\<forall>w \<in> set ?ws. w_running w) \<longrightarrow> flow i ?ws ?ups ?downs = processing_count (available_tasks ?s ! i)"
      using inv i by (simp_all add: net_inv_def system_inv_def tallied_def)
    moreover have "w_running w' \<and> (\<forall>w \<in> set ?ws. w_running w)" if "\<forall>w \<in> set (?ws[k := w']). w_running w"
    proof -
      have w': "w_running w'" using that k by (simp add: set_update_memI)
      have "w_running (?ws ! j)" if j: "j < length ?ws" for j
      proof (cases "j = k")
        case True
        then show ?thesis using w' out(1) by (simp add: effect_def)
      next
        case False
        then have "?ws ! j \<in> set (?ws[k := w'])" using j by (metis length_list_update nth_list_update_neq nth_mem)
        then show ?thesis using that \<open>\<forall>w \<in> set (?ws[k := w']). w_running w\<close> by blast
      qed
      then show ?thesis using w' by (auto simp: in_set_conv_nth)
    qed
    ultimately show "?new \<le> processing_count (available_tasks ?s ! i) \<and>
        ((\<forall>w \<in> set (?ws[k := w']). w_running w) \<longrightarrow> ?new = processing_count (available_tasks ?s ! i))"
      using ch by auto
  qed
  then show ?thesis using ok' inv lens net' by (simp add: net_inv_def system_inv_def)
qed

section \<open>Every reachable state\<close>

lemma net_init_inv: "net_inv senv wenv network_init"
  using server_init_inv by (simp add: net_inv_def system_inv_def network_init_def server_init_def stats_fit_def tallied_def)

lemma net_step_keeps:
  assumes inj: "inj (accept senv)" and inv: "net_inv senv wenv net" and step: "net_step senv wenv ev net = Some net'"
    and small: "length (available_tasks (net_server net)) < 2 ^ 32"
  shows "net_inv senv wenv net'"
proof (cases ev)
  case (Server_round src cmd)
  then show ?thesis using server_moves_keeps [OF inj inv _ small] step by simp
next
  case (Thread k i m)
  then show ?thesis using worker_moves_keeps [OF inv, of k "Thread_runs i m"] step by (auto simp: reads_def split: if_splits)
next
  case (Main_polls k arrived)
  then show ?thesis
    using step worker_moves_keeps [OF inv, of k "Main_round None"] worker_moves_keeps [OF inv, of k "Main_round (Some m)" for m]
    by (auto simp: reads_def split: if_splits list.splits)
next
  case (Main_takes k)
  then show ?thesis using step worker_moves_keeps [OF inv, of k "Main_receives m" for m]
    by (auto simp: reads_def split: if_splits list.splits)
qed

theorem reachable_inv:
  assumes inj: "inj (accept senv)"
  shows "reachable senv wenv net \<Longrightarrow> net_inv senv wenv net"
proof (induction rule: reachable.induct)
  case reachable_init
  show ?case by (rule net_init_inv)
next
  case (reachable_step net ev net')
  then show ?case using net_step_keeps [OF inj] by blast
qed

lemma under_way_flow: "under_way i net = flow i (net_workers net) (to_server net) (to_worker net)"
  by (simp add: under_way_def flow_def)

end
