(* ===== verification/Network_Sizes.thy ===== *)
theory Network_Sizes
  imports Network_Correct
begin

text \<open>
  The sizes of the messages in the system of \<open>Network\<close>: a worker announces a larger message
  before it sends it, the messages arrive in order, and the server enlarges the buffer of the
  worker with the announcement, so every message finds a buffer that holds it.
\<close>

section \<open>Messages that fit\<close>

fun message_size :: "'p worker_env \<Rightarrow> 'p worker_message \<Rightarrow> nat" where
  "message_size env (Server_req_max n) = we_length env [Value4b (of_nat n)]"
| "message_size env (Found_solution info) = we_length env (serialize_solution_info info)"
| "message_size env (Done_processing info) = we_length env (serialize_done_processing_info info)"
| "message_size env (Get_instances n) = we_length env [Value4b n]"
| "message_size env Disconnect = 0"

text \<open>
  The messages on their way fit a buffer that grows with the announcements among them, and in
  the end it has the size the worker believes it has.
\<close>

fun fits_buffer :: "'p worker_env \<Rightarrow> nat \<Rightarrow> 'p worker_message list \<Rightarrow> nat \<Rightarrow> bool" where
  "fits_buffer env cap [] announced \<longleftrightarrow> announced \<le> cap"
| "fits_buffer env cap (Server_req_max n # ms) announced \<longleftrightarrow>
     0 < n \<and> n \<le> absolute_max_cmd_length \<and> fits_buffer env (max cap n) ms announced"
| "fits_buffer env cap (m # ms) announced \<longleftrightarrow> message_size env m \<le> cap \<and> fits_buffer env cap ms announced"

lemma fits_buffer_mono: "fits_buffer env cap ms a \<Longrightarrow> cap \<le> cap' \<Longrightarrow> fits_buffer env cap' ms a"
proof (induction env cap ms a arbitrary: cap' rule: fits_buffer.induct)
  case (2 env cap n ms a)
  have "max cap n \<le> max cap' n" using "2.prems"(2) by simp
  then show ?case using 2 by simp
qed auto

text \<open>
  What sending keeps: from the state before, with an announced size, to the state after.
\<close>

definition announces :: "'p worker_env \<Rightarrow> nat \<Rightarrow> 'p worker_message list \<Rightarrow> nat \<Rightarrow> bool" where
  "announces env a out a' \<longleftrightarrow> (default_max_cmd_length \<le> a \<longrightarrow> default_max_cmd_length \<le> a' \<and>
     (\<forall>cap ms. fits_buffer env cap ms a \<longrightarrow> fits_buffer env cap (ms @ out) a'))"

definition pays :: "'p worker_env \<Rightarrow> 'p worker \<Rightarrow> 'p worker \<Rightarrow> bool" where
  "pays env w w' \<longleftrightarrow> (\<exists>out. w_sent w' = w_sent w @ out \<and>
     announces env (current_server_max_cmd_length w) out (current_server_max_cmd_length w'))"

lemma pays_same:
  "w_sent w' = w_sent w \<Longrightarrow> current_server_max_cmd_length w' = current_server_max_cmd_length w \<Longrightarrow> pays env w w'"
  by (simp add: pays_def announces_def)

lemma pays_trans: "pays env u v \<Longrightarrow> pays env v w \<Longrightarrow> pays env u w"
  unfolding pays_def announces_def by (elim exE conjE) (rule exI, rule conjI, simp, simp flip: append_assoc)

lemma fits_buffer_snoc:
  "fits_buffer env cap ms a \<Longrightarrow> message_size env m \<le> a \<Longrightarrow> \<forall>n. m \<noteq> Server_req_max n \<Longrightarrow>
   fits_buffer env cap (ms @ [m]) a"
proof (induction env cap ms a rule: fits_buffer.induct)
  case (1 env cap a)
  then show ?case by (cases m) auto
qed auto

lemma fits_buffer_announce:
  "fits_buffer env cap ms a \<Longrightarrow> 0 < n \<Longrightarrow> n \<le> absolute_max_cmd_length \<Longrightarrow> a \<le> n \<Longrightarrow> message_size env m \<le> n \<Longrightarrow>
   \<forall>n. m \<noteq> Server_req_max n \<Longrightarrow> fits_buffer env cap (ms @ [Server_req_max n, m]) n"
proof (induction env cap ms a rule: fits_buffer.induct)
  case (1 env cap a)
  then show ?case by (cases m) auto
qed auto

lemma server_send_pays:
  assumes run: "server_send env items m w = Inr w'" and m: "message_size env m = we_length env items" "\<forall>n. m \<noteq> Server_req_max n"
  shows "pays env w w'"
proof -
  let ?a = "current_server_max_cmd_length w" and ?n = "we_length env items"
  obtain a req where e: "ensure_length ?n ?a = Inr (a, req)"
    and w': "w_sent w' = w_sent w @ (case req of None \<Rightarrow> [] | Some n \<Rightarrow> [Server_req_max n]) @ [m]"
      "current_server_max_cmd_length w' = a"
    using run by (auto simp: server_send_def Let_def rbind_Inr_iff thrown_Inr)
  have "fits_buffer env cap (ms @ (case req of None \<Rightarrow> [] | Some n \<Rightarrow> [Server_req_max n]) @ [m]) a"
    if f: "fits_buffer env cap ms ?a" and d: "default_max_cmd_length \<le> ?a" for cap ms
  proof (cases "?n \<le> ?a")
    case True
    then have "a = ?a" "req = None" using e by (simp_all add: ensure_length_def)
    then show ?thesis using fits_buffer_snoc [OF f] True m by simp
  next
    case False
    then have "a = ?n" "req = Some ?n" "?n \<le> absolute_max_cmd_length"
      using e d by (auto simp: ensure_length_def req_max_transfer_size_send_def rbind_Inr_iff require_def split: if_splits)
    then show ?thesis using fits_buffer_announce [OF f, of ?n m] False m by simp
  qed
  then show ?thesis using w' ensure_length_Inr(1) [OF e] by (auto simp: pays_def announces_def)
qed

lemma server_send_Inl_pays: "server_send env items m w = Inl (e, w') \<Longrightarrow> pays env w w'"
  by (rule pays_same) (auto simp: server_send_def Let_def rbind_Inl_iff rbind_Inr_iff thrown_Inl)

lemma solution_send_pays:
  "(if dp_solved (t_dpi x) then w2s_found_solution_send env (solution_of x) w else Inr w) = Inr w1 \<Longrightarrow> pays env w w1"
  using server_send_pays [of env _ "Found_solution (solution_of x)" w w1] by (auto simp: pays_same split: if_splits)

lemma return_task_pays:
  "return_task env x w = Inr w' \<Longrightarrow> pays env w w'"
  "return_task env x w = Inl (e, w') \<Longrightarrow> pays env w w'"
proof -
  let ?first = "if dp_solved (t_dpi x) then w2s_found_solution_send env (solution_of x) w else Inr w"
  show "pays env w w'" if r: "return_task env x w = Inr w'"
  proof -
    obtain w1 where w1: "?first = Inr w1" "done_processing_send env (t_dpi x) w1 = Inr w'"
      using r by (auto simp: return_task_def rbind_Inr_iff split: if_splits)
    show ?thesis
      by (rule pays_trans [OF solution_send_pays [OF w1(1)] server_send_pays [OF w1(2)]]) simp_all
  qed
  show "pays env w w'" if r: "return_task env x w = Inl (e, w')"
  proof (cases ?first)
    case (Inl y)
    then have "w2s_found_solution_send env (solution_of x) w = Inl (e, w')"
      using r by (auto simp: return_task_def split: if_splits)
    then show ?thesis by (rule server_send_Inl_pays)
  next
    case (Inr w1)
    have "w' = w1 \<or> done_processing_send env (t_dpi x) w1 = Inl (e, w')"
      using r Inr by (auto simp: return_task_def split: if_splits)
    then show ?thesis using solution_send_pays [OF Inr] server_send_Inl_pays pays_trans by blast
  qed
qed

lemma leave_server_pays: "pays env w v \<Longrightarrow> pays env w (leave_server v)"
proof (erule pays_trans)
  have "fits_buffer env cap (ms @ [Disconnect]) a" if "fits_buffer env cap ms a" for cap ms a
    by (rule fits_buffer_snoc [OF that]) simp_all
  then show "pays env v (leave_server v)" by (simp add: pays_def announces_def leave_server_def)
qed

text \<open>The other functions do not send.\<close>

definition silent :: "'p worker \<Rightarrow> 'p worker \<Rightarrow> bool" where
  "silent w w' \<longleftrightarrow> w_sent w' = w_sent w \<and> current_server_max_cmd_length w' = current_server_max_cmd_length w"

lemma silent_refl: "silent w w"
  by (simp add: silent_def)

lemma silent_pays: "silent w w' \<Longrightarrow> pays env w w'"
  by (simp add: silent_def pays_same)

lemma create_tasks_silent:
  "create_tasks env jobs w = Some r \<Longrightarrow> (case r of Inr w' \<Rightarrow> silent w w' | Inl (e, w') \<Rightarrow> silent w w')"
proof (induction jobs arbitrary: w)
  case Nil
  then show ?case by (auto simp: silent_def)
next
  case (Cons j jobs)
  show ?case
  proof (cases "0 < num_instances_to_start j \<and>
      (\<exists>F. initialize_sharing (we_tolerated env) (we_file env (filename (job_metadata j))) formula_new = Some (Inr F))")
    case True
    then show ?thesis using Cons.prems Cons.IH by (fastforce simp: silent_def split: sum.splits)
  next
    case False
    then show ?thesis using Cons.prems by (auto simp: silent_def split: if_splits option.splits sum.splits)
  qed
qed

lemma process_cmd_silent:
  "process_server_cmd env msg w = Some r \<Longrightarrow> (case r of Inr w' \<Rightarrow> silent w w' | Inl (e, w') \<Rightarrow> silent w w')"
proof (cases msg)
  case (S2W_SEND_INSTANCES p)
  assume "process_server_cmd env msg w = Some r"
  then have "(\<exists>e. r = Inl (e, w)) \<or> r = Inr w \<or> (\<exists>jobs. create_tasks env jobs w = Some r)"
    using S2W_SEND_INSTANCES by (auto simp: process_s2w_send_instances_def split: sum.splits if_splits)
  then show ?thesis using create_tasks_silent by (auto simp: silent_refl)
qed (auto simp: silent_def rbind_def thrown_def split: sum.splits)

lemma worker_func_silent: "worker_func env i m w = Some (Inr w') \<Longrightarrow> silent w w'"
  by (erule worker_func_cases) (simp_all add: silent_def set_thread_def)

text \<open>A step of a worker.\<close>

lemma request_instances_pays:
  assumes "request_instances env w = Inr w'"
  shows "pays env w w'"
proof (cases "w_running w \<and> min instances_buffered num_probsat_threads_per_worker < w_instances_to_get w")
  case False
  then show ?thesis using assms by (auto simp: request_instances_def pays_same split: if_splits)
next
  case True
  then obtain v where v: "get_instances_send env (w_instances_to_get w) w = Inr v"
    "w' = v\<lparr> w_main := Receiving (w_instances_to_get v) \<rparr>"
    using assms by (auto simp: request_instances_def rbind_Inr_iff)
  have "pays env w v" by (rule server_send_pays [OF v(1) [unfolded get_instances_send_def]]) simp_all
  then show ?thesis using v(2) by (simp add: pays_def)
qed

lemma main_loop_round_pays:
  assumes run: "main_loop_round env probe w = Some (Inr w')"
  shows "pays env w w'"
proof (cases "w_running w")
  case False
  then show ?thesis using run by (auto simp: main_loop_round_def pays_same)
next
  case True
  show ?thesis
  proof (cases "w_tasks_done w")
    case (Cons x xs)
    then have "return_task env x (w\<lparr> w_tasks_done := xs \<rparr>) = Inr w'" using run True by (simp add: main_loop_round_def)
    from return_task_pays(1) [OF this] show ?thesis by (simp add: pays_def)
  next
    case Nil
    obtain v where v: "case probe of None \<Rightarrow> v = w | Some msg \<Rightarrow> process_server_cmd env msg w = Some (Inr v)"
      "request_instances env v = Inr w'"
      using run True Nil by (auto simp: main_loop_round_def rbind_Inr_iff split: option.splits)
    have "silent w v"
    proof (cases probe)
      case (Some msg)
      then show ?thesis using v(1) process_cmd_silent [of env msg w "Inr v"] by simp
    qed (use v(1) silent_refl in simp)
    then show ?thesis using pays_trans [OF silent_pays request_instances_pays [OF v(2)]] by blast
  qed
qed

lemma main_join_pays:
  assumes "map_option (main_catch w) (main_join env w) = Some (Inr w')"
  shows "pays env w w'"
proof (cases "w_tasks_done w")
  case Nil
  then have "w' = leave_server w" using assms by (auto simp: main_join_def main_catch_def split: if_splits)
  then show ?thesis using leave_server_pays silent_pays silent_refl by blast
next
  case (Cons x xs)
  let ?v = "w\<lparr> w_tasks_done := xs \<rparr>"
  have c: "main_catch w (return_task env x ?v) = Inr w'"
    using assms Cons by (auto simp: main_join_def split: if_splits)
  have "pays env ?v w'"
  proof (cases "return_task env x ?v")
    case (Inr y)
    then show ?thesis using c return_task_pays(1) by (fastforce simp: main_catch_def)
  next
    case (Inl y)
    obtain e v where y: "y = (e, v)" by (cases y)
    have "w' = leave_server v" using c Inl y by (simp add: main_catch_def split: if_splits)
    then show ?thesis using return_task_pays(2) [OF Inl [unfolded y]] leave_server_pays by blast
  qed
  then show ?thesis by (simp add: pays_def)
qed

lemma receive_pays:
  assumes step: "worker_step env (Main_receives msg) w = Some (Inr w')"
  shows "pays env w w'"
proof -
  obtain r where r: "receive_server_cmd env msg w = Some r" "main_catch w r = Inr w'" using step by auto
  then obtain q where q: "process_server_cmd env msg w = Some q"
    by (auto simp: receive_server_cmd_def split: main_thread.splits)
  note s = process_cmd_silent [OF q]
  show ?thesis
  proof (cases q)
    case (Inl y)
    obtain e v where y: "y = (e, v)" by (cases y)
    have "r = Inl (e, v)" using r(1) q Inl y by (auto simp: receive_server_cmd_def split: main_thread.splits)
    then have "w' = leave_server v" using r(2) by (simp add: main_catch_def split: if_splits)
    then show ?thesis using s Inl y leave_server_pays silent_pays by fastforce
  next
    case (Inr v)
    have "(\<exists>main. w' = v\<lparr> w_main := main \<rparr>) \<or> w' = v \<or> w' = start_threads v"
      using r q unfolding receive_server_cmd_def Inr
      by (cases "w_main w"; cases msg) (auto simp: main_catch_def simp del: process_server_cmd.simps split: if_splits)
    then have "silent v w'" by (auto simp: silent_def start_threads_def)
    then show ?thesis using s Inr silent_pays pays_trans by fastforce
  qed
qed

theorem worker_step_pays:
  assumes step: "worker_step env ev w = Some (Inr w')"
  shows "pays env w w'"
proof (cases ev)
  case (Thread_runs j m)
  then show ?thesis using step worker_func_silent silent_pays by (metis worker_step.simps(1))
next
  case (Main_round probe)
  consider "main_loop_round env probe w = Some (Inr w')" | "map_option (main_catch w) (main_join env w) = Some (Inr w')"
    using step Main_round by (cases "w_main w") (auto simp: main_catch_Inr)
  then show ?thesis by cases (auto intro: main_loop_round_pays main_join_pays)
next
  case (Main_receives msg)
  then show ?thesis using step receive_pays by blast
qed

lemma pays_fits:
  assumes "pays env w w'" "fits_buffer env cap up (current_server_max_cmd_length w)"
    "default_max_cmd_length \<le> current_server_max_cmd_length w"
  shows "fits_buffer env cap (up @ drop (length (w_sent w)) (w_sent w')) (current_server_max_cmd_length w')"
    and "default_max_cmd_length \<le> current_server_max_cmd_length w'"
  using assms by (auto simp: pays_def announces_def)

section \<open>The buffers of the server\<close>

definition buffers_kept :: "'p server \<Rightarrow> 'p server \<Rightarrow> bool" where
  "buffers_kept st st' \<longleftrightarrow> (\<forall>i < length (work_units st'). \<exists>j < length (work_units st).
     work_units st' ! i = work_units st ! j \<and> worker_comm_buffers st ! j \<le> worker_comm_buffers st' ! i)"

lemma buffers_kept_same:
  "work_units st' = work_units st \<Longrightarrow> worker_comm_buffers st' = worker_comm_buffers st \<Longrightarrow> buffers_kept st st'"
  by (auto simp: buffers_kept_def)

lemma buffers_kept_update:
  assumes "work_units st' = work_units st" "worker_comm_buffers st' = (worker_comm_buffers st)[i := c]"
    and "worker_comm_buffers st ! i \<le> c" "server_inv env st"
  shows "buffers_kept st st'"
  unfolding buffers_kept_def
proof (intro allI impI)
  fix j assume "j < length (work_units st')"
  moreover have "length (worker_comm_buffers st) = length (work_units st)" using assms(4) by (simp add: server_inv_def workers_inv_def)
  ultimately show "\<exists>k < length (work_units st). work_units st' ! j = work_units st ! k \<and>
      worker_comm_buffers st ! k \<le> worker_comm_buffers st' ! j"
    using assms(1-3) by (intro exI [of _ j]) (cases "j = i"; simp)
qed

lemma buffers_kept_books: "books st' = books st \<Longrightarrow> buffers_kept st st'"
  using books_eqD [of st' st] by (simp add: buffers_kept_same)

lemma verase_nth:
  assumes "verase xs i = Some ys" "j < length ys"
  shows "ys ! j = xs ! (if j < i then j else Suc j)"
  using assms by (auto simp: verase_def nth_append split: if_splits)

lemma command_buffers:
  assumes inv: "server_inv env st" and ok: "\<And>len d. cmd = W2S_DONE_PROCESSING (len, Some d) \<Longrightarrow> done_ok st d"
    and grows: "\<And>c n. c \<le> grown env c n" and run: "process_worker_cmd env i s cmd st = Inr st'"
  shows "buffers_kept st st'"
proof (cases cmd)
  case (W2S_REQ_MAX_CMD_LENGTH p)
  obtain st1 reqs where st1: "process_w2s_REQ_MAX_CMD_LENGTH i p st = Inr st1" "st' = st1\<lparr> work_unit_requests := reqs \<rparr>"
    using renewedE [OF run [unfolded W2S_REQ_MAX_CMD_LENGTH process_worker_cmd.simps]] by blast
  then obtain cap' where cap': "req_max_transfer_size_process server_header p (worker_comm_buffers st ! i) = Inr cap'"
    and "work_units st' = work_units st" "worker_comm_buffers st' = (worker_comm_buffers st)[i := cap']"
    by (auto simp: process_w2s_REQ_MAX_CMD_LENGTH_def rbind_Inr_iff defined_def split: option.splits if_splits)
  moreover have "worker_comm_buffers st ! i \<le> cap'"
    using cap' by (auto simp: req_max_transfer_size_process_def rbind_Inr_iff split: if_splits)
  ultimately show ?thesis using buffers_kept_update [OF _ _ _ inv] by blast
next
  case (W2S_FOUND_SOLUTION p)
  obtain st1 reqs where st1: "process_w2s_FOUND_SOLUTION env i p st = Inr st1" "st' = st1\<lparr> work_unit_requests := reqs \<rparr>"
    using renewedE [OF run [unfolded W2S_FOUND_SOLUTION process_worker_cmd.simps]] by blast
  let ?st = "st\<lparr> solution_found := True \<rparr>"
  obtain v info where v: "(if terminate_after_solution_was_found st then send_termination_to_workers env ?st else Inr ?st) = Inr v"
    "found_solution_send env info v = Inr st1"
    using st1(1) by (auto simp: process_w2s_FOUND_SOLUTION_def rbind_Inr_iff Let_def)
  have "work_units v = work_units st \<and> worker_comm_buffers v = worker_comm_buffers st"
    using v(1) send_termination_frame [of env ?st v] books_eqD [of v "?st\<lparr> terminated_workers := True \<rparr>"] by (auto split: if_splits)
  then show ?thesis
    using books_eqD [OF manager_send_frame [OF v(2) [unfolded found_solution_send_def]]] st1(2) by (simp add: buffers_kept_same)
next
  case (W2S_DONE_PROCESSING p)
  obtain v reqs where v: "process_w2s_DONE_PROCESSING env i p st = Inr v" "st' = v\<lparr> work_unit_requests := reqs \<rparr>"
    using renewedE [OF run [unfolded W2S_DONE_PROCESSING process_worker_cmd.simps]] by blast
  obtain cap d where cap: "vget (worker_comm_buffers st) (int i) = Some cap" and d: "done_processing_process cap p = Inr d"
    using v(1) by (auto simp: process_w2s_DONE_PROCESSING_def rbind_Inr_iff defined_def split: option.splits)
  have i: "i < length (worker_comm_buffers st)" "cap = worker_comm_buffers st ! i" using cap by (auto split: if_splits)
  have "done_ok st d" using ok [of "fst p" d] d W2S_DONE_PROCESSING by (simp add: received_Inr prod_eq_iff)
  moreover have "schedule_inv st" using inv by (simp add: server_inv_def)
  ultimately obtain x where "process_w2s_DONE_PROCESSING env i p st = (if all_returned (take_back st d x)
       then rbind (send_statistic_to_manager env (take_back st d x)) (send_termination_to_workers env)
       else Inr (take_back st d x))"
    using done_processing_eq [of st d i p env] d i by blast
  then have "take_back st d x = v \<or> (\<exists>u. send_statistic_to_manager env (take_back st d x) = Inr u \<and>
      send_termination_to_workers env u = Inr v)"
    unfolding rbind_Inr_iff [symmetric] using v(1) by (simp split: if_splits)
  then have "work_units v = work_units st \<and> worker_comm_buffers v = worker_comm_buffers st"
  proof (elim disjE exE conjE)
    fix u assume u: "send_statistic_to_manager env (take_back st d x) = Inr u" "send_termination_to_workers env u = Inr v"
    show ?thesis using books_eqD [OF send_statistic_frame [OF u(1)]] books_eqD [OF send_termination_frame [OF u(2)]]
      by (simp add: take_back_def Let_def)
  qed (auto simp: take_back_def Let_def)
  then show ?thesis using v(2) by (simp add: buffers_kept_same)
next
  case (W2S_GET_INSTANCES p)
  obtain v reqs where v: "process_w2s_GET_INSTANCES env i s p st = Inr v" "st' = v\<lparr> work_unit_requests := reqs \<rparr>"
    using renewedE [OF run [unfolded W2S_GET_INSTANCES process_worker_cmd.simps]] by blast
  obtain n rest jobs st1 where l: "(if \<not> solution_found st then get_instances_loop n [] st else Inr (n, [], st)) =
      Inr (rest, jobs, st1)" "send_instances_send env i s jobs st1 = Inr v"
    using v(1) by (auto simp: process_w2s_GET_INSTANCES_def rbind_Inr_iff)
  have "schedule_inv st" using inv by (simp add: server_inv_def)
  then have "dispatched st jobs st1"
    using l(1) get_instances_loop_correct [of st n "[]"] dispatched_refl [of st] by (auto split: if_splits)
  then have same: "work_units st1 = work_units st" "worker_comm_buffers st1 = worker_comm_buffers st"
    by (cases st; cases st1; simp add: dispatched_def)+
  obtain a req where "v = reply_sent env i s jobs a req st1" using l(2) by (auto simp: send_instances_Inr)
  then have "work_units st' = work_units st" "worker_comm_buffers st' = (worker_comm_buffers st)[i :=
      grown env (worker_comm_buffers st ! i) (encoded_length env (serialize_jobs jobs))]"
    using v(2) same by (simp_all add: reply_sent_def)
  then show ?thesis using buffers_kept_update [OF _ _ grows inv] by blast
next
  case W2S_DISCONNECT
  then have run': "process_w2s_DISCONNECT env i st = Inr st'" using run by simp
  obtain reqs us sizes bufs where v: "verase (work_unit_requests st) i = Some reqs" "verase (transfer_sizes st) i = Some sizes"
    and e: "verase (work_units st) i = Some us" "verase (worker_comm_buffers st) i = Some bufs"
    using run' by (auto simp: process_w2s_DISCONNECT_def rbind_Inr_iff defined_def split: option.splits)
  let ?st = "st\<lparr> work_unit_requests := reqs, work_units := us, transfer_sizes := sizes,
     worker_comm_buffers := bufs, work_units_disconnected := work_units_disconnected st + 1 \<rparr>"
  have "st' = ?st \<or> (\<exists>st2. send_statistic_to_manager env ?st = Inr st2 \<and> st' = st2\<lparr> running := False \<rparr>)"
    using run' by (simp add: process_w2s_DISCONNECT_def v e rbind_Inr_iff Let_def split: if_splits) blast+
  then have "work_units st' = us \<and> worker_comm_buffers st' = bufs"
    using books_eqD [OF send_statistic_frame [of env ?st]] by auto
  moreover have "length bufs = length us" "length us \<le> length (work_units st) - 1" "i < length (work_units st)"
    using e set_verase [OF e(1)] set_verase [OF e(2)] inv by (auto simp: server_inv_def workers_inv_def)
  ultimately have "(if j < i then j else Suc j) < length (work_units st)" "work_units st' ! j = work_units st ! (if j < i then j else Suc j)"
    "worker_comm_buffers st' ! j = worker_comm_buffers st ! (if j < i then j else Suc j)" if "j < length (work_units st')" for j
    using that verase_nth [OF e(1), of j] verase_nth [OF e(2), of j] by auto
  then show ?thesis unfolding buffers_kept_def by (metis order_refl)
qed (use run in simp)

lemma announcement_buffer:
  assumes "process_worker_cmd env i s (W2S_REQ_MAX_CMD_LENGTH (len, Some (int n))) st = Inr st'"
  shows "work_units st' = work_units st \<and> i < length (worker_comm_buffers st) \<and>
    worker_comm_buffers st' ! i = max (worker_comm_buffers st ! i) n"
proof -
  obtain st1 reqs where st1: "process_w2s_REQ_MAX_CMD_LENGTH i (len, Some (int n)) st = Inr st1" "st' = st1\<lparr> work_unit_requests := reqs \<rparr>"
    using renewedE [OF assms [unfolded process_worker_cmd.simps]] by blast
  then show ?thesis
    by (auto simp: process_w2s_REQ_MAX_CMD_LENGTH_def rbind_Inr_iff defined_def req_max_transfer_size_process_def received_Inr
        split: option.splits if_splits)
qed

lemma manager_buffers:
  assumes "process_manager_cmd env cmd st = Inr st'"
  shows "\<exists>n. accepted st' = accepted st + n \<and> work_units st' = work_units st @ map (\<lambda>i. accept env (accepted st + i)) [0..<n] \<and>
    worker_comm_buffers st' = worker_comm_buffers st @ replicate n default_max_cmd_length"
proof (cases cmd)
  case (M2S_REQ_MAX_CMD_LENGTH p)
  then show ?thesis using assms by (intro exI [of _ 0]) (auto simp: rbind_Inr_iff)
next
  case (M2S_ADD_WORKERS c n)
  let ?st = "accept_workers env (nat n) st"
  have "?st = st' \<or> foldR (\<lambda>i. activate_worker_send (length (work_units st) + i) 0) [0..<nat n] ?st = Inr st'"
    using assms M2S_ADD_WORKERS by (auto simp: process_m2s_ADD_WORKERS_def rbind_Inr_iff Let_def split: if_splits)
  then have "books st' = books ?st" using activations_frame [of "\<lambda>i. length (work_units st) + i"] by auto
  then show ?thesis using books_eqD [of st' ?st] by (intro exI [of _ "nat n"]) (simp add: accept_workers_def)
next
  case (M2S_ADD_FILE p)
  then obtain data where "add_file_process (command_capacity st) p = Inr data"
    using assms by (auto simp: process_m2s_ADD_FILE_def rbind_Inr_iff)
  let ?st = "st\<lparr> available_tasks := available_tasks st @ [task_info_new (arith env) data],
    task_order := of_nat (length (available_tasks st)) # task_order st \<rparr>"
  have "?st = st' \<or> foldR (\<lambda>i. activate_worker_send i 0) [0..<length (work_units ?st)] ?st = Inr st'"
    using assms M2S_ADD_FILE \<open>_ = Inr data\<close> by (auto simp: process_m2s_ADD_FILE_def Let_def split: if_splits)
  then have "books st' = books ?st" using activations_frame [of "\<lambda>i. i"] by auto
  then show ?thesis using books_eqD [of st' ?st] by (intro exI [of _ 0]) simp
next
  case M2S_TERMINATE
  then have t: "send_termination_to_workers env st = Inr st'" using assms by simp
  show ?thesis using books_eqD [OF send_termination_frame [OF t]] by (intro exI [of _ 0]) simp
qed (use assms in simp)

section \<open>The invariant\<close>

definition sizes_ok ::
    "'p server_env \<Rightarrow> 'p worker_env \<Rightarrow> 'p server \<Rightarrow> 'p worker list \<Rightarrow> 'p worker_message list list \<Rightarrow> bool" where
  "sizes_ok senv wenv st ws ups \<longleftrightarrow> (\<forall>k < accepted st. default_max_cmd_length \<le> current_server_max_cmd_length (ws ! k) \<and>
     (\<forall>i < length (work_units st). work_units st ! i = accept senv k \<longrightarrow>
        fits_buffer wenv (worker_comm_buffers st ! i) (ups ! k) (current_server_max_cmd_length (ws ! k))))"

lemma message_sizes:
  assumes inv: "system_inv senv wenv st ws ups downs" and sz: "sizes_ok senv wenv st ws ups"
    and k: "k < accepted st" "ups ! k = m # rest" and i: "i < length (work_units st)" "work_units st ! i = accept senv k"
    and grows: "\<And>c n. c \<le> grown senv c n" and run: "process_worker_cmd senv i 0 (arriving wenv m) st = Inr st'"
    and acc: "accepted st' = accepted st"
  shows "sizes_ok senv wenv st' ws (ups[k := rest])"
  unfolding sizes_ok_def acc
proof (intro allI impI conjI)
  have si: "server_inv senv st" and lens: "length ups = accepted st" using inv by (simp_all add: system_inv_def)
  have dist: "distinct (work_units st)" using si by (simp add: server_inv_def workers_inv_def)
  have kept: "buffers_kept st st'"
  proof (rule command_buffers [OF si _ grows run])
    fix len d assume "arriving wenv m = W2S_DONE_PROCESSING (len, Some d)"
    then have "m = Done_processing d" by (cases m) simp_all
    then show "done_ok st d" using report_done_ok(1) [OF inv k(1)] k(2) by blast
  qed
  fix j assume j: "j < accepted st"
  then show "default_max_cmd_length \<le> current_server_max_cmd_length (ws ! j)" using sz by (simp add: sizes_ok_def)
  fix x assume x: "x < length (work_units st')" "work_units st' ! x = accept senv j"
  obtain y where y: "y < length (work_units st)" "work_units st ! y = accept senv j"
    "worker_comm_buffers st ! y \<le> worker_comm_buffers st' ! x"
    using kept x unfolding buffers_kept_def by metis
  have f: "fits_buffer wenv (worker_comm_buffers st ! y) (ups ! j) (current_server_max_cmd_length (ws ! j))"
    using sz j y by (simp add: sizes_ok_def)
  show "fits_buffer wenv (worker_comm_buffers st' ! x) (ups[k := rest] ! j) (current_server_max_cmd_length (ws ! j))"
  proof (cases "j = k")
    case False
    then show ?thesis using fits_buffer_mono [OF f y(3)] by simp
  next
    case True
    have f': "fits_buffer wenv (worker_comm_buffers st ! y) (m # rest) (current_server_max_cmd_length (ws ! k))"
      using f True k(2) by simp
    have "fits_buffer wenv (worker_comm_buffers st' ! x) rest (current_server_max_cmd_length (ws ! k))"
    proof (cases "\<exists>n. m = Server_req_max n")
      case False
      then have "fits_buffer wenv (worker_comm_buffers st ! y) rest (current_server_max_cmd_length (ws ! k))"
        using f' by (cases m) simp_all
      then show ?thesis using y(3) by (rule fits_buffer_mono)
    next
      case True
      then obtain n where n: "m = Server_req_max n" by blast
      note a = announcement_buffer [OF run [unfolded n arriving.simps]]
      have "work_units st ! x = work_units st ! i" "work_units st ! y = work_units st ! i" using a x y(2) i(2) \<open>j = k\<close> by simp_all
      then have "x = i" "y = i" using nth_eq_iff_index_eq [OF dist] x(1) y(1) i(1) a by auto
      then show ?thesis using f' n a by simp
    qed
    then show ?thesis using True k(1) lens by simp
  qed
qed

lemma server_moves_sizes:
  assumes inj: "inj (accept senv)" and inv: "net_inv senv wenv net"
    and sz: "sizes_ok senv wenv (net_server net) (net_workers net) (to_server net)"
    and grows: "\<And>c n. c \<le> grown senv c n" and moves: "server_moves senv wenv src cmd net = Some net'"
  shows "sizes_ok senv wenv (net_server net') (net_workers net') (to_server net')"
proof -
  obtain probe chans st where t: "server_takes senv wenv src net = Some (probe, chans)"
    "server_iteration senv (probe, cmd) (net_server net) = Inr st"
    and net': "net_server net' = st"
      "net_workers net' = net_workers net @ replicate (accepted st - accepted (net_server net)) worker_init"
      "to_server net' = chans @ replicate (accepted st - accepted (net_server net)) []"
    using moves by (auto simp: server_moves_def Let_def split: if_splits option.splits sum.splits)
  obtain st1 where st1: "worker_probe senv probe (net_server net) = Inr st1"
    "(case cmd of None \<Rightarrow> Inr st1 | Some c \<Rightarrow> process_manager_cmd senv c st1) = Inr st"
    using t(2) by (auto simp: server_iteration_def rbind_Inr_iff)
  obtain ms where p: "system_inv senv wenv st1 (net_workers net) chans (deliver senv ms (to_worker net))"
    "accepted st1 = accepted (net_server net)"
    using probe_keeps [OF inj inv t(1) st1(1)] by blast
  have 1: "sizes_ok senv wenv st1 (net_workers net) chans"
  proof (cases src)
    case None
    then have "chans = to_server net" "st1 = net_server net"
      using t(1) st1(1) by (auto simp: server_takes_def worker_probe_def split: if_splits)
    then show ?thesis using sz by simp
  next
    case (Some ik)
    obtain i k where ik: "ik = (i, k)" by force
    let ?s = "net_server net" and ?st = "(net_server net)\<lparr> work_unit_requests := (work_unit_requests (net_server net))[i := False] \<rparr>"
    obtain m rest where g: "i < length (work_units ?s)" "k < length (net_workers net)" "work_units ?s ! i = accept senv k"
      "to_server net ! k = m # rest" "probe = Some (int i, 0, arriving wenv m)" "chans = (to_server net)[k := rest]"
      using t(1) Some ik by (auto simp: server_takes_def split: if_splits list.splits)
    have "work_unit_requests ?s \<noteq> [] \<and> i < length (work_unit_requests ?s)"
      using inv g(1) by (auto simp: net_inv_def system_inv_def server_inv_def workers_inv_def)
    then have run': "process_worker_cmd senv i 0 (arriving wenv m) ?st = Inr st1"
      using st1(1) g(5) by (simp add: worker_probe_def)
    have inv': "system_inv senv wenv ?st (net_workers net) (to_server net) (to_worker net)"
      using inv by (simp add: net_inv_def system_inv_requests)
    have sz': "sizes_ok senv wenv ?st (net_workers net) (to_server net)" using sz by (simp add: sizes_ok_def)
    have k: "k < accepted ?st" using g(2) inv by (simp add: net_inv_def system_inv_def)
    show ?thesis unfolding g(6)
      by (rule message_sizes [OF inv' sz' k g(4) _ _ grows run']) (use g(1,3) p(2) in simp_all)
  qed
  obtain n where n: "accepted st = accepted st1 + n" "work_units st = work_units st1 @ map (\<lambda>i. accept senv (accepted st1 + i)) [0..<n]"
    "worker_comm_buffers st = worker_comm_buffers st1 @ replicate n default_max_cmd_length"
  proof (cases cmd)
    case None
    then show ?thesis using that [of 0] st1(2) by simp
  next
    case (Some c)
    then show ?thesis using that st1(2) manager_buffers [of senv c st1 st] by auto
  qed
  have lens: "length (net_workers net) = accepted st1" "length chans = accepted st1"
    "length (worker_comm_buffers st1) = length (work_units st1)" "set (work_units st1) \<subseteq> accept senv ` {..<accepted st1}"
    using p(1) by (auto simp: system_inv_def server_inv_def workers_inv_def)
  show ?thesis unfolding sizes_ok_def net' p(2) [symmetric] n(1)
  proof (intro allI impI conjI)
    fix k assume k: "k < accepted st1 + n"
    let ?ws = "net_workers net @ replicate (accepted st1 + n - accepted st1) worker_init"
    show "default_max_cmd_length \<le> current_server_max_cmd_length (?ws ! k)"
      using 1 k lens by (auto simp: sizes_ok_def nth_append worker_init_def)
    fix i assume i: "i < length (work_units st)" "work_units st ! i = accept senv k"
    show "fits_buffer wenv (worker_comm_buffers st ! i) ((chans @ replicate (accepted st1 + n - accepted st1) []) ! k)
        (current_server_max_cmd_length (?ws ! k))"
    proof (cases "i < length (work_units st1)")
      case True
      then have u: "work_units st1 ! i = accept senv k" using i(2) n(2) by (simp add: nth_append)
      then have "accept senv k \<in> accept senv ` {..<accepted st1}" using lens(4) True nth_mem by (metis subsetD)
      then have "k < accepted st1" using injD [OF inj] by auto
      then show ?thesis using 1 True u lens n(3) by (simp add: sizes_ok_def nth_append)
    next
      case False
      then obtain d where d: "i = length (work_units st1) + d" using le_Suc_ex [of "length (work_units st1)" i] by auto
      moreover have "d < n" using i(1) n(2) d by simp
      ultimately have "accept senv (accepted st1 + d) = accept senv k" using i(2) n(2) by (simp add: nth_append)
      then have "k = accepted st1 + d" using injD [OF inj] by metis
      then show ?thesis using d \<open>d < n\<close> lens n(3) by (simp add: nth_append worker_init_def)
    qed
  qed
qed

lemma worker_moves_sizes:
  assumes inv: "net_inv senv wenv net" and sz: "sizes_ok senv wenv (net_server net) (net_workers net) (to_server net)"
    and k: "k < length (net_workers net)" and moves: "worker_moves wenv k ev chan net = Some net'"
  shows "sizes_ok senv wenv (net_server net') (net_workers net') (to_server net')"
proof -
  let ?w = "net_workers net ! k"
  obtain w' where step: "worker_step wenv ev ?w = Some (Inr w')"
    and net': "net_server net' = net_server net" "net_workers net' = (net_workers net)[k := w']"
      "to_server net' = (to_server net)[k := to_server net ! k @ drop (length (w_sent ?w)) (w_sent w')]"
    using moves by (auto simp: worker_moves_def Let_def split: option.splits sum.splits)
  have lens: "length (net_workers net) = accepted (net_server net)" "length (to_server net) = accepted (net_server net)"
    using inv by (simp_all add: net_inv_def system_inv_def)
  have d: "default_max_cmd_length \<le> current_server_max_cmd_length ?w" using sz k lens by (simp add: sizes_ok_def)
  note p = worker_step_pays [OF step]
  have "default_max_cmd_length \<le> current_server_max_cmd_length w'"
    using p d by (auto simp: pays_def announces_def)
  then show ?thesis
    using sz k lens pays_fits(1) [OF p _ d] unfolding sizes_ok_def net' by (auto simp: nth_list_update)
qed

theorem reachable_sizes:
  assumes inj: "inj (accept senv)" and grows: "\<And>c n. c \<le> grown senv c n"
  shows "reachable senv wenv net \<Longrightarrow> sizes_ok senv wenv (net_server net) (net_workers net) (to_server net)"
proof (induction rule: reachable.induct)
  case reachable_init
  show ?case by (simp add: sizes_ok_def network_init_def server_init_def)
next
  case (reachable_step net ev net')
  have inv: "net_inv senv wenv net" by (rule reachable_inv [OF inj reachable_step(1)])
  note worker = worker_moves_sizes [OF inv reachable_step.IH]
  show ?case
  proof (cases ev)
    case (Server_round src cmd)
    then show ?thesis using server_moves_sizes [OF inj inv reachable_step.IH grows] reachable_step(2) by simp
  next
    case (Thread k i m)
    then show ?thesis using worker reachable_step(2) by (auto split: if_splits)
  next
    case (Main_polls k arrived)
    then show ?thesis using worker reachable_step(2) by (auto split: if_splits list.splits)
  next
    case (Main_takes k)
    then show ?thesis using worker reachable_step(2) by (auto split: if_splits list.splits)
  qed
qed

text \<open>So the next message of a worker fits the buffer it is received in.\<close>

lemma next_message_fits:
  assumes inj: "inj (accept senv)" and grows: "\<And>c n. c \<le> grown senv c n" and r: "reachable senv wenv net"
    and k: "k < length (net_workers net)" "to_server net ! k = m # rest"
    and i: "index < length (work_units (net_server net))" "work_units (net_server net) ! index = accept senv k"
  shows "case m of Server_req_max n \<Rightarrow> 0 < n \<and> n \<le> absolute_max_cmd_length
    | _ \<Rightarrow> message_size wenv m \<le> worker_comm_buffers (net_server net) ! index"
proof -
  have "net_inv senv wenv net" by (rule reachable_inv [OF inj r])
  then have "k < accepted (net_server net)" using k(1) by (simp add: net_inv_def system_inv_def)
  then have "fits_buffer wenv (worker_comm_buffers (net_server net) ! index) (m # rest)
      (current_server_max_cmd_length (net_workers net ! k))"
    using reachable_sizes [OF inj grows r] i k(2) unfolding sizes_ok_def k(2) [symmetric] by blast
  then show ?thesis by (cases m) simp_all
qed

end
