(* ===== verification/Worker_Properties.thy ===== *)
theory Worker_Properties
  imports Worker_Correct Input_Limits
begin

text \<open>
  The properties of a worker process: the accounts of its threads and instances in every
  reachable state, the end of every schedule after the order to stop, and the states in which
  it waits for ever or dies without taking its leave.
\<close>

section \<open>Accounts\<close>


definition example_worker_env :: "string option \<Rightarrow> real worker_env" where
  "example_worker_env content = \<lparr> we_arith = double_ops, we_pfi = \<lparr> poly_eps = 9 / 10, poly_cb = 103 / 50 \<rparr>,
     we_tolerated = True, we_length = (\<lambda>_. 4), we_grown = (\<lambda>cap n. max cap n), we_file = (\<lambda>_. content) \<rparr>"

definition example_job :: job where
  "example_job = \<lparr> job_metadata = \<lparr> anzahl_startbelegungen = 2, anzahl_flips = 9, filename = ''a.cnf'' \<rparr>,
     num_instances_to_start = 2, job_task_id = 0 \<rparr>"

lemma unat_two: "unat (2 :: u32) = 2"
  by simp

text \<open>A worker that is activated, asks for two instances and gets them.\<close>

definition activated_worker :: "real worker" where
  "activated_worker = start_threads worker_init"

lemma activated_worker_eq:
  "activated_worker = worker_init\<lparr> w_threads := [Polling, Polling], w_instances_to_get := 2, w_main := Looping \<rparr>"
proof -
  have two: "unat (2 :: u32) = Suc (Suc 0)" by simp
  show ?thesis unfolding activated_worker_def start_threads_def num_probsat_threads_per_worker_def two by simp
qed

definition asking_worker :: "real worker" where
  "asking_worker = activated_worker\<lparr> w_sent := [Get_instances 2], w_main := Receiving 2 \<rparr>"

definition supplied_worker :: "real worker" where
  "supplied_worker = asking_worker\<lparr> w_formulas := [tautology_formula],
     w_tasks := replicate 2 (task_new double_ops (job_metadata example_job) 0 0),
     w_instances_to_get := 0, w_main := Looping \<rparr>"

lemma asking_worker_reached:
  "worker_run (example_worker_env content) 0 activated_worker"
  "worker_run (example_worker_env content) 0 asking_worker"
proof -
  let ?env = "example_worker_env content"
  have a: "worker_step ?env (Main_receives S2W_ACTIVATE_WORKER) worker_init = Some (Inr activated_worker)"
    by (simp add: worker_init_def receive_server_cmd_def main_catch_def activated_worker_def)
  show run: "worker_run ?env 0 activated_worker" using worker_run.run_step [OF run_init _ a] by simp
  have "worker_step ?env (Main_round None) activated_worker = Some (Inr asking_worker)"
    by (simp add: activated_worker_def asking_worker_def start_threads_def worker_init_def main_loop_round_def
        request_instances_def instances_buffered_def get_instances_send_def server_send_def ensure_length_def
        default_max_cmd_length_def example_worker_env_def thrown_def main_catch_def
        num_probsat_threads_per_worker_def)
  then show "worker_run ?env 0 asking_worker"
    using worker_run.run_step [OF run, where ev = "Main_round None" and w' = asking_worker] by simp
qed

lemma asking_worker_simps:
  "w_main asking_worker = Receiving 2" "w_running asking_worker" "w_capacity asking_worker = 1024"
  by (simp_all add: asking_worker_def activated_worker_def start_threads_def worker_init_def
      default_max_cmd_length_def)

lemma supplied_worker_reached: "worker_run (example_worker_env (Some tautology_file)) 2 supplied_worker"
proof -
  let ?env = "example_worker_env (Some tautology_file)" and ?ev = "Main_receives (S2W_SEND_INSTANCES (40, Some [example_job]))"
  have "clauses formula_new = []" by (simp add: formula_new_def)
  then have F: "initialize_sharing True (we_file ?env f) formula_new = Some (Inr tautology_formula)" for f
    by (simp add: initialize_sharing_def example_worker_env_def tautology_initialized)
  have t: "jobs_total [example_job] = 2" by (simp add: jobs_total_def example_job_def)
  have "worker_step ?env ?ev asking_worker = Some (Inr supplied_worker)"
    using F by (simp add: receive_server_cmd_def asking_worker_simps process_s2w_send_instances_def received_def
        get_bytes_recieved_safe_def get_count_recieved_safe_def safe_deserialization_def main_catch_def)
      (simp add: example_worker_env_def example_job_def supplied_worker_def asking_worker_def activated_worker_def
        start_threads_def worker_init_def num_probsat_threads_per_worker_def unat_two)
  then have "worker_run ?env (0 + granted ?ev asking_worker) supplied_worker"
    by (intro worker_run.run_step [OF asking_worker_reached(2)])
      (simp_all add: asking_worker_simps t del: worker_step.simps)
  moreover have "0 + granted ?ev asking_worker = 2" using t by (simp add: asking_worker_simps)
  ultimately show ?thesis by (simp only:)
qed


section \<open>Stopping\<close>

text \<open>After the order to stop every step of the process reduces a measure.\<close>

fun thread_cost :: "'p thread \<Rightarrow> nat" where
  "thread_cost Polling = 1"
| "thread_cost (Holding t) = 1"
| "thread_cost (Executed t) = 3"
| "thread_cost Ended = 0"

fun main_cost :: "main_thread \<Rightarrow> nat" where
  "main_cost Looping = 2"
| "main_cost Joining = 1"
| "main_cost _ = 0"

definition stop_measure :: "'p worker \<Rightarrow> nat" where
  "stop_measure w = sum_list (map thread_cost (w_threads w)) + length (w_tasks_done w) + main_cost (w_main w)"

definition stopping :: "'p worker \<Rightarrow> bool" where
  "stopping w \<longleftrightarrow> \<not> w_running w \<and> (w_main w = Looping \<or> w_main w = Joining \<or>
     w_main w = Finished \<and> last (w_sent w) = Disconnect)"

lemma stop_measure_thread:
  "i < length (w_threads w) \<Longrightarrow>
   stop_measure (set_thread i th w) + thread_cost (w_threads w ! i) = stop_measure w + thread_cost th"
  using sum_update [of i "w_threads w" thread_cost th] by (simp add: stop_measure_def)

lemma stop_measure_bound: "stop_measure w \<le> 3 * length (w_threads w) + length (w_tasks_done w) + 2"
proof -
  have c: "thread_cost th \<le> 3" for th :: "'a thread" by (cases th) auto
  have "sum_list (map thread_cost ths) \<le> 3 * length ths" for ths :: "'a thread list"
    by (induction ths) (use c in \<open>auto intro: add_mono\<close>)
  from this [of "w_threads w"] show ?thesis by (cases "w_main w") (simp_all add: stop_measure_def)
qed

lemma thread_stop_step:
  assumes step: "worker_func env i m w = Some (Inr w')" and stop: "stopping w"
  shows "stop_measure w' < stop_measure w \<and> stopping w'"
  using step
proof (cases rule: worker_func_cases)
  case stop: stop
  then show ?thesis using stop_measure_thread [of i w Ended] assms(2) by (auto simp: stopping_def)
next
  case (finish t)
  then have "stop_measure w' + 3 = stop_measure w + 2"
    using stop_measure_thread [of i "w\<lparr> w_tasks_done := w_tasks_done w @ [t],
        w_instances_to_get := w_instances_to_get w + 1 \<rparr>" Polling] by (simp add: stop_measure_def)
  then show ?thesis using finish stop by (simp add: stopping_def)
qed (use stop in \<open>simp_all add: stopping_def\<close>)

lemma main_stop_step:
  assumes step: "worker_step env (Main_round probe) w = Some (Inr w')" and stop: "stopping w"
  shows "stop_measure w' < stop_measure w \<and> stopping w'"
proof (cases "w_main w")
  case Looping
  then have "w' = w\<lparr> w_main := Joining \<rparr>"
    using step stop by (simp add: stopping_def main_loop_round_def main_catch_def)
  then show ?thesis using Looping stop by (simp add: stopping_def stop_measure_def)
next
  case Joining
  then have j: "map_option (main_catch w) (main_join env w) = Some (Inr w')" using step by simp
  have e: "list_all (\<lambda>th. th = Ended) (w_threads w)" using j by (simp add: main_join_def split: if_splits)
  show ?thesis
  proof (cases "w_tasks_done w")
    case Nil
    then have "w' = leave_server w" using j e by (simp add: main_join_def main_catch_def)
    then show ?thesis using Joining stop by (simp add: stopping_def stop_measure_def leave_server_def)
  next
    case (Cons t ts)
    then have "main_catch w (return_task env t (w\<lparr> w_tasks_done := ts \<rparr>)) = Inr w'"
      using j e by (simp add: main_join_def)
    then consider "return_task env t (w\<lparr> w_tasks_done := ts \<rparr>) = Inr w'"
      | err v where "return_task env t (w\<lparr> w_tasks_done := ts \<rparr>) = Inl (err, v)" "w' = leave_server v"
      by (auto simp: main_catch_Inr)
    then show ?thesis
    proof cases
      case 1
      then show ?thesis using return_task_frame [OF 1] Cons Joining stop
        by (auto simp: same_books_def stopping_def stop_measure_def)
    next
      case 2
      then show ?thesis using return_task_Inl [OF 2(1)] Cons Joining stop
        by (auto simp: same_books_def stopping_def stop_measure_def leave_server_def)
    qed
  qed
qed (use step in simp_all)

lemma stop_step:
  assumes "worker_step env ev w = Some (Inr w')" and stop: "stopping w"
  shows "stop_measure w' < stop_measure w \<and> stopping w'"
proof (cases ev)
  case (Main_receives msg)
  then show ?thesis using assms by (auto simp: stopping_def receive_server_cmd_def)
qed (use assms thread_stop_step main_stop_step in \<open>simp_all del: worker_step.simps(2)\<close>)

lemma stop_steps:
  "worker_steps env evs w = Some (Inr w') \<Longrightarrow> stopping w \<Longrightarrow>
   length evs + stop_measure w' \<le> stop_measure w \<and> stopping w'"
proof (induction evs arbitrary: w)
  case (Cons ev evs)
  then obtain v where v: "worker_step env ev w = Some (Inr v)" "worker_steps env evs v = Some (Inr w')"
    by (auto split: option.splits sum.splits)
  then show ?case using stop_step [OF v(1) Cons.prems(2)] Cons.IH [OF v(2)] by auto
qed simp

lemma stop_progress:
  assumes "stopping w" "w_main w \<noteq> Finished"
  shows "\<exists>ev. worker_step env ev w \<noteq> None"
proof (cases "w_main w = Looping")
  case True
  then have "worker_step env (Main_round None) w \<noteq> None"
    using assms by (simp add: stopping_def main_loop_round_def)
  then show ?thesis by blast
next
  case False
  then have j: "w_main w = Joining" using assms by (simp add: stopping_def)
  show ?thesis
  proof (cases "list_all (\<lambda>th. th = Ended) (w_threads w)")
    case True
    then have "worker_step env (Main_round None) w \<noteq> None" using j by (simp add: main_join_def)
    then show ?thesis by blast
  next
    case False
    then obtain i where i: "i < length (w_threads w)" "w_threads w ! i \<noteq> Ended" by (auto simp: list_all_length)
    then have "worker_step env (Thread_runs i m) w \<noteq> None" for m
      using assms(1) by (cases "w_threads w ! i") (auto simp: worker_func_def stopping_def)
    then show ?thesis by blast
  qed
qed



section \<open>Where a worker does not end well\<close>

text \<open>
  A worker that was not activated yet does not act on the order to terminate. It notes it,
  but neither a round of the main loop nor a step of a thread is possible before the
  activation comes, so it does not take its leave of the server.
\<close>

theorem early_termination_waits:
  assumes "worker_run env k w" and "w_main w = Awaiting_activation"
  shows "worker_step env (Main_receives S2W_TERMINATE) w = Some (Inr (w\<lparr> w_running := False \<rparr>)) \<and>
    (\<forall>probe. worker_step env (Main_round probe) (w\<lparr> w_running := False \<rparr>) = None) \<and>
    (\<forall>i m. worker_step env (Thread_runs i m) (w\<lparr> w_running := False \<rparr>) = None)"
proof -
  have "w_threads w = []"
    using worker_run_keeps [OF assms(1)] assms(2) by (simp add: worker_inv_def)
  then show ?thesis
    using assms(2) by (simp add: receive_server_cmd_def main_catch_def worker_func_def)
qed

theorem early_termination_waits_witness:
  "worker_step (example_worker_env None) (Main_round None) (worker_init\<lparr> w_running := False \<rparr>) = None"
  using early_termination_waits [OF run_init, of "example_worker_env None"] by (simp add: worker_init_def)



text \<open>
  A task that could not be executed. \<open>execute\<close> catches the exception and leaves the
  report as it was, with no instance processed. When the main thread returns such a task it
  throws: in its loop this ends the process without a disconnection; after the loop it is
  caught, and the results behind the task in the queue are dropped.
\<close>

theorem failed_task_ends_worker:
  assumes "w_tasks_done w = t # ts" and "\<not> dp_solved (t_dpi t)" and "dp_instances_processed (t_dpi t) = 0"
  shows "(\<forall>e F content m. initialize_sharing (we_tolerated env) content F = Some (Inl e) \<and> is_exception e \<longrightarrow>
      execute (we_arith env) (we_pfi env) (we_tolerated env) content m t F = Some (Inr (F, t))) \<and>
    (w_main w = Looping \<and> w_running w \<longrightarrow>
      worker_step env (Main_round probe) w = Some (Inl (Runtime_error ''worker was unable to solve task!''))) \<and>
    (w_main w = Joining \<and> (\<forall>th \<in> set (w_threads w). th = Ended) \<longrightarrow>
      worker_step env (Main_round probe) w = Some (Inr (leave_server (w\<lparr> w_tasks_done := ts \<rparr>))))"
proof (intro conjI impI allI)
  show "execute (we_arith env) (we_pfi env) (we_tolerated env) content m t F = Some (Inr (F, t))"
    if "initialize_sharing (we_tolerated env) content F = Some (Inl e) \<and> is_exception e" for e F content m
    using that by (simp add: execute_def)
qed (use assms in \<open>simp_all add: main_loop_round_def main_join_def return_task_def main_catch_def list_all_iff\<close>)

theorem failed_task_ends_worker_witness:
  "worker_step (example_worker_env None) (Main_round None) (activated_worker\<lparr> w_tasks_done :=
     [task_new double_ops (job_metadata example_job) 0 0] \<rparr>) = Some (Inl (Runtime_error ''worker was unable to solve task!''))"
  using failed_task_ends_worker [of "activated_worker\<lparr> w_tasks_done :=
      [task_new double_ops (job_metadata example_job) 0 0] \<rparr>" "task_new double_ops (job_metadata example_job) 0 0" "[]"
      "example_worker_env None" None]
  by (simp add: task_new_def done_processing_info_default_def activated_worker_eq worker_init_def del: worker_step.simps)

end
