(* ===== verification/System.thy ===== *)
theory System
  imports Network_Sizes Worker_Properties Manager_Properties
begin

text \<open>
  Where the models of the processes meet. The invariant of the system of the server and its
  workers gives what neither process shows by itself: the counters of the server are the
  instances that are on their way, and the hypotheses that the theorems about the server make
  of a report hold for every report that arrives.
\<close>

section \<open>A run of the system\<close>

fun net_run :: "'p server_env \<Rightarrow> 'p worker_env \<Rightarrow> 'p net_event list \<Rightarrow> 'p network \<Rightarrow> 'p network option" where
  "net_run senv wenv [] net = Some net"
| "net_run senv wenv (ev # evs) net =
     (if length (available_tasks (net_server net)) < 2 ^ 32
      then Option.bind (net_step senv wenv ev net) (net_run senv wenv evs) else None)"

lemma net_run_reachable:
  "reachable senv wenv net \<Longrightarrow> net_run senv wenv evs net = Some net' \<Longrightarrow> reachable senv wenv net'"
proof (induction evs arbitrary: net)
  case (Cons ev evs)
  then obtain net1 where net1: "net_step senv wenv ev net = Some net1" "net_run senv wenv evs net1 = Some net'"
    "length (available_tasks (net_server net)) < 2 ^ 32"
    by (auto simp: bind_eq_Some_conv split: if_splits)
  show ?case by (rule Cons.IH [OF reachable_step [OF Cons.prems(1) net1(1,3)] net1(2)])
qed simp

text \<open>
  A file with one instance to start, one worker; it is activated, asks for two instances, and
  gets the one there is.
\<close>

definition small_file :: string where
  "small_file = dimacs 1 [[1], [-1]]"

definition double_server_env :: "real server_env" where
  "double_server_env = \<lparr> arith = double_ops, encoded_length = length, grown = max,
     comm_size = (\<lambda>c. 1), accept = Suc, past_end = Some 0 \<rparr>"

definition small_metadata :: problem_instance_metadata where
  "small_metadata = \<lparr> anzahl_startbelegungen = 1, anzahl_flips = 9, filename = ''a.cnf'' \<rparr>"

definition first_events :: "real net_event list" where
  "first_events = [Server_round None (Some (M2S_ADD_FILE (12, Some small_metadata))),
     Server_round None (Some (M2S_ADD_WORKERS 1 1)), Main_takes 0, Main_polls 0 False,
     Server_round (Some (0, 0)) None]"

abbreviation "small_worker_env \<equiv> example_worker_env (Some small_file)"

definition answered_net :: "real network" where
  "answered_net = (case net_run double_server_env small_worker_env first_events network_init of
     Some net \<Rightarrow> net | None \<Rightarrow> network_init)"

lemma asking_step: "worker_step (example_worker_env content) (Main_round None) activated_worker = Some (Inr asking_worker)"
  by (simp add: activated_worker_def asking_worker_def start_threads_def worker_init_def main_loop_round_def
      request_instances_def instances_buffered_def get_instances_send_def server_send_def ensure_length_def
      default_max_cmd_length_def example_worker_env_def thrown_def main_catch_def
      num_probsat_threads_per_worker_def)

lemma activating_step:
  "worker_step (example_worker_env content) (Main_receives S2W_ACTIVATE_WORKER) worker_init = Some (Inr activated_worker)"
  by (simp add: worker_init_def receive_server_cmd_def main_catch_def activated_worker_def)

lemma example_workers_sent [simp]:
  "w_sent worker_init = []" "w_sent activated_worker = []" "w_sent asking_worker = [Get_instances 2]"
  by (simp_all add: worker_init_def asking_worker_def activated_worker_def start_threads_def)

lemma example_lengths: "we_length (example_worker_env content) items = 4"
  by (simp add: example_worker_env_def)

lemmas net_exec = server_exec network_init_def server_moves_def server_takes_def worker_moves_def deliver_def
  small_metadata_def double_server_env_def example_lengths processing_count_def

lemma answered_net_run:
  "\<exists>net. net_run double_server_env small_worker_env first_events network_init = Some net \<and>
     net_workers net = [asking_worker] \<and> to_server net = [[]] \<and>
     (\<exists>len. to_worker net = [[S2W_SEND_INSTANCES (len, Some [\<lparr> job_metadata = small_metadata,
       num_instances_to_start = 1, job_task_id = 0 \<rparr>])]] \<and> 0 \<le> len \<and> len \<le> 1024) \<and>
     work_units (net_server net) = [1] \<and> map processing_count (available_tasks (net_server net)) = [1] \<and>
     length (available_tasks (net_server net)) = 1"
  by (simp add: first_events_def net_exec asking_step activating_step del: worker_step.simps)

text \<open>A thread executes the task; then the main thread reports it.\<close>

definition measured_once :: "real measured" where
  "measured_once = \<lparr> m_running = (\<lambda>_. True), m_seed = 5, m_init = 1, m_solve = 1, m_overall = 2,
     m_fps = (\<lambda>n d. of_nat n), m_mem = (\<lambda>_. 7), m_junk = (\<lambda>_. 0) \<rparr>"

definition later_events :: "real net_event list" where
  "later_events = [Main_takes 0, Thread 0 0 measured_once, Thread 0 0 measured_once, Thread 0 0 measured_once,
     Main_polls 0 False]"

lemma small_file_initialized:
  "\<exists>F. initialize_formula (Some small_file) formula_new = Some (Inr F) \<and> formula_ok F \<and>
     num_variables F = 1 \<and> clauses F = [[1], [-1]]"
  unfolding small_file_def
proof (rule initialize_formula_printed)
  show "clean_clauses 1 [[1], [-1]]" by (simp add: clean_clauses_def clean_clause_def)
  show "\<forall>l. lit_count [[1], [-1]] l < 2 ^ 15"
    using le_less_trans [OF lit_count_le [of "[[1], [-1]]"], of "2 ^ 15"] by simp
  have "bucket_offset [[1], [-1]] 1 = 2"
    by (simp add: bucket_offset_def lessThan_Suc lit_count_def occurrences_def upt_rec)
  then show "bucket_offset [[1], [-1]] (nat 1) < 2 ^ 31" by simp
qed simp_all

lemma small_file_unsat: "\<not> satisfies \<sigma> [[1], [-1]]"
  by (simp add: satisfies_def lit_true_def)

lemma reporting_net_run:
  assumes net: "net_workers net = [asking_worker]" "to_server net = [[]]"
    and down: "to_worker net = [[S2W_SEND_INSTANCES (len, Some [\<lparr> job_metadata = small_metadata,
       num_instances_to_start = 1, job_task_id = 0 \<rparr>])]]" "0 \<le> len" "len \<le> 1024"
    and small: "length (available_tasks (net_server net)) < 2 ^ 32"
  shows "\<exists>net' d. net_run double_server_env small_worker_env later_events net = Some net' \<and>
     net_server net' = net_server net \<and> to_server net' = [[Done_processing d]] \<and> dp_task_id d = 0 \<and>
     dp_instances_processed d = 1 \<and> length (net_workers net') = 1 \<and> (\<forall>w \<in> set (net_workers net'). w_running w)"
proof -
  let ?env = small_worker_env and ?t = "task_new double_ops small_metadata 0 0"
    and ?job = "\<lparr> job_metadata = small_metadata, num_instances_to_start = 1, job_task_id = 0 \<rparr>"
  obtain F where F: "initialize_formula (Some small_file) formula_new = Some (Inr F)" "formula_ok F"
    "clauses F = [[1], [-1]]" using small_file_initialized by blast
  have "clauses formula_new = []" by (simp add: formula_new_def)
  then have i: "initialize_sharing True (Some small_file) formula_new = Some (Inr F)"
    using F(1) by (simp add: initialize_sharing_def)
  have cne: "clauses F \<noteq> []" using F(3) by simp
  have eps: "0 < poly_eps (we_pfi ?env)" by (simp add: example_worker_env_def)
  obtain t' \<sigma> where t': "execute double_ops (we_pfi ?env) True (Some small_file) measured_once ?t F = Some (Inr (F, t'))"
    "t_name t' = t_name ?t" "dp_task_id (t_dpi t') = dp_task_id (t_dpi ?t)" "dp_instances_processed (t_dpi t') = 1"
    "dp_solved (t_dpi t') = satisfies \<sigma> (clauses F)"
    using execute_ok [OF F(2) cne eps task_new_limits, of True "Some small_file" measured_once] by blast
  have solved: "\<not> dp_solved (t_dpi t')" using t'(5) F(3) small_file_unsat by simp
  have tid: "dp_task_id (t_dpi t') = 0" using t'(3) by (simp add: task_new_def done_processing_info_default_def)
  have env: "we_arith ?env = double_ops" "we_tolerated ?env" "we_file ?env name = Some small_file"
    "we_length ?env items = 4" "we_grown ?env = max" for name items
    by (simp_all add: example_worker_env_def)
  define w1 where "w1 = asking_worker\<lparr> w_formulas := [F], w_tasks := [?t], w_instances_to_get := 1, w_main := Looping \<rparr>"
  define w2 where "w2 = w1\<lparr> w_tasks := [], w_threads := [Holding ?t, Polling] \<rparr>"
  define w3 where "w3 = w1\<lparr> w_tasks := [], w_threads := [Executed t', Polling] \<rparr>"
  define w4 where "w4 = w1\<lparr> w_tasks := [], w_threads := [Polling, Polling], w_tasks_done := [t'], w_instances_to_get := 2 \<rparr>"
  define w5 where "w5 = w4\<lparr> w_tasks_done := [], w_sent := [Get_instances 2, Done_processing (t_dpi t')] \<rparr>"
  note ws = w1_def w2_def w3_def w4_def w5_def asking_worker_def activated_worker_eq worker_init_def
  have "clauses formula_new = []" by (simp add: formula_new_def)
  have s1: "worker_step ?env (Main_receives (S2W_SEND_INSTANCES (len, Some [\<lparr> job_metadata = small_metadata,
      num_instances_to_start = 1, job_task_id = 0 \<rparr>]))) asking_worker = Some (Inr w1)"
  proof -
    have "received worker_header ''SEND_INSTANCES'' 0 (w_capacity asking_worker) (len, Some [?job]) = Inr [?job]"
      using down(2,3) by (simp add: received_Inr asking_worker_simps)
    then show ?thesis
      by (simp add: receive_server_cmd_def asking_worker_simps process_s2w_send_instances_def env i main_catch_def)
        (simp add: ws)
  qed
  have s2: "worker_step ?env (Thread_runs 0 measured_once) w1 = Some (Inr w2)"
    by (simp add: ws worker_func_def get_task_def set_thread_def)
  have name: "t_cnf ?t = 0" by (simp add: task_new_def)
  have s3: "worker_step ?env (Thread_runs 0 measured_once) w2 = Some (Inr w3)"
    using t'(1) by (simp add: ws worker_func_def execute_task_def set_thread_def env name vget_def)
  have s4: "worker_step ?env (Thread_runs 0 measured_once) w3 = Some (Inr w4)"
    by (simp add: ws worker_func_def set_thread_def)
  have s5: "worker_step ?env (Main_round None) w4 = Some (Inr w5)"
    using t'(4) solved
    by (simp add: ws main_loop_round_def return_task_def server_send_def env ensure_length_def default_max_cmd_length_def
        thrown_def main_catch_def)
  have len: "w_sent w1 = [Get_instances 2]" "w_sent w2 = [Get_instances 2]" "w_sent w3 = [Get_instances 2]"
    "w_sent w4 = [Get_instances 2]" "w_sent w5 = [Get_instances 2, Done_processing (t_dpi t')]" "w_running w5"
    by (simp_all add: ws)
  show ?thesis
    using net down(1) small tid t'(4) len
    by (simp add: later_events_def worker_moves_def s1 s2 s3 s4 s5 del: worker_step.simps)
qed

lemma reporting_net:
  "\<exists>(net :: real network) d. reachable double_server_env small_worker_env net \<and> to_server net = [[Done_processing d]] \<and>
     dp_task_id d = 0 \<and> dp_instances_processed d = 1 \<and> length (net_workers net) = 1 \<and>
     (\<forall>w \<in> set (net_workers net). w_running w) \<and> length (available_tasks (net_server net)) = 1 \<and>
     map processing_count (available_tasks (net_server net)) = [1] \<and> work_units (net_server net) = [1]"
proof -
  obtain net len where net: "net_run double_server_env small_worker_env first_events network_init = Some net"
    "net_workers net = [asking_worker]" "to_server net = [[]]" "to_worker net = [[S2W_SEND_INSTANCES (len, Some
      [\<lparr> job_metadata = small_metadata, num_instances_to_start = 1, job_task_id = 0 \<rparr>])]]" "0 \<le> len" "len \<le> 1024"
    "work_units (net_server net) = [1]" "map processing_count (available_tasks (net_server net)) = [1]"
    "length (available_tasks (net_server net)) = 1"
    using answered_net_run by (elim exE conjE) (rule that)
  have r: "reachable double_server_env small_worker_env net" by (rule net_run_reachable [OF reachable_init net(1)])
  have "length (available_tasks (net_server net)) < 2 ^ 32" using net(9) by simp
  from reporting_net_run [OF net(2-6) this] obtain net' d where n:
    "net_run double_server_env small_worker_env later_events net = Some net'"
    "net_server net' = net_server net" "to_server net' = [[Done_processing d]]" "dp_task_id d = 0"
    "dp_instances_processed d = 1" "length (net_workers net') = 1" "\<forall>w \<in> set (net_workers net'). w_running w" by blast
  show ?thesis using net_run_reachable [OF r n(1)] n net(7-9) by metis
qed

lemma double_server_inj: "inj (accept double_server_env)"
  by (simp add: double_server_env_def)

lemma double_server_grows: "\<forall>c n. c \<le> grown double_server_env c n"
  by (simp add: double_server_env_def)

section \<open>What the counters mean\<close>

text \<open>
  C8: The server's book-keeping is that of the whole system. In every state the server and its
  workers reach, in any order of their steps and of the arrival of messages: of each task, the
  instances sent to a worker, those a worker has in its queue, in work or executed, and those
  in reports on their way back are together at most the instances the server counts as being
  processed, and exactly those as long as no worker was told to stop; and what the server
  counts, together with what was returned, is never more than the file asks for. The server
  answers each request of a worker within its size and sends instances at no other time, so
  what is stated of a worker with such a server (\<open>worker_run\<close>) holds for every worker.
\<close>

theorem system_accounting:
  assumes "inj (accept senv)" and "reachable senv wenv net" and "i < length (available_tasks (net_server net))"
  shows "under_way i net \<le> processing_count (available_tasks (net_server net) ! i) \<and>
    ((\<forall>w \<in> set (net_workers net). w_running w) \<longrightarrow>
      under_way i net = processing_count (available_tasks (net_server net) ! i)) \<and>
    (required_count (available_tasks (net_server net) ! i) \<noteq> 0 \<longrightarrow>
      started_count (available_tasks (net_server net) ! i) + processing_count (available_tasks (net_server net) ! i)
        \<le> required_count (available_tasks (net_server net) ! i)) \<and>
    (\<forall>w \<in> set (net_workers net). \<exists>g. worker_run wenv g w)"
proof -
  have inv: "net_inv senv wenv net" by (rule reachable_inv [OF assms(1,2)])
  then have "task_ok (available_tasks (net_server net) ! i)"
    using assms(3) by (simp add: net_inv_def system_inv_def server_inv_def schedule_inv_def)
  moreover have "tallied (available_tasks (net_server net)) (net_workers net) (to_server net) (to_worker net)"
    using inv by (simp add: net_inv_def system_inv_def)
  moreover have "\<exists>g. worker_run wenv g w" if "w \<in> set (net_workers net)" for w
    using inv that by (auto simp: net_inv_def system_inv_def worker_ok_def in_set_conv_nth)
  ultimately show ?thesis using assms(3) by (simp add: tallied_def under_way_flow task_ok_def)
qed

theorem system_accounting_witness:
  "\<exists>net :: real network. reachable double_server_env small_worker_env net \<and> under_way 0 net = 1 \<and>
     processing_count (available_tasks (net_server net) ! 0) = 1 \<and> (\<exists>d. to_server net = [[Done_processing d]])"
proof -
  obtain net :: "real network" and d where n: "reachable double_server_env small_worker_env net"
    "to_server net = [[Done_processing d]]" "\<forall>w \<in> set (net_workers net). w_running w"
    "length (available_tasks (net_server net)) = 1" "map processing_count (available_tasks (net_server net)) = [1]"
    using reporting_net by (elim exE conjE) (rule that)
  have p: "processing_count (available_tasks (net_server net) ! 0) = 1"
    using n(4) arg_cong [OF n(5), of "\<lambda>xs. xs ! 0"] by simp
  have "0 < length (available_tasks (net_server net))" using n(4) by simp
  from system_accounting [OF double_server_inj n(1) this] show ?thesis
    using n(1-3) p by (intro exI [of _ net]) simp
qed

text \<open>
  C9: No message of a worker is refused for its size. In every reachable state the next message
  of a worker fits the buffer the server has for it, if encoding into a buffer never makes it
  smaller: a request, a report and a solution are taken as they were sent, and an announcement
  has a size the server accepts and makes the buffer at least that large.
\<close>

theorem messages_accepted:
  assumes "inj (accept senv)" and "\<forall>c n. c \<le> grown senv c n" and "reachable senv wenv net"
    and "k < length (net_workers net)" and "to_server net ! k = m # rest"
    and "index < length (work_units (net_server net))" and "work_units (net_server net) ! index = accept senv k"
  shows "case arriving wenv m of
      W2S_REQ_MAX_CMD_LENGTH p \<Rightarrow> 1 \<le> fst p \<and> fst p \<le> int int_max \<longrightarrow>
        (\<exists>n. m = Server_req_max n \<and>
          req_max_transfer_size_process server_header p (worker_comm_buffers (net_server net) ! index) =
            Inr (max (worker_comm_buffers (net_server net) ! index) n))
    | W2S_FOUND_SOLUTION p \<Rightarrow> (\<exists>info. m = Found_solution info \<and>
        w2s_found_solution_process (worker_comm_buffers (net_server net) ! index) p = Inr info)
    | W2S_DONE_PROCESSING p \<Rightarrow> (\<exists>d. m = Done_processing d \<and>
        done_processing_process (worker_comm_buffers (net_server net) ! index) p = Inr d)
    | W2S_GET_INSTANCES p \<Rightarrow> (\<exists>n. m = Get_instances n \<and>
        get_instances_process (worker_comm_buffers (net_server net) ! index) p = Inr n)
    | W2S_DISCONNECT \<Rightarrow> m = Disconnect
    | W2S_other x \<Rightarrow> False"
proof -
  have "\<And>c n. c \<le> grown senv c n" using assms(2) by blast
  from next_message_fits [OF assms(1) this assms(3-7)] show ?thesis
    by (cases m) (auto simp: received_Inr req_max_transfer_size_process_def rbind_Inr_iff)
qed

text \<open>
  C10: A report that arrives is one the server can take. In every reachable state, when the
  next message of a connected worker is a report, no check of the handler fails: the report
  fits the buffer, the task exists, it counts at least the reported instances as being
  processed, and the formula sizes agree with earlier reports. The server starts its ending
  only when nothing else is under way: then no instance of any task is at a worker or on its
  way, except those of the report itself.
\<close>

theorem arriving_report_accepted:
  assumes "inj (accept senv)" and "\<forall>c n. c \<le> grown senv c n" and "reachable senv wenv net"
    and "k < length (net_workers net)" and "to_server net ! k = Done_processing d # rest"
    and "index < length (work_units (net_server net))" and "work_units (net_server net) ! index = accept senv k"
    and "arriving wenv (Done_processing d) = W2S_DONE_PROCESSING p"
  shows "\<exists>st1. schedule_inv st1 \<and>
    process_w2s_DONE_PROCESSING senv index p (net_server net) =
      (if all_returned st1 then rbind (send_statistic_to_manager senv st1) (send_termination_to_workers senv) else Inr st1) \<and>
    (all_returned st1 \<longrightarrow> (\<forall>i. under_way i net = reported_back i (Done_processing d)))"
proof -
  let ?st = "net_server net" and ?i = "unat (dp_task_id d)"
  have inv: "system_inv senv wenv ?st (net_workers net) (to_server net) (to_worker net)"
    using reachable_inv [OF assms(1,3)] by (simp add: net_inv_def)
  then have si: "schedule_inv ?st" and k: "k < accepted ?st" and index: "index < length (worker_comm_buffers ?st)"
    using assms(4,6) by (simp_all add: system_inv_def server_inv_def workers_inv_def)
  have ok: "done_ok ?st d" by (rule report_done_ok(1) [OF inv k assms(5)])
  have "\<And>c n. c \<le> grown senv c n" using assms(2) by blast
  then have "message_size wenv (Done_processing d) \<le> worker_comm_buffers ?st ! index"
    using next_message_fits [OF assms(1) _ assms(3-7)] by simp
  then have "received server_header ''DONE_PROCESSING'' 0 (worker_comm_buffers ?st ! index) p = Inr d"
    using assms(8) by (auto simp: received_Inr)
  from done_processing_eq [OF si ok index this, of senv] obtain s where s: "schedule_inv (take_back ?st d s)"
    "process_w2s_DONE_PROCESSING senv index p ?st = (if all_returned (take_back ?st d s)
      then rbind (send_statistic_to_manager senv (take_back ?st d s)) (send_termination_to_workers senv)
      else Inr (take_back ?st d s))" by blast
  have "under_way i net = reported_back i (Done_processing d)"
    if ret: "all_returned (take_back ?st d s)" for i
  proof -
    have "outstanding i (net_workers net ! k) (to_server net ! k) (to_worker net ! k) \<le> under_way i net"
      unfolding under_way_flow by (rule outstanding_flow [OF assms(4)])
    then have ge: "reported_back i (Done_processing d) \<le> under_way i net"
      using assms(5) by (simp add: outstanding_def)
    have z: "processing_count t = 0" if "t \<in> set (available_tasks (take_back ?st d s))" for t
      using s(1) ret that by (auto simp: schedule_inv_def in_processing_def all_returned_def)
    have i: "?i < length (available_tasks ?st)" "unat (dp_instances_processed d) \<le> processing_count (available_tasks ?st ! ?i)"
      using ok by (simp_all add: done_ok_def)
    show ?thesis
    proof (cases "i < length (available_tasks ?st)")
      case True
      have le: "under_way i net \<le> processing_count (available_tasks ?st ! i)"
        using inv True by (simp add: system_inv_def tallied_def under_way_flow)
      have "processing_count (available_tasks (take_back ?st d s) ! i) = 0"
        by (rule z) (simp add: True take_back_def Let_def)
      then have "processing_count (available_tasks ?st ! i) \<le> reported_back i (Done_processing d)"
        using True i by (cases "i = ?i") (auto simp: take_back_def Let_def processing_count_def unat_sub word_le_nat_alt)
      then show ?thesis using le ge by simp
    next
      case False
      have "outstanding i (net_workers net ! j) (to_server net ! j) (to_worker net ! j) = 0" if "j < length (net_workers net)" for j
        by (rule outstanding_unknown [where env = wenv and mds = "map metadata (available_tasks ?st)"])
          (use inv that False in \<open>simp_all add: system_inv_def\<close>)
      then have "under_way i net = 0" by (simp add: under_way_def sum_list_eq_0_iff)
      then show ?thesis using i(1) False by auto
    qed
  qed
  then show ?thesis using s by (intro exI [of _ "take_back ?st d s"]) simp
qed

theorem messages_accepted_witness:
  "\<exists>(net :: real network) d len. reachable double_server_env small_worker_env net \<and> to_server net = [[Done_processing d]] \<and>
     arriving small_worker_env (Done_processing d) = W2S_DONE_PROCESSING (len, Some d) \<and>
     done_processing_process (worker_comm_buffers (net_server net) ! 0) (len, Some d) = Inr d"
proof -
  obtain net :: "real network" and d where n: "reachable double_server_env small_worker_env net"
    "to_server net = [[Done_processing d]]" "length (net_workers net) = 1" "work_units (net_server net) = [1]"
    using reporting_net by (elim exE conjE) (rule that)
  have k: "0 < length (net_workers net)" "to_server net ! 0 = Done_processing d # []"
    "0 < length (work_units (net_server net))" "work_units (net_server net) ! 0 = accept double_server_env 0"
    using n(2-4) by (simp_all add: double_server_env_def)
  show ?thesis
    using messages_accepted [OF double_server_inj double_server_grows n(1) k] n(1,2)
    by (intro exI [of _ net] exI [of _ d] exI [of _ "int (we_length small_worker_env (serialize_done_processing_info d))"]) simp
qed

theorem arriving_report_accepted_witness:
  "\<exists>(net :: real network) d p st1. reachable double_server_env small_worker_env net \<and> to_server net = [[Done_processing d]] \<and>
     schedule_inv st1 \<and> process_w2s_DONE_PROCESSING double_server_env 0 p (net_server net) =
       (if all_returned st1 then rbind (send_statistic_to_manager double_server_env st1)
          (send_termination_to_workers double_server_env) else Inr st1)"
proof -
  obtain net :: "real network" and d where n: "reachable double_server_env small_worker_env net"
    "to_server net = [[Done_processing d]]" "length (net_workers net) = 1" "work_units (net_server net) = [1]"
    using reporting_net by (elim exE conjE) (rule that)
  have k: "0 < length (net_workers net)" "to_server net ! 0 = Done_processing d # []"
    "0 < length (work_units (net_server net))" "work_units (net_server net) ! 0 = accept double_server_env 0"
    using n(2-4) by (simp_all add: double_server_env_def)
  show ?thesis
    using arriving_report_accepted [OF double_server_inj double_server_grows n(1) k arriving.simps(3)] n(1,2) by blast
qed

end
