(* ===== verification/Network_Leaving.thy ===== *)
theory Network_Leaving
  imports Network_Correct
begin

text \<open>
  Who is still there: as long as a worker has not left, the server has a communicator and a
  pending request for it, and works; the message by which a worker leaves is its last one. So
  the order to stop, which the server sends to everyone it has a communicator for, reaches
  every worker that has not left.
\<close>

section \<open>What a command of a worker leaves alone\<close>

definition same_units :: "'p server \<Rightarrow> 'p server \<Rightarrow> bool" where
  "same_units st st' \<longleftrightarrow> work_units st' = work_units st \<and> work_unit_requests st' = work_unit_requests st \<and>
     transfer_sizes st' = transfer_sizes st \<and> running st' = running st"

lemma same_units_refl: "same_units st st"
  and same_units_trans: "same_units st st1 \<Longrightarrow> same_units st1 st2 \<Longrightarrow> same_units st st2"
  by (simp_all add: same_units_def)

lemma same_units_books: "books st' = books st \<Longrightarrow> same_units st st'"
  using books_eqD [of st' st] by (simp add: same_units_def)

lemma send_statistic_units: "send_statistic_to_manager env st = Inr st' \<Longrightarrow> same_units st st'"
  using books_eqD [OF send_statistic_frame [of env st st']] by (simp add: same_units_def)

lemma send_termination_units: "send_termination_to_workers env st = Inr st' \<Longrightarrow> same_units st st'"
  using books_eqD [OF send_termination_frame [of env st st']] by (simp add: same_units_def)

text \<open>The last part of the handler of a report, from the state with the new counters.\<close>

lemma report_end:
  assumes "process_w2s_DONE_PROCESSING env i p st = Inr st'"
  shows "\<exists>v. same_units st v \<and> sent v = sent st \<and> accepted v = accepted st \<and> terminated_workers v = terminated_workers st \<and>
    (st' = v \<or> (\<exists>u. send_statistic_to_manager env v = Inr u \<and> send_termination_to_workers env u = Inr st'))"
proof -
  have choice: "\<exists>v. same_units st v \<and> sent v = sent st \<and> accepted v = accepted st \<and> terminated_workers v = terminated_workers st \<and>
      (st' = v \<or> rbind (send_statistic_to_manager env v) (send_termination_to_workers env) = Inr st')"
    if "(if c then if d then rbind (send_statistic_to_manager env v) (send_termination_to_workers env) else Inr v else Inr v) = Inr st'"
      "same_units st v" "sent v = sent st" "accepted v = accepted st" "terminated_workers v = terminated_workers st" for c d v
    using that by (intro exI [of _ v]) (auto split: if_splits)
  have "\<exists>v. same_units st v \<and> sent v = sent st \<and> accepted v = accepted st \<and> terminated_workers v = terminated_workers st \<and>
      (st' = v \<or> rbind (send_statistic_to_manager env v) (send_termination_to_workers env) = Inr st')"
    using assms [unfolded process_w2s_DONE_PROCESSING_def rbind_Inr_iff Let_def]
    by (elim exE conjE) (erule choice; simp add: same_units_def)
  then show ?thesis by (simp add: rbind_Inr_iff)
qed

lemma command_units:
  assumes run: "process_worker_cmd env i s cmd st = Inr st'" and inv: "server_inv env st"
    and cmd: "\<not> (\<exists>p. cmd = W2S_GET_INSTANCES p)" "cmd \<noteq> W2S_DISCONNECT"
  shows "same_units (st\<lparr> work_unit_requests := (work_unit_requests st)[i := True] \<rparr>) st'"
proof (cases cmd)
  case (W2S_REQ_MAX_CMD_LENGTH p)
  then show ?thesis using run
    by (auto simp: rbind_Inr_iff process_w2s_REQ_MAX_CMD_LENGTH_def renew_request_def same_units_def vset_def defined_def
        split: option.splits if_splits)
next
  case (W2S_FOUND_SOLUTION p)
  obtain st1 where st1: "process_w2s_FOUND_SOLUTION env i p st = Inr st1" "renew_request i st1 = Inr st'"
    using run W2S_FOUND_SOLUTION by (auto simp: rbind_Inr_iff)
  let ?st = "st\<lparr> solution_found := True \<rparr>"
  obtain v info where v: "(if terminate_after_solution_was_found st then send_termination_to_workers env ?st else Inr ?st) = Inr v"
    "found_solution_send env info v = Inr st1"
    using st1(1) by (auto simp: process_w2s_FOUND_SOLUTION_def rbind_Inr_iff Let_def)
  have "same_units ?st v" using v(1) send_termination_units same_units_refl by (auto split: if_splits)
  then have "same_units ?st st1"
    using same_units_books [OF manager_send_frame [OF v(2) [unfolded found_solution_send_def]]] same_units_trans by blast
  then show ?thesis using st1(2) by (auto simp: same_units_def renew_request_def rbind_Inr_iff vset_def defined_def split: option.splits if_splits)
next
  case (W2S_DONE_PROCESSING p)
  obtain st1 where st1: "process_w2s_DONE_PROCESSING env i p st = Inr st1" "renew_request i st1 = Inr st'"
    using run W2S_DONE_PROCESSING by (auto simp: rbind_Inr_iff)
  obtain v where v: "same_units st v" "st1 = v \<or> (\<exists>u. send_statistic_to_manager env v = Inr u \<and> send_termination_to_workers env u = Inr st1)"
    using report_end [OF st1(1)] by blast
  have "same_units v st1" using v(2) send_statistic_units send_termination_units same_units_refl same_units_trans by blast
  then have "same_units st st1" using v(1) same_units_trans by blast
  then show ?thesis using st1(2) by (auto simp: same_units_def renew_request_def rbind_Inr_iff vset_def defined_def split: option.splits if_splits)
qed (use run cmd in simp_all)

lemma request_effect:
  assumes inv: "server_inv env st"
    and run: "process_worker_cmd env i s (W2S_GET_INSTANCES (len, Some n)) st = Inr st'"
  shows "\<exists>a req jobs. jobs_total jobs \<le> unat n \<and> ensure_length (encoded_length env (serialize_jobs jobs)) (transfer_sizes st ! i) = Inr (a, req) \<and>
    sent st' = sent st @ (case req of None \<Rightarrow> [] | Some k \<Rightarrow> [To_worker_req_max (work_units st ! i) s k]) @
      [Send_instances (work_units st ! i) s jobs] \<and>
    work_units st' = work_units st \<and> work_unit_requests st' = (work_unit_requests st)[i := True] \<and> running st' = running st \<and>
    transfer_sizes st' = (transfer_sizes st)[i := a] \<and> accepted st' = accepted st \<and> terminated_workers st' = terminated_workers st"
proof -
  obtain v where v: "process_w2s_GET_INSTANCES env i s (len, Some n) st = Inr v" "renew_request i v = Inr st'"
    using run by (auto simp: rbind_Inr_iff)
  obtain rest jobs st1 where l: "(if \<not> solution_found st then get_instances_loop n [] st else Inr (n, [], st)) =
      Inr (rest, jobs, st1)" "send_instances_send env i s jobs st1 = Inr v"
    using v(1) by (auto simp: process_w2s_GET_INSTANCES_def rbind_Inr_iff received_Inr)
  have d: "dispatched st jobs st1 \<and> jobs_total jobs \<le> unat n"
  proof (cases "solution_found st")
    case True
    then show ?thesis using l(1) dispatched_refl [of st] by simp
  next
    case False
    have "schedule_inv st" using inv by (simp add: server_inv_def)
    then show ?thesis using get_instances_loop_correct [of st n "[]"] l(1) False by auto
  qed
  then have same: "same_units st st1" "sent st1 = sent st" "accepted st1 = accepted st" "terminated_workers st1 = terminated_workers st"
    by (cases st; cases st1; simp add: dispatched_def same_units_def)+
  obtain a req where e: "ensure_length (encoded_length env (serialize_jobs jobs)) (transfer_sizes st1 ! i) = Inr (a, req)"
    "v = reply_sent env i s jobs a req st1" using l(2) by (auto simp: send_instances_Inr)
  have s: "work_units st1 = work_units st" "work_unit_requests st1 = work_unit_requests st"
    "transfer_sizes st1 = transfer_sizes st" "running st1 = running st"
    using same(1) by (simp_all add: same_units_def)
  have v': "st' = v\<lparr> work_unit_requests := (work_unit_requests v)[i := True] \<rparr>"
    using v(2) by (auto simp: renew_request_def rbind_Inr_iff vset_def defined_def split: option.splits if_splits)
  show ?thesis
    by (rule exI [of _ a], rule exI [of _ req], rule exI [of _ jobs])
      (use d e(1) same s in \<open>simp add: v' e(2) reply_sent_def emit_def cong: option.case_cong\<close>)
qed

text \<open>A disconnection takes the worker out of all lists, and stops the server at most when none is left.\<close>

lemma disconnect_units:
  assumes "process_worker_cmd env i s W2S_DISCONNECT st = Inr st'"
  shows "\<exists>us reqs sizes. verase (work_units st) i = Some us \<and> verase (work_unit_requests st) i = Some reqs \<and>
    verase (transfer_sizes st) i = Some sizes \<and> work_units st' = us \<and> work_unit_requests st' = reqs \<and>
    transfer_sizes st' = sizes \<and> (running st' = running st \<or> us = []) \<and> terminated_workers st' = terminated_workers st"
proof -
  have run: "process_w2s_DISCONNECT env i st = Inr st'" using assms by simp
  obtain reqs us sizes bufs where e: "verase (work_unit_requests st) i = Some reqs" "verase (transfer_sizes st) i = Some sizes"
    "verase (work_units st) i = Some us" "verase (worker_comm_buffers st) i = Some bufs"
    using run by (auto simp: process_w2s_DISCONNECT_def rbind_Inr_iff defined_def split: option.splits)
  let ?st = "st\<lparr> work_unit_requests := reqs, work_units := us, transfer_sizes := sizes,
     worker_comm_buffers := bufs, work_units_disconnected := work_units_disconnected st + 1 \<rparr>"
  have "st' = ?st \<or> us = [] \<and> (\<exists>st2. send_statistic_to_manager env ?st = Inr st2 \<and> st' = st2\<lparr> running := False \<rparr>)"
    using run by (auto simp: process_w2s_DISCONNECT_def e rbind_Inr_iff Let_def split: if_splits)
  then show ?thesis
  proof (elim disjE exE conjE)
    fix st2 assume st2: "us = []" "send_statistic_to_manager env ?st = Inr st2" "st' = st2\<lparr> running := False \<rparr>"
    then show ?thesis using send_statistic_units [OF st2(2)] books_eqD [OF send_statistic_frame [OF st2(2)]] e(1-3)
      by (simp add: same_units_def)
  qed (use e in simp)
qed

section \<open>The last message of a worker\<close>

text \<open>A worker says goodbye with the step that makes it \<open>Finished\<close>, and in no other.\<close>

definition says :: "'p worker \<Rightarrow> 'p worker \<Rightarrow> bool" where
  "says w w' \<longleftrightarrow> (\<exists>ms. w_sent w' = w_sent w @ ms @ (if w_main w' = Finished then [Disconnect] else []) \<and> Disconnect \<notin> set ms)"

lemma saysI:
  "w_sent w' = w_sent w @ ms \<Longrightarrow> Disconnect \<notin> set ms \<Longrightarrow> w_main w' \<noteq> Finished \<Longrightarrow> says w w'"
  by (auto simp: says_def)

lemma says_nothing: "w_sent w' = w_sent w \<Longrightarrow> w_main w' \<noteq> Finished \<Longrightarrow> says w w'"
  by (rule saysI [of _ _ "[]"]) simp_all

lemma says_leave: "w_sent v = w_sent w @ ms \<Longrightarrow> Disconnect \<notin> set ms \<Longrightarrow> says w (leave_server v)"
  by (auto simp: says_def leave_server_def)

lemma server_send_words:
  assumes "server_send env items msg w = Inr w'" "msg \<noteq> Disconnect"
  shows "\<exists>ms. w_sent w' = w_sent w @ ms \<and> Disconnect \<notin> set ms \<and> w_main w' = w_main w"
proof -
  obtain ms where "w_sent w' = w_sent w @ ms @ [msg]" "set ms \<subseteq> range Server_req_max"
    using server_send_frame [OF assms(1)] by blast
  then show ?thesis using assms(2) server_send_frame [OF assms(1)]
    by (intro exI [of _ "ms @ [msg]"]) (auto simp: same_books_def)
qed

lemma solution_send_words:
  assumes "(if dp_solved (t_dpi t)
      then server_send env (serialize_solution_info (solution_of t)) (Found_solution (solution_of t)) w
      else Inr w) = Inr w1"
  shows "\<exists>ms. w_sent w1 = w_sent w @ ms \<and> Disconnect \<notin> set ms \<and> w_main w1 = w_main w"
  using assms server_send_words [of env "serialize_solution_info (solution_of t)" "Found_solution (solution_of t)" w w1]
  by (auto split: if_splits)

lemma return_task_words:
  assumes "return_task env t w = r"
  shows "\<exists>ms. w_sent (case r of Inr w' \<Rightarrow> w' | Inl (e, w') \<Rightarrow> w') = w_sent w @ ms \<and> Disconnect \<notin> set ms \<and>
    w_main (case r of Inr w' \<Rightarrow> w' | Inl (e, w') \<Rightarrow> w') = w_main w"
proof -
  let ?first = "if dp_solved (t_dpi t)
      then server_send env (serialize_solution_info (solution_of t)) (Found_solution (solution_of t)) w
      else Inr w"
  have fail: "server_send env items msg v = Inl (e, v') \<Longrightarrow> w_sent v' = w_sent v \<and> w_main v' = w_main v" for items msg v e v'
    using server_send_Inl [of env items msg v e v'] by (simp add: same_books_def)
  show ?thesis
  proof (cases ?first)
    case (Inl x)
    then show ?thesis using assms fail by (cases x) (auto simp: return_task_def split: if_splits)
  next
    case (Inr w1)
    then obtain m1 where m1: "w_sent w1 = w_sent w @ m1" "Disconnect \<notin> set m1" "w_main w1 = w_main w"
      using solution_send_words by blast
    show ?thesis
    proof (cases "0 \<ge> dp_instances_processed (t_dpi t)")
      case True
      then show ?thesis using assms Inr m1 by (auto simp: return_task_def)
    next
      case False
      let ?second = "server_send env (serialize_done_processing_info (t_dpi t)) (Done_processing (t_dpi t)) w1"
      have r: "r = ?second" using assms Inr False by (simp add: return_task_def)
      show ?thesis
      proof (cases ?second)
        case (Inl x)
        then show ?thesis using r m1 fail by (cases x) auto
      next
        case (Inr w2)
        then obtain m2 where "w_sent w2 = w_sent w1 @ m2" "Disconnect \<notin> set m2" "w_main w2 = w_main w1"
          using server_send_words by blast
        then show ?thesis using r m1 Inr by (intro exI [of _ "m1 @ m2"]) simp
      qed
    qed
  qed
qed

lemma request_says:
  assumes "request_instances env w = Inr w'" "w_main w = Looping"
  shows "says w w'"
proof (cases "w' = w")
  case True
  then show ?thesis using assms(2) by (simp add: says_nothing)
next
  case False
  then obtain v where v: "server_send env [Value4b (w_instances_to_get w)] (Get_instances (w_instances_to_get w)) w = Inr v"
    "w' = v\<lparr> w_main := Receiving (w_instances_to_get v) \<rparr>"
    using assms(1) by (auto simp: request_instances_def get_instances_send_def rbind_Inr_iff split: if_splits)
  obtain ms where "w_sent v = w_sent w @ ms" "Disconnect \<notin> set ms" using server_send_words [OF v(1)] by auto
  then show ?thesis unfolding v(2) by (intro saysI [of _ _ ms]) simp_all
qed

lemma process_says:
  assumes "process_server_cmd env msg w = Some r"
  shows "w_sent (case r of Inr w' \<Rightarrow> w' | Inl (e, w') \<Rightarrow> w') = w_sent w \<and>
    w_main (case r of Inr w' \<Rightarrow> w' | Inl (e, w') \<Rightarrow> w') = w_main w"
proof (cases "sends_instances msg")
  case False
  from process_other_cases [OF False assms] show ?thesis by cases simp_all
next
  case True
  then obtain p where p: "msg = S2W_SEND_INSTANCES p" by (cases msg) auto
  have c: "create_tasks env jobs v = Some r \<Longrightarrow> w_sent (case r of Inr w' \<Rightarrow> w' | Inl (e, w') \<Rightarrow> w') = w_sent v \<and>
      w_main (case r of Inr w' \<Rightarrow> w' | Inl (e, w') \<Rightarrow> w') = w_main v" for jobs v
    by (induction env jobs v rule: create_tasks.induct) (auto split: if_splits option.splits sum.splits)
  show ?thesis using assms p c by (auto simp: process_s2w_send_instances_def split: sum.splits if_splits)
qed

lemma step_says:
  assumes step: "worker_step env ev w = Some (Inr w')" and main: "w_main w \<noteq> Finished"
  shows "says w w'"
proof (cases ev)
  case (Thread_runs i m)
  then have "worker_func env i m w = Some (Inr w')" using step by simp
  then have "w_sent w' = w_sent w \<and> w_main w' = w_main w" by (cases rule: worker_func_cases) simp_all
  then show ?thesis using main by (simp add: says_nothing)
next
  case (Main_round probe)
  then consider (loop) "w_main w = Looping" "main_loop_round env probe w = Some (Inr w')"
    | (join) "w_main w = Joining" "map_option (main_catch w) (main_join env w) = Some (Inr w')"
    using step by (cases "w_main w") (auto simp: main_catch_Inr)
  then show ?thesis
  proof cases
    case loop
    show ?thesis
    proof (cases "w_running w")
      case False
      then show ?thesis using loop by (auto simp: main_loop_round_def intro: says_nothing)
    next
      case run: True
      show ?thesis
      proof (cases "w_tasks_done w")
        case (Cons t ts)
        then have "return_task env t (w\<lparr> w_tasks_done := ts \<rparr>) = Inr w'" using loop run by (simp add: main_loop_round_def)
        then show ?thesis using return_task_words [of env t "w\<lparr> w_tasks_done := ts \<rparr>"] loop(1) by (auto intro: saysI)
      next
        case Nil
        then obtain v where v: "case probe of None \<Rightarrow> v = w | Some m \<Rightarrow> process_server_cmd env m w = Some (Inr v)" "request_instances env v = Inr w'"
          using loop run by (auto simp: main_loop_round_def rbind_Inr_iff split: option.splits)
        have "w_sent v = w_sent w \<and> w_main v = w_main w"
          using v(1) process_says [of env _ w "Inr v"] by (auto split: option.splits)
        then show ?thesis using request_says [OF v(2)] loop(1) by (simp add: says_def)
      qed
    qed
  next
    case join
    obtain r where r: "main_join env w = Some r" "r = Inr w' \<or> (\<exists>e v. r = Inl (e, v) \<and> w' = leave_server v)"
      using join(2) by (auto simp: main_catch_Inr)
    show ?thesis
    proof (cases "w_tasks_done w")
      case Nil
      then have "w' = leave_server w" using r by (auto simp: main_join_def split: if_splits)
      then show ?thesis using says_leave [of w w "[]"] by simp
    next
      case (Cons t ts)
      then have "return_task env t (w\<lparr> w_tasks_done := ts \<rparr>) = r" using r(1) by (simp add: main_join_def split: if_splits)
      then show ?thesis using return_task_words [of env t "w\<lparr> w_tasks_done := ts \<rparr>" r] r(2) main
        by (auto intro: saysI says_leave)
    qed
  qed
next
  case (Main_receives msg)
  then obtain r where r: "receive_server_cmd env msg w = Some r" "r = Inr w' \<or> (\<exists>e v. r = Inl (e, v) \<and> w' = leave_server v)"
    using step by (auto simp: main_catch_Inr)
  have main': "w_main w = Awaiting_activation \<or> (\<exists>n. w_main w = Receiving n)"
    using r(1) by (cases "w_main w") (auto simp: receive_server_cmd_def)
  then obtain q where q: "process_server_cmd env msg w = Some q"
    using r(1) by (cases "process_server_cmd env msg w") (auto simp: receive_server_cmd_def)
  have rq: "(\<exists>e v. q = Inl (e, v) \<and> r = Inl (e, v)) \<or>
      (\<exists>u. q = Inr u \<and> (r = Inr u \<or> r = Inr (start_threads u) \<or> r = Inr (u\<lparr> w_main := Looping \<rparr>)))"
  proof (cases q)
    case (Inl x)
    then show ?thesis using r(1) main' q by (cases x) (auto simp: receive_server_cmd_def)
  next
    case (Inr u)
    then show ?thesis using r(1) main' q by (cases msg) (auto simp: receive_server_cmd_def split: if_splits)
  qed
  have "\<exists>u. w_sent u = w_sent w \<and> w_main u = w_main w \<and> (w' = u \<or> w' = start_threads u \<or> w' = u\<lparr> w_main := Looping \<rparr> \<or> w' = leave_server u)"
    using rq r(2) process_says [OF q] by (elim disjE exE conjE) auto
  then show ?thesis using main says_leave [of _ w "[]"] by (auto simp: start_threads_def intro: says_nothing)
qed

lemma manager_units:
  assumes "process_manager_cmd env cmd st = Inr st'"
  shows "\<exists>n. accepted st' = accepted st + n \<and> work_units st' = work_units st @ map (\<lambda>i. accept env (accepted st + i)) [0..<n] \<and>
    work_unit_requests st' = work_unit_requests st @ replicate n True \<and>
    transfer_sizes st' = transfer_sizes st @ replicate n default_max_cmd_length \<and> running st' = running st \<and>
    ((\<forall>c j. cmd \<noteq> M2S_ADD_WORKERS c j) \<longrightarrow> n = 0) \<and> (cmd \<noteq> M2S_TERMINATE \<longrightarrow> terminated_workers st' = terminated_workers st)"
proof (cases cmd)
  case (M2S_REQ_MAX_CMD_LENGTH p)
  then show ?thesis using assms by (intro exI [of _ 0]) (auto simp: rbind_Inr_iff)
next
  case (M2S_ADD_WORKERS c n)
  let ?st = "accept_workers env (nat n) st"
  have "?st = st' \<or> foldR (\<lambda>i. activate_worker_send (length (work_units st) + i) 0) [0..<nat n] ?st = Inr st'"
    using assms M2S_ADD_WORKERS by (auto simp: process_m2s_ADD_WORKERS_def rbind_Inr_iff Let_def split: if_splits)
  then have "books st' = books ?st" using activations_frame [of "\<lambda>i. length (work_units st) + i"] by auto
  then show ?thesis using books_eqD [of st' ?st] M2S_ADD_WORKERS by (intro exI [of _ "nat n"]) (simp add: accept_workers_def)
next
  case (M2S_ADD_FILE p)
  then obtain data where "add_file_process (command_capacity st) p = Inr data"
    using assms by (auto simp: process_m2s_ADD_FILE_def rbind_Inr_iff)
  let ?st = "st\<lparr> available_tasks := available_tasks st @ [task_info_new (arith env) data],
    task_order := of_nat (length (available_tasks st)) # task_order st \<rparr>"
  have "?st = st' \<or> foldR (\<lambda>i. activate_worker_send i 0) [0..<length (work_units ?st)] ?st = Inr st'"
    using assms M2S_ADD_FILE \<open>_ = Inr data\<close> by (auto simp: process_m2s_ADD_FILE_def Let_def split: if_splits)
  then have "books st' = books ?st" using activations_frame [of "\<lambda>i. i"] by auto
  then show ?thesis using books_eqD [of st' ?st] by (intro exI [of _ 0]) simp
next
  case M2S_TERMINATE
  then have t: "send_termination_to_workers env st = Inr st'" using assms by simp
  show ?thesis using books_eqD [OF send_termination_frame [OF t]] M2S_TERMINATE by (intro exI [of _ 0]) simp
qed (use assms in simp)

section \<open>Who is present\<close>

definition farewell :: "main_thread \<Rightarrow> 'p worker_message list \<Rightarrow> bool \<Rightarrow> bool" where
  "farewell main up present \<longleftrightarrow>
     (if main \<noteq> Finished then present \<and> Disconnect \<notin> set up
      else if present then \<exists>ms. up = ms @ [Disconnect] \<and> Disconnect \<notin> set ms
      else up = [])"

definition presence ::
    "'p server_env \<Rightarrow> 'p server \<Rightarrow> 'p worker list \<Rightarrow> 'p worker_message list list \<Rightarrow> bool" where
  "presence senv st ws ups \<longleftrightarrow> (\<forall>i < length (work_units st). work_unit_requests st ! i) \<and>
     (\<forall>k < accepted st. farewell (w_main (ws ! k)) (ups ! k) (accept senv k \<in> set (work_units st)))"

lemma farewell_says:
  assumes "farewell (w_main w) up b" "says w w'" "w_main w \<noteq> Finished"
  shows "farewell (w_main w') (up @ drop (length (w_sent w)) (w_sent w')) b"
  using assms by (auto simp: farewell_def says_def split: if_splits)

lemma farewell_takes:
  "farewell main (m # rest) b \<Longrightarrow> m \<noteq> Disconnect \<Longrightarrow> farewell main rest b"
  by (auto simp: farewell_def Cons_eq_append_conv split: if_splits)

lemma farewell_disconnect: "farewell main (Disconnect # rest) b \<Longrightarrow> main = Finished \<and> rest = [] \<and> b"
  by (auto simp: farewell_def Cons_eq_append_conv split: if_splits)

lemma verase_member:
  assumes "verase xs i = Some ys" "distinct xs"
  shows "set ys = set xs - {xs ! i} \<and> i < length xs"
proof -
  have i: "i < length xs" "ys = take i xs @ drop (Suc i) xs" using assms(1) by (auto simp: verase_def split: if_splits)
  obtain a b x where ab: "xs = a @ x # b" "ys = a @ b" "xs ! i = x"
    using id_take_nth_drop [OF i(1)] i(2) by blast
  then show ?thesis using assms(2) i(1) by auto
qed

lemma verase_entries:
  assumes "verase xs i = Some ys"
  shows "i < length xs \<and> length ys = length xs - 1 \<and> (\<forall>j < length ys. ys ! j = xs ! (if j < i then j else Suc j))"
proof -
  have i: "i < length xs" "ys = take i xs @ drop (Suc i) xs" using assms by (auto simp: verase_def split: if_splits)
  then show ?thesis by (auto simp: nth_append)
qed

lemma message_presence:
  assumes inj: "inj (accept senv)" and inv: "server_inv senv st" and pres: "presence senv st ws ups"
    and k: "k < accepted st" "k < length ups" "ups ! k = m # rest" and i: "i < length (work_units st)" "work_units st ! i = accept senv k"
    and run: "process_worker_cmd senv i 0 (arriving wenv m) (st\<lparr> work_unit_requests := (work_unit_requests st)[i := False] \<rparr>) = Inr st'"
    and acc: "accepted st' = accepted st"
  shows "presence senv st' ws (ups[k := rest])"
proof -
  let ?st = "st\<lparr> work_unit_requests := (work_unit_requests st)[i := False] \<rparr>"
  have inv': "server_inv senv ?st" using inv requests_inv [of senv st i False] by simp
  have lens: "length (work_unit_requests st) = length (work_units st)" and dist: "distinct (work_units st)"
    using inv by (simp_all add: server_inv_def workers_inv_def)
  have fk: "farewell (w_main (ws ! k)) (m # rest) (accept senv k \<in> set (work_units st))"
    using pres k by (auto simp: presence_def)
  show ?thesis
  proof (cases "m = Disconnect")
    case False
    have "work_units st' = work_units st \<and> work_unit_requests st' = (work_unit_requests st)[i := True]"
    proof (cases "\<exists>n. m = Get_instances n")
      case True
      then obtain n where "m = Get_instances n" by blast
      from request_effect [OF inv' run [unfolded this arriving.simps]] show ?thesis by auto
    next
      case no: False
      then have "\<not> (\<exists>p. arriving wenv m = W2S_GET_INSTANCES p)" "arriving wenv m \<noteq> W2S_DISCONNECT" using False by (cases m; simp)+
      from command_units [OF run inv' this] show ?thesis by (simp add: same_units_def)
    qed
    then show ?thesis using pres farewell_takes [OF fk False] acc k(2) lens i(1)
      by (auto simp: presence_def nth_list_update)
  next
    case True
    have d: "w_main (ws ! k) = Finished" "rest = []" using farewell_disconnect [OF fk [unfolded True]] by simp_all
    obtain reqs where e: "verase (work_units st) i = Some (work_units st')" "verase ((work_unit_requests st)[i := False]) i = Some reqs"
      "work_unit_requests st' = reqs"
      using disconnect_units [OF run [unfolded True arriving.simps]] by auto
    note u = verase_member [OF e(1) dist]
    have "reqs ! j" if j: "j < length (work_units st')" for j
    proof -
      have l: "length reqs = length (work_units st')" "i < length (work_units st)" "length (work_units st') = length (work_units st) - 1"
        using verase_entries [OF e(1)] verase_entries [OF e(2)] lens by simp_all
      have "reqs ! j = (work_unit_requests st)[i := False] ! (if j < i then j else Suc j)"
        using verase_entries [OF e(2)] j l(1) by simp
      then show ?thesis using pres j l by (auto simp: presence_def)
    qed
    moreover have "accept senv j \<in> set (work_units st') \<longleftrightarrow> accept senv j \<in> set (work_units st) \<and> j \<noteq> k" for j
      using u i(2) injD [OF inj, of j k] by auto
    ultimately show ?thesis using pres d acc e(3) k(2) unfolding presence_def
      by (auto simp: nth_list_update farewell_def)
  qed
qed

lemma manager_presence:
  assumes inj: "inj (accept senv)" and inv: "server_inv senv st" and pres: "presence senv st ws ups"
    and lens: "length ws = accepted st" "length ups = accepted st"
    and run: "process_manager_cmd senv cmd st = Inr st'"
  shows "presence senv st' (ws @ replicate (accepted st' - accepted st) worker_init) (ups @ replicate (accepted st' - accepted st) [])"
proof -
  obtain n where n: "accepted st' = accepted st + n" "work_units st' = work_units st @ map (\<lambda>i. accept senv (accepted st + i)) [0..<n]"
    "work_unit_requests st' = work_unit_requests st @ replicate n True"
    using manager_units [OF run] by blast
  have l: "length (work_unit_requests st) = length (work_units st)" and sub: "set (work_units st) \<subseteq> accept senv ` {..<accepted st}"
    using inv by (simp_all add: server_inv_def workers_inv_def)
  have old: "accept senv k \<in> set (work_units st') \<longleftrightarrow> accept senv k \<in> set (work_units st)" if "k < accepted st" for k
    using that n(2) injD [OF inj] by fastforce
  have new: "accept senv k \<in> set (work_units st')" if "accepted st \<le> k" "k < accepted st + n" for k
    using that n(2) by (auto simp: image_iff intro!: bexI [of _ "k - accepted st"])
  show ?thesis unfolding presence_def n(1)
  proof (intro conjI allI impI)
    show "work_unit_requests st' ! i" if "i < length (work_units st')" for i
      using that pres n(2,3) l by (auto simp: presence_def nth_append)
    show "farewell (w_main ((ws @ replicate (accepted st + n - accepted st) worker_init) ! k))
        ((ups @ replicate (accepted st + n - accepted st) []) ! k) (accept senv k \<in> set (work_units st'))"
      if "k < accepted st + n" for k
    proof (cases "k < accepted st")
      case True
      then show ?thesis using pres old [OF True] lens by (simp add: presence_def nth_append)
    next
      case False
      then show ?thesis using new [of k] that lens by (simp add: nth_append farewell_def worker_init_def)
    qed
  qed
qed

lemma server_moves_presence:
  assumes inj: "inj (accept senv)" and inv: "net_inv senv wenv net"
    and pres: "presence senv (net_server net) (net_workers net) (to_server net)"
    and moves: "server_moves senv wenv src cmd net = Some net'"
  shows "presence senv (net_server net') (net_workers net') (to_server net')"
proof -
  let ?s = "net_server net" and ?ws = "net_workers net" and ?ups = "to_server net"
  obtain probe chans st where t: "server_takes senv wenv src net = Some (probe, chans)"
    "server_iteration senv (probe, cmd) ?s = Inr st"
    and net': "net_server net' = st" "net_workers net' = ?ws @ replicate (accepted st - accepted ?s) worker_init"
      "to_server net' = chans @ replicate (accepted st - accepted ?s) []"
    using moves by (auto simp: server_moves_def Let_def split: if_splits option.splits sum.splits)
  obtain st1 where st1: "worker_probe senv probe ?s = Inr st1"
    "(case cmd of None \<Rightarrow> Inr st1 | Some c \<Rightarrow> process_manager_cmd senv c st1) = Inr st"
    using t(2) by (auto simp: server_iteration_def rbind_Inr_iff)
  obtain ms where p: "system_inv senv wenv st1 ?ws chans (deliver senv ms (to_worker net))" "accepted st1 = accepted ?s"
    using probe_keeps [OF inj inv t(1) st1(1)] by blast
  have lens: "length ?ws = accepted ?s" "length ?ups = accepted ?s" "length chans = accepted ?s" and si: "server_inv senv ?s" "server_inv senv st1"
    using inv p by (simp_all add: net_inv_def system_inv_def)
  have 1: "presence senv st1 ?ws chans"
  proof (cases src)
    case None
    then have "chans = ?ups" "st1 = ?s"
      using t(1) st1(1) by (auto simp: server_takes_def worker_probe_def split: if_splits)
    then show ?thesis using pres by simp
  next
    case (Some ik)
    obtain i k where ik: "ik = (i, k)" by force
    obtain m rest where g: "i < length (work_units ?s)" "k < length ?ws" "work_units ?s ! i = accept senv k"
      "?ups ! k = m # rest" "probe = Some (int i, 0, arriving wenv m)" "chans = ?ups[k := rest]"
      using t(1) Some ik by (auto simp: server_takes_def split: if_splits list.splits)
    have "work_unit_requests ?s \<noteq> [] \<and> i < length (work_unit_requests ?s)"
      using si(1) g(1) by (auto simp: server_inv_def workers_inv_def)
    then have run: "process_worker_cmd senv i 0 (arriving wenv m) (?s\<lparr> work_unit_requests := (work_unit_requests ?s)[i := False] \<rparr>) = Inr st1"
      using st1(1) g(5) by (simp add: worker_probe_def)
    show ?thesis unfolding g(6)
      by (rule message_presence [OF inj si(1) pres _ _ g(4,1,3) run p(2)]) (use g(2) lens in simp_all)
  qed
  show ?thesis
  proof (cases cmd)
    case None
    then have "st = st1" using st1(2) by simp
    then show ?thesis using 1 net' p(2) by simp
  next
    case (Some c)
    then have c: "process_manager_cmd senv c st1 = Inr st" using st1(2) by simp
    show ?thesis using manager_presence [OF inj si(2) 1 _ _ c] lens net' p(2) by simp
  qed
qed

lemma worker_moves_presence:
  assumes inv: "net_inv senv wenv net" and k: "k < length (net_workers net)"
    and pres: "presence senv (net_server net) (net_workers net) (to_server net)"
    and moves: "worker_moves wenv k ev chan net = Some net'"
  shows "presence senv (net_server net') (net_workers net') (to_server net')"
proof -
  let ?s = "net_server net" and ?w = "net_workers net ! k"
  obtain w' where step: "worker_step wenv ev ?w = Some (Inr w')"
    and net': "net_server net' = ?s" "net_workers net' = (net_workers net)[k := w']"
      "to_server net' = (to_server net)[k := to_server net ! k @ drop (length (w_sent ?w)) (w_sent w')]"
    using moves by (auto simp: worker_moves_def Let_def split: option.splits sum.splits)
  have lens: "length (net_workers net) = accepted ?s" "length (to_server net) = accepted ?s"
    using inv by (simp_all add: net_inv_def system_inv_def)
  have "worker_ok wenv (map metadata (available_tasks ?s)) ?w (to_server net ! k) (to_worker net ! k)"
    using inv k lens by (simp add: net_inv_def system_inv_def)
  then obtain g where "worker_run wenv g ?w" unfolding worker_ok_def by blast
  then have winv: "worker_inv ?w" using worker_run_keeps by blast
  have main: "w_main ?w \<noteq> Finished"
  proof
    assume f: "w_main ?w = Finished"
    then have e: "list_all (\<lambda>th. th = Ended) (w_threads ?w)" using winv by (simp add: worker_inv_def)
    show False using step f e by (cases ev) (auto simp: worker_func_def receive_server_cmd_def list_all_length split: if_splits)
  qed
  have "farewell (w_main ?w) (to_server net ! k) (accept senv k \<in> set (work_units ?s))"
    using pres k lens by (simp add: presence_def)
  then have "farewell (w_main w') (to_server net ! k @ drop (length (w_sent ?w)) (w_sent w')) (accept senv k \<in> set (work_units ?s))"
    by (rule farewell_says [OF _ step_says [OF step main] main])
  then show ?thesis using pres k lens unfolding net' presence_def by (auto simp: nth_list_update)
qed

theorem reachable_presence:
  assumes inj: "inj (accept senv)"
  shows "reachable senv wenv net \<Longrightarrow> presence senv (net_server net) (net_workers net) (to_server net)"
proof (induction rule: reachable.induct)
  case reachable_init
  show ?case by (simp add: presence_def network_init_def server_init_def)
next
  case (reachable_step net ev net')
  have inv: "net_inv senv wenv net" by (rule reachable_inv [OF inj reachable_step(1)])
  note worker = worker_moves_presence [OF inv _ reachable_step.IH]
  show ?case
  proof (cases ev)
    case (Server_round src cmd)
    then show ?thesis using server_moves_presence [OF inj inv reachable_step.IH] reachable_step(2) by simp
  next
    case (Thread k i m)
    then show ?thesis using worker reachable_step(2) by (auto split: if_splits)
  next
    case (Main_polls k arrived)
    then show ?thesis using worker reachable_step(2) by (auto split: if_splits list.splits)
  next
    case (Main_takes k)
    then show ?thesis using worker reachable_step(2) by (auto split: if_splits list.splits)
  qed
qed

section \<open>The order to stop\<close>

definition dismisses :: "'p server_env \<Rightarrow> 'p server \<Rightarrow> 'p server \<Rightarrow> bool" where
  "dismisses env st st' \<longleftrightarrow> (\<exists>ms. sent st' = sent st @ ms \<and>
     (\<forall>c \<in> set (work_units st). 0 < comm_size env c \<longrightarrow> Terminate_worker c 0 \<in> set ms))"

lemma skip_run_next:
  assumes "distinct us" "i < length us" "skip_run env us (us ! i) (i + 1) = Some j"
  shows "j = i + 1"
proof -
  have s: "(case unit_at env us (i + 1) of None \<Rightarrow> None
     | Some c \<Rightarrow> if us ! i = c then skip_run env us (us ! i) (i + 1 + 1) else Some (i + 1)) = Some j"
    using assms(3) skip_run.simps [of env us "us ! i" "i + 1"] by simp
  show ?thesis
  proof (cases "i + 1 < length us")
    case True
    then have "us ! i \<noteq> us ! (i + 1)" using assms(1,2) nth_eq_iff_index_eq by fastforce
    then show ?thesis using s True by (simp add: unit_at_def)
  next
    case False
    then have "skip_run env us (us ! i) (i + 1 + 1) = None"
      using assms(2) skip_run.simps [of env us "us ! i" "i + 1 + 1"] by (simp add: unit_at_def)
    then show ?thesis using s by (auto split: option.splits if_splits)
  qed
qed

lemma terminate_loop_all:
  "terminate_loop env i st = Inr st' \<Longrightarrow> distinct (work_units st) \<Longrightarrow>
   \<exists>ms. sent st' = sent st @ ms \<and> (\<forall>j. i \<le> j \<and> j < length (work_units st) \<and> 0 < comm_size env (work_units st ! j) \<longrightarrow>
     Terminate_worker (work_units st ! j) 0 \<in> set ms)"
proof (induction "length (work_units st) - i" arbitrary: i st rule: less_induct)
  case less
  let ?us = "work_units st"
  from less.prems(1) obtain j where i: "i < length ?us" and j: "skip_run env ?us (?us ! i) (i + 1) = Some j"
    and r: "if j < length ?us then terminate_loop env j (emit (map (Terminate_worker (?us ! i)) [0..<comm_size env (?us ! i)]) st) = Inr st'
      else emit (map (Terminate_worker (?us ! i)) [0..<comm_size env (?us ! i)]) st = st'"
    by (subst (asm) terminate_loop.simps) (auto simp: terminate_sends rbind_Inr_iff split: if_splits option.splits)
  let ?new = "map (Terminate_worker (?us ! i)) [0..<comm_size env (?us ! i)]"
  have ji: "j = i + 1" by (rule skip_run_next [OF less.prems(2) i j])
  have own: "0 < comm_size env (?us ! i) \<Longrightarrow> Terminate_worker (?us ! i) 0 \<in> set ?new" by auto
  show ?case
  proof (cases "i + 1 < length ?us")
    case True
    have "\<exists>ms. sent st' = sent (emit ?new st) @ ms \<and> (\<forall>j. i + 1 \<le> j \<and> j < length ?us \<and> 0 < comm_size env (?us ! j) \<longrightarrow>
        Terminate_worker (?us ! j) 0 \<in> set ms)"
      using less.hyps [of "emit ?new st" "i + 1"] r ji True i less.prems(2) by (simp add: emit_def)
    then obtain ms where ms: "sent st' = sent (emit ?new st) @ ms" "\<forall>j. i + 1 \<le> j \<and> j < length ?us \<and> 0 < comm_size env (?us ! j) \<longrightarrow>
        Terminate_worker (?us ! j) 0 \<in> set ms" by blast
    have "Terminate_worker (?us ! k) 0 \<in> set (?new @ ms)" if "i \<le> k" "k < length ?us" "0 < comm_size env (?us ! k)" for k
      using own ms(2) that by (cases "k = i") auto
    then show ?thesis using ms(1) by (intro exI [of _ "?new @ ms"]) (simp add: emit_def)
  next
    case False
    then have "st' = emit ?new st" using r ji by simp
    moreover have "Terminate_worker (?us ! k) 0 \<in> set ?new" if "i \<le> k" "k < length ?us" "0 < comm_size env (?us ! k)" for k
    proof -
      have "k = i" using that False by simp
      then show ?thesis using own that(3) by simp
    qed
    ultimately show ?thesis by (intro exI [of _ ?new] conjI allI impI) (simp add: emit_def, blast)
  qed
qed

lemma send_termination_all:
  assumes "send_termination_to_workers env st = Inr st'" "\<not> terminated_workers st" "distinct (work_units st)"
  shows "dismisses env st st'"
proof -
  have "terminate_loop env 0 (st\<lparr> terminated_workers := True \<rparr>) = Inr st'"
    using assms(1,2) by (auto simp: send_termination_to_workers_def rbind_Inr_iff Let_def)
  from terminate_loop_all [OF this] obtain ms where ms: "sent st' = sent st @ ms"
    "\<And>j. j < length (work_units st) \<Longrightarrow> 0 < comm_size env (work_units st ! j) \<Longrightarrow> Terminate_worker (work_units st ! j) 0 \<in> set ms"
    using assms(3) by auto
  then show ?thesis unfolding dismisses_def by (intro exI [of _ ms]) (auto simp: in_set_conv_nth)
qed

lemma dismisses_after:
  assumes "dismisses env st st1" "sent st0 = sent st" "work_units st0 = work_units st" "\<exists>ms. sent st' = sent st1 @ ms"
  shows "dismisses env st0 st'"
proof -
  obtain ms m2 where "sent st1 = sent st @ ms" "\<forall>c \<in> set (work_units st). 0 < comm_size env c \<longrightarrow> Terminate_worker c 0 \<in> set ms"
    "sent st' = sent st1 @ m2"
    using assms(1,4) by (auto simp: dismisses_def)
  then show ?thesis using assms(2,3) unfolding dismisses_def by (intro exI [of _ "ms @ m2"]) auto
qed

lemma dismisses_before:
  assumes "dismisses env st1 st'" "\<exists>ms. sent st1 = sent st @ ms" "work_units st1 = work_units st"
  shows "dismisses env st st'"
proof -
  obtain ms m2 where "sent st' = sent st1 @ ms" "\<forall>c \<in> set (work_units st1). 0 < comm_size env c \<longrightarrow> Terminate_worker c 0 \<in> set ms"
    "sent st1 = sent st @ m2"
    using assms(1,2) by (auto simp: dismisses_def)
  then show ?thesis using assms(3) unfolding dismisses_def by (intro exI [of _ "m2 @ ms"]) auto
qed

lemma renew_sent: "renew_request i st = Inr st' \<Longrightarrow> sent st' = sent st \<and> terminated_workers st' = terminated_workers st"
  by (auto simp: renew_request_def rbind_Inr_iff)

lemma message_dismisses:
  assumes run: "process_worker_cmd env i s (arriving wenv m) st = Inr st'" and inv: "server_inv env st"
    and before: "\<not> terminated_workers st" and after: "terminated_workers st'"
  shows "dismisses env st st'"
proof -
  have dist: "distinct (work_units st)" using inv by (simp add: server_inv_def workers_inv_def)
  show ?thesis
  proof (cases m)
    case (Server_req_max n)
    then show ?thesis using run before after
      by (auto simp: rbind_Inr_iff process_w2s_REQ_MAX_CMD_LENGTH_def renew_request_def)
  next
    case (Get_instances n)
    from request_effect [OF inv run [unfolded this arriving.simps]] show ?thesis using before after by auto
  next
    case (Found_solution info)
    let ?st = "st\<lparr> solution_found := True \<rparr>"
    obtain st1 where st1: "process_w2s_FOUND_SOLUTION env i
        (int (we_length wenv (serialize_solution_info info)), Some info) st = Inr st1" "renew_request i st1 = Inr st'"
      using run Found_solution by (auto simp: rbind_Inr_iff)
    obtain v info' where v: "(if terminate_after_solution_was_found st then send_termination_to_workers env ?st else Inr ?st) = Inr v"
      "found_solution_send env info' v = Inr st1"
      using st1(1) by (auto simp: process_w2s_FOUND_SOLUTION_def rbind_Inr_iff Let_def)
    note send = v(2) [unfolded found_solution_send_def]
    have "terminated_workers v" using books_eqD [OF manager_send_frame [OF send]] after renew_sent [OF st1(2)] by simp
    then have "send_termination_to_workers env ?st = Inr v" using v(1) before by (auto split: if_splits)
    then have d: "dismisses env ?st v" by (rule send_termination_all) (use before dist in simp_all)
    have "\<exists>ms. sent st' = sent v @ ms" using manager_send_sent [OF send] renew_sent [OF st1(2)] by auto
    then show ?thesis using dismisses_after [OF d, of st st'] by simp
  next
    case (Done_processing d)
    obtain st1 where st1: "process_w2s_DONE_PROCESSING env i
        (int (we_length wenv (serialize_done_processing_info d)), Some d) st = Inr st1" "renew_request i st1 = Inr st'"
      using run Done_processing by (auto simp: rbind_Inr_iff)
    obtain v where v: "same_units st v" "sent v = sent st" "terminated_workers v = terminated_workers st"
      "st1 = v \<or> (\<exists>u. send_statistic_to_manager env v = Inr u \<and> send_termination_to_workers env u = Inr st1)"
      using report_end [OF st1(1)] by blast
    have "st1 \<noteq> v" using v(3) before after renew_sent [OF st1(2)] by auto
    then obtain u where u: "send_statistic_to_manager env v = Inr u" "send_termination_to_workers env u = Inr st1" using v(4) by blast
    have un: "work_units u = work_units st" "\<not> terminated_workers u" "\<exists>ms. sent u = sent st @ ms"
      using send_statistic_units [OF u(1)] v books_eqD [OF send_statistic_frame [OF u(1)]] send_statistic_light [OF u(1)] before
      by (auto simp: same_units_def sends_light_def)
    have d: "dismisses env u st1" by (rule send_termination_all [OF u(2)]) (use un dist in simp_all)
    show ?thesis using dismisses_after [OF dismisses_before [OF d un(3,1)]] renew_sent [OF st1(2)] by simp
  next
    case Disconnect
    from disconnect_units [OF run [unfolded this arriving.simps]] show ?thesis using before after by auto
  qed
qed

end
