(* ===== verification/Network_Ending.thy ===== *)
theory Network_Ending
  imports Network_Leaving
begin

text \<open>
  How the system ends. Once the server has dismissed its workers, and every worker has been told
  to stop or has the order in its channel, every step of the system changes nothing or reduces
  a potential: a worker asks for instances at most once more, and what it holds, what is on its
  way to it and what it has sent is used up.
\<close>

section \<open>A worker and its channels\<close>

fun thread_weight :: "'p thread \<Rightarrow> nat" where
  "thread_weight Polling = 1"
| "thread_weight (Holding t) = 8"
| "thread_weight (Executed t) = 7"
| "thread_weight Ended = 0"

fun up_weight :: "'p worker_message \<Rightarrow> nat" where
  "up_weight (Get_instances n) = 3 + 9 * unat n"
| "up_weight _ = 1"

fun down_weight :: "s2w \<Rightarrow> nat" where
  "down_weight (S2W_SEND_INSTANCES (len, Some jobs)) = 1 + 9 * jobs_total jobs"
| "down_weight _ = 1"

text \<open>Whether an answer comes before the order to stop.\<close>

fun early :: "s2w list \<Rightarrow> bool" where
  "early [] = False"
| "early (S2W_TERMINATE # down) = False"
| "early (S2W_SEND_INSTANCES p # down) = True"
| "early (_ # down) = early down"

definition main_weight :: "bool \<Rightarrow> main_thread \<Rightarrow> s2w list \<Rightarrow> nat" where
  "main_weight r main down = (case main of
     Awaiting_activation \<Rightarrow> if r then 31 else 6
   | Looping \<Rightarrow> if r then 28 else 3
   | Receiving n \<Rightarrow> if r \<and> early down then 29 else if r then 5 else 4
   | Joining \<Rightarrow> 2
   | Finished \<Rightarrow> 0)"

definition work_weight :: "'p worker \<Rightarrow> nat" where
  "work_weight w = sum_list (map thread_weight (w_threads w)) + 9 * length (w_tasks w) + 5 * length (w_tasks_done w)"

definition worker_weight :: "'p worker \<Rightarrow> 'p worker_message list \<Rightarrow> s2w list \<Rightarrow> nat" where
  "worker_weight w up down = main_weight (w_running w) (w_main w) down + work_weight w +
     sum_list (map up_weight up) + sum_list (map down_weight down)"

definition told :: "'p worker \<Rightarrow> s2w list \<Rightarrow> bool" where
  "told w down \<longleftrightarrow> \<not> w_running w \<or> w_main w = Finished \<or> S2W_TERMINATE \<in> set down"

lemma early_append: "S2W_TERMINATE \<in> set down \<Longrightarrow> early (down @ x) = early down"
  by (induction down rule: early.induct) auto

lemma early_plain: "list_all plain down \<Longrightarrow> \<not> early down"
  by (induction down rule: early.induct) auto

lemma early_other: "\<not> sends_instances m \<Longrightarrow> m \<noteq> S2W_TERMINATE \<Longrightarrow> early (m # down) = early down"
  by (cases m) auto

lemma down_weight_pos: "0 < down_weight m"
  by (induction m rule: down_weight.induct) auto

lemma up_weight_pos: "0 < up_weight m"
  by (cases m) auto

section \<open>What a worker sends\<close>

lemma req_max_weight: "set ms \<subseteq> range Server_req_max \<Longrightarrow> sum_list (map up_weight ms) = length ms"
  by (induction ms) auto

lemma server_send_weight:
  assumes "server_send env items msg w = Inr w'"
  shows "\<exists>out. w_sent w' = w_sent w @ out \<and> sum_list (map up_weight out) \<le> 1 + up_weight msg \<and> same_books w w'"
proof -
  obtain ms where "w_sent w' = w_sent w @ ms @ [msg]" "length ms \<le> 1" "set ms \<subseteq> range Server_req_max"
    using assms by (auto simp: server_send_def Let_def rbind_Inr_iff thrown_Inr split: option.splits)
  then show ?thesis using req_max_weight [of ms] server_send_frame [OF assms]
    by (intro exI [of _ "ms @ [msg]"]) simp
qed

lemma solution_send_weight:
  assumes "(if dp_solved (t_dpi t)
      then server_send env (serialize_solution_info (solution_of t)) (Found_solution (solution_of t)) w
      else Inr w) = Inr w1"
  shows "\<exists>out. w_sent w1 = w_sent w @ out \<and> sum_list (map up_weight out) \<le> 2 \<and> same_books w w1"
proof (cases "dp_solved (t_dpi t)")
  case True
  then have "server_send env (serialize_solution_info (solution_of t)) (Found_solution (solution_of t)) w = Inr w1"
    using assms by simp
  from server_send_weight [OF this] show ?thesis by (simp add: numeral_2_eq_2)
next
  case False
  then show ?thesis using assms by (intro exI [of _ "[]"]) (simp add: same_books_refl)
qed

lemma return_task_weight:
  assumes "return_task env t w = Inr w'"
  shows "\<exists>out. w_sent w' = w_sent w @ out \<and> sum_list (map up_weight out) \<le> 4 \<and> same_books w w'"
proof -
  obtain w1 where w1: "(if dp_solved (t_dpi t)
      then server_send env (serialize_solution_info (solution_of t)) (Found_solution (solution_of t)) w
      else Inr w) = Inr w1"
    and w2: "server_send env (serialize_done_processing_info (t_dpi t)) (Done_processing (t_dpi t)) w1 = Inr w'"
    using assms by (auto simp: return_task_def rbind_Inr_iff split: if_splits)
  obtain o1 o2 where "w_sent w1 = w_sent w @ o1" "sum_list (map up_weight o1) \<le> 2" "same_books w w1"
    "w_sent w' = w_sent w1 @ o2" "sum_list (map up_weight o2) \<le> 2" "same_books w1 w'"
    using solution_send_weight [OF w1] server_send_weight [OF w2] by auto
  then show ?thesis using same_books_trans [of w w1 w'] by (intro exI [of _ "o1 @ o2"]) simp
qed

lemma return_task_Inl_weight:
  assumes "return_task env t w = Inl (e, w')"
  shows "\<exists>out. w_sent w' = w_sent w @ out \<and> sum_list (map up_weight out) \<le> 2 \<and> same_books w w'"
proof -
  let ?first = "if dp_solved (t_dpi t)
      then server_send env (serialize_solution_info (solution_of t)) (Found_solution (solution_of t)) w
      else Inr w"
  show ?thesis
  proof (cases ?first)
    case (Inl x)
    then have "server_send env (serialize_solution_info (solution_of t)) (Found_solution (solution_of t)) w = Inl (e, w')"
      using assms by (auto simp: return_task_def split: if_splits)
    from server_send_Inl [OF this] show ?thesis by (intro exI [of _ "[]"]) simp
  next
    case (Inr w1)
    then obtain o1 where o1: "w_sent w1 = w_sent w @ o1" "sum_list (map up_weight o1) \<le> 2" "same_books w w1"
      using solution_send_weight by blast
    have "w' = w1 \<or> server_send env (serialize_done_processing_info (t_dpi t)) (Done_processing (t_dpi t)) w1 = Inl (e, w')"
      using assms Inr by (auto simp: return_task_def split: if_splits)
    then have "w_sent w' = w_sent w1 \<and> same_books w1 w'"
      using server_send_Inl [of env _ _ w1 e w'] by (auto simp: same_books_refl)
    then show ?thesis using o1 same_books_trans [of w w1 w'] by (intro exI [of _ o1]) simp
  qed
qed

section \<open>A step of a worker\<close>

text \<open>What it means that a step of a worker is paid for.\<close>

definition paid :: "'p worker \<Rightarrow> s2w list \<Rightarrow> 'p worker \<Rightarrow> s2w list \<Rightarrow> bool" where
  "paid w down w' chan \<longleftrightarrow> (\<exists>out. w_sent w' = w_sent w @ out \<and> told w' chan \<and>
     (w' = w \<and> chan = down \<or>
      worker_weight w' out chan < main_weight (w_running w) (w_main w) down + work_weight w + sum_list (map down_weight down)))"

lemma same_books_weight: "same_books w w' \<Longrightarrow> work_weight w' = work_weight w \<and> w_running w' = w_running w \<and> w_main w' = w_main w"
  by (simp add: same_books_def work_weight_def)

lemma thread_paid:
  assumes step: "worker_func env i m w = Some (Inr w')" and told: "told w down"
  shows "paid w down w' down"
proof -
  have th: "sum_list (map thread_weight ((w_threads w)[i := th])) + thread_weight (w_threads w ! i) =
      sum_list (map thread_weight (w_threads w)) + thread_weight th" if "i < length (w_threads w)" for th
    using sum_update [OF that, of thread_weight th] by simp
  have same: "w_sent w' = w_sent w \<and> w_running w' = w_running w \<and> w_main w' = w_main w"
    using step by (cases rule: worker_func_cases) simp_all
  have "w' = w \<or> work_weight w' < work_weight w"
    using step
  proof (cases rule: worker_func_cases)
    case (take t ts)
    then show ?thesis using th [of "Holding t"] by (simp add: work_weight_def)
  next
    case stop
    then show ?thesis using th [of Ended] by (auto simp: work_weight_def)
  next
    case (exec t t' fs)
    then show ?thesis using th [of "Executed t'"] by (simp add: work_weight_def)
  next
    case (finish t)
    then show ?thesis using th [of Polling] by (simp add: work_weight_def)
  qed simp
  then show ?thesis using same told unfolding paid_def
    by (intro exI [of _ "[]"]) (auto simp: told_def worker_weight_def)
qed

lemma request_paid:
  assumes "request_instances env w = Inr w'" "unat (w_instances_to_get w) \<le> 2"
  shows "w' = w \<or> w_running w \<and> (\<exists>out n. w_sent w' = w_sent w @ out \<and> sum_list (map up_weight out) \<le> 22 \<and>
    work_weight w' = work_weight w \<and> w_running w' \<and> w_main w' = Receiving n)"
proof (cases "w_running w \<and> min instances_buffered num_probsat_threads_per_worker < w_instances_to_get w")
  case True
  then obtain v where v: "server_send env [Value4b (w_instances_to_get w)] (Get_instances (w_instances_to_get w)) w = Inr v"
    "w' = v\<lparr> w_main := Receiving (w_instances_to_get v) \<rparr>"
    using assms(1) by (auto simp: request_instances_def get_instances_send_def rbind_Inr_iff)
  obtain out where out: "w_sent v = w_sent w @ out" "sum_list (map up_weight out) \<le> 1 + (3 + 9 * unat (w_instances_to_get w))" "same_books w v"
    using server_send_weight [OF v(1)] by auto
  have "sum_list (map up_weight out) \<le> 22" using out(2) assms(2) by simp
  then show ?thesis using True out(1) same_books_weight [OF out(3)] v(2)
    by (intro disjI2 conjI exI [of _ out] exI [of _ "w_instances_to_get v"]) (simp_all add: work_weight_def)
next
  case False
  then show ?thesis using assms(1) by (auto simp: request_instances_def)
qed

lemma paidI:
  assumes "w_sent w' = w_sent w @ out" "told w' chan"
    and "worker_weight w' out chan < main_weight (w_running w) (w_main w) down + work_weight w + sum_list (map down_weight down)"
  shows "paid w down w' chan"
  using assms by (auto simp: paid_def)

lemma looping_paid:
  assumes step: "main_loop_round env probe w = Some (Inr w')" and main: "w_main w = Looping" and up: "threads_up w"
    and down: "list_all plain down" and probe: "\<And>m. probe = Some m \<Longrightarrow> m \<in> set down" and told: "told w down"
  shows "paid w down w' down"
proof (cases "w_running w")
  case False
  then have "w' = w\<lparr> w_main := Joining \<rparr>" using step by (simp add: main_loop_round_def)
  then show ?thesis using False main
    by (intro paidI [of _ _ "[]"]) (simp_all add: told_def worker_weight_def main_weight_def work_weight_def)
next
  case run: True
  show ?thesis
  proof (cases "w_tasks_done w")
    case (Cons t ts)
    then have "return_task env t (w\<lparr> w_tasks_done := ts \<rparr>) = Inr w'" using step run by (simp add: main_loop_round_def)
    then obtain out where out: "w_sent w' = w_sent w @ out" "sum_list (map up_weight out) \<le> 4" "same_books (w\<lparr> w_tasks_done := ts \<rparr>) w'"
      using return_task_weight by fastforce
    have "work_weight w' + 5 = work_weight w" "w_running w' = w_running w" "w_main w' = w_main w"
      using same_books_weight [OF out(3)] Cons by (simp_all add: work_weight_def)
    then show ?thesis using out(1,2) told by (intro paidI [of _ _ out]) (simp_all add: told_def worker_weight_def)
  next
    case Nil
    have g: "unat (w_instances_to_get w) \<le> 2" using up by (simp add: threads_up_def accounted_def)
    obtain v where v: "case probe of None \<Rightarrow> v = w | Some m \<Rightarrow> process_server_cmd env m w = Some (Inr v)" "request_instances env v = Inr w'"
      using step run Nil by (auto simp: main_loop_round_def rbind_Inr_iff split: option.splits)
    have "v = w \<or> v = w\<lparr> w_running := False \<rparr>"
    proof (cases probe)
      case (Some m)
      then have "plain m" using down probe by (auto simp: list_all_iff)
      then show ?thesis using v(1) Some by (cases m) auto
    qed (use v in simp)
    then show ?thesis
    proof
      assume "v = w\<lparr> w_running := False \<rparr>"
      moreover from this have "w' = v" using v(2) by (simp add: request_instances_def)
      ultimately show ?thesis using run main
        by (intro paidI [of _ _ "[]"]) (simp_all add: told_def worker_weight_def main_weight_def work_weight_def)
    next
      assume vw: "v = w"
      show ?thesis
      proof (cases "w' = w")
        case True
        then show ?thesis using told by (auto simp: paid_def)
      next
        case False
        then obtain out n where out: "w_sent w' = w_sent w @ out" "sum_list (map up_weight out) \<le> 22"
          "work_weight w' = work_weight w" "w_running w'" "w_main w' = Receiving n"
          using request_paid [OF v(2)] g vw by auto
        show ?thesis using out early_plain [OF down] told run main
          by (intro paidI [of _ _ out]) (simp_all add: told_def worker_weight_def main_weight_def)
      qed
    qed
  qed
qed

lemma joining_paid:
  assumes step: "map_option (main_catch w) (main_join env w) = Some (Inr w')" and main: "w_main w = Joining" and stop: "\<not> w_running w"
  shows "paid w down w' down"
proof -
  have leave: "paid w down (leave_server v) down"
    if "w_sent v = w_sent w @ out" "work_weight v + sum_list (map up_weight out) \<le> work_weight w" for v out
    using that main
    by (intro paidI [of _ _ "out @ [Disconnect]"])
      (auto simp: told_def worker_weight_def main_weight_def leave_server_def work_weight_def)
  show ?thesis
  proof (cases "w_tasks_done w")
    case Nil
    then have "w' = leave_server w" using step by (auto simp: main_join_def main_catch_def split: if_splits)
    then show ?thesis using leave [of w "[]"] by simp
  next
    case (Cons t ts)
    let ?w = "w\<lparr> w_tasks_done := ts \<rparr>"
    have w: "work_weight ?w + 5 = work_weight w" using Cons by (simp add: work_weight_def)
    have r: "main_catch w (return_task env t ?w) = Inr w'" using step Cons by (auto simp: main_join_def split: if_splits)
    show ?thesis
    proof (cases "return_task env t ?w")
      case (Inr v)
      then have "return_task env t ?w = Inr w'" using r by (simp add: main_catch_def)
      then obtain out where out: "w_sent w' = w_sent w @ out" "sum_list (map up_weight out) \<le> 4" "same_books ?w w'"
        using return_task_weight by fastforce
      then show ?thesis using same_books_weight [OF out(3)] w stop main
        by (intro paidI [of _ _ out]) (simp_all add: told_def worker_weight_def)
    next
      case (Inl q)
      then obtain e v where q: "return_task env t ?w = Inl (e, v)" "w' = leave_server v"
        using r by (cases q) (auto simp: main_catch_def split: if_splits)
      obtain out where out: "w_sent v = w_sent w @ out" "sum_list (map up_weight out) \<le> 2" "same_books ?w v"
        using return_task_Inl_weight [OF q(1)] by auto
      then show ?thesis using same_books_weight [OF out(3)] w q(2) leave [of v out] by simp
    qed
  qed
qed

lemma receive_paid:
  assumes step: "map_option (main_catch w) (receive_server_cmd env m w) = Some (Inr w')" and inv: "worker_inv w"
    and prot: "protocol (w_main w) up (m # chan)" and told: "told w (m # chan)"
  shows "paid w (m # chan) w' chan"
proof (cases "w_main w")
  case Awaiting_activation
  then have "plain m" using prot by (simp add: protocol_def)
  then show ?thesis
  proof (cases m)
    case S2W_ACTIVATE_WORKER
    then have w': "w' = start_threads w" using step Awaiting_activation by (simp add: receive_server_cmd_def main_catch_def)
    have "w_threads w = []" using inv Awaiting_activation by (simp add: worker_inv_def)
    then show ?thesis unfolding w' using Awaiting_activation told S2W_ACTIVATE_WORKER
      by (intro paidI [of _ _ "[]"])
        (auto simp: told_def worker_weight_def main_weight_def work_weight_def start_threads_def num_probsat_threads_per_worker_def
          sum_list_replicate)
  next
    case S2W_TERMINATE
    then have w': "w' = w\<lparr> w_running := False \<rparr>" using step Awaiting_activation by (simp add: receive_server_cmd_def main_catch_def)
    show ?thesis unfolding w' using Awaiting_activation S2W_TERMINATE
      by (intro paidI [of _ _ "[]"]) (simp_all add: told_def worker_weight_def main_weight_def work_weight_def)
  qed simp_all
next
  case (Receiving n)
  then obtain v where v: "process_server_cmd env m w = Some (Inr v)"
    "w' = (case m of S2W_SEND_INSTANCES _ \<Rightarrow> v\<lparr> w_main := Looping \<rparr> | _ \<Rightarrow> v)"
    using step Receiving by (auto simp: receive_server_cmd_def main_catch_Inr rbind_Inr_iff)
  show ?thesis
  proof (cases "sends_instances m")
    case False
    have w': "w' = v" using v(2) False by (cases m) simp_all
    have s: "w_sent v = w_sent w \<and> work_weight v = work_weight w \<and> w_main v = w_main w"
      using process_other_keeps [OF False v(1)] by (simp add: work_weight_def)
    show ?thesis
    proof (cases "m = S2W_TERMINATE")
      case True
      then have "\<not> w_running v" using v(1) by auto
      then show ?thesis unfolding w' using s Receiving True
        by (intro paidI [of _ _ "[]"]) (simp_all add: told_def worker_weight_def main_weight_def)
    next
      case m: False
      have "w_running v = w_running w" using m v(1) False by (cases m) (auto simp: rbind_Inr_iff)
      then show ?thesis unfolding w' using s Receiving early_other [OF False m, of chan] down_weight_pos [of m] told m
        by (intro paidI [of _ _ "[]"]) (auto simp: told_def worker_weight_def main_weight_def)
    qed
  next
    case True
    then have "\<not> plain m" using plain_simps(1) by blast
    then have "answer_coming n (m # chan)" using prot Receiving by (auto simp: protocol_def)
    from answer_first(1) [OF this True] obtain len jobs where m: "m = S2W_SEND_INSTANCES (len, Some jobs)" "jobs_total jobs \<le> unat n"
      by blast
    have up: "threads_up w" "unat n \<le> unat (w_instances_to_get w)" using inv Receiving by (simp_all add: worker_inv_def)
    have p: "process_s2w_send_instances env (len, Some jobs) w = Some (Inr v)" using v(1) m(1) by simp
    then have "if \<not> w_running w \<or> jobs = [] then v = w else create_tasks env jobs w = Some (Inr v)"
      by (auto simp: process_s2w_send_instances_def received_Inr split: sum.splits if_splits)
    then have f: "w_sent v = w_sent w \<and> w_running v = w_running w \<and> work_weight v \<le> work_weight w + 9 * (if w_running w then jobs_total jobs else 0)"
      using create_tasks_keeps [of env jobs w v] m(2) up(2)
      by (auto simp: work_weight_def Worker.jobs_total_def Server_Schedule.jobs_total_def split: if_splits)
    have w': "w' = v\<lparr> w_main := Looping \<rparr>" using v(2) m(1) by simp
    have "early (m # chan)" using m(1) by simp
    then show ?thesis unfolding w' using f Receiving told m(1)
      by (intro paidI [of _ _ "[]"])
        (auto simp: told_def worker_weight_def main_weight_def work_weight_def)
  qed
qed (use step in \<open>simp_all add: receive_server_cmd_def\<close>)

lemma worker_step_paid:
  assumes step: "worker_step env ev w = Some (Inr w')" and inv: "worker_inv w" and r: "reads ev down chan"
    and prot: "protocol (w_main w) up down" and told: "told w down"
  shows "paid w down w' chan"
proof (cases ev)
  case (Thread_runs i m)
  then show ?thesis using thread_paid [of env i m w w' down] step r told by (simp add: reads_def)
next
  case (Main_round probe)
  have chan: "chan = down" "\<And>m. probe = Some m \<Longrightarrow> m \<in> set down"
    using r Main_round by (auto simp: reads_def split: option.splits)
  consider "w_main w = Looping" "main_loop_round env probe w = Some (Inr w')"
    | "w_main w = Joining" "map_option (main_catch w) (main_join env w) = Some (Inr w')"
    using step Main_round by (cases "w_main w") (auto simp: main_catch_Inr)
  then show ?thesis
  proof cases
    case 1
    then show ?thesis using looping_paid [OF 1(2,1) _ _ chan(2) told] inv prot chan(1)
      by (simp add: worker_inv_def protocol_def)
  next
    case 2
    then show ?thesis using joining_paid [OF 2(2,1)] inv chan(1) by (simp add: worker_inv_def)
  qed
next
  case (Main_receives m)
  then show ?thesis using receive_paid [of w env m w' up chan] step inv prot told r by (simp add: reads_def)
qed

section \<open>The server after the dismissal\<close>

text \<open>Messages to the manager reach no worker.\<close>

fun to_manager :: "'p server_message \<Rightarrow> bool" where
  "to_manager (To_manager_req_max n) = True"
| "to_manager (Solution_to_manager info) = True"
| "to_manager (Statistics_to_manager m s) = True"
| "to_manager _ = False"

definition only_manager :: "'p server \<Rightarrow> 'p server \<Rightarrow> bool" where
  "only_manager st st' \<longleftrightarrow> terminated_workers st' \<and> accepted st' = accepted st \<and>
     (\<exists>ms. sent st' = sent st @ ms \<and> list_all to_manager ms)"

lemma to_manager_undelivered: "list_all to_manager ms \<Longrightarrow> concat (map (delivered env c) ms) = []"
proof (induction ms)
  case (Cons m ms)
  then show ?case by (cases m) simp_all
qed simp

lemma only_manager_same: "terminated_workers st \<Longrightarrow> only_manager st st"
  by (simp add: only_manager_def)

lemma only_manager_trans: "only_manager st st1 \<Longrightarrow> only_manager st1 st2 \<Longrightarrow> only_manager st st2"
  by (auto simp: only_manager_def)

lemma only_manager_cong:
  "only_manager st1 st2 \<Longrightarrow> sent st = sent st1 \<Longrightarrow> accepted st = accepted st1 \<Longrightarrow> sent st' = sent st2 \<Longrightarrow>
   accepted st' = accepted st2 \<Longrightarrow> terminated_workers st' = terminated_workers st2 \<Longrightarrow> only_manager st st'"
  by (simp add: only_manager_def)

lemma manager_send_only:
  assumes "manager_send env fs m st = Inr st'" "to_manager m" "terminated_workers st"
  shows "only_manager st st'"
proof -
  obtain ms where "sent st' = sent st @ ms @ [m]" "set ms \<subseteq> range To_manager_req_max"
    using manager_send_sent [OF assms(1)] by blast
  then show ?thesis using assms(2,3) books_eqD [OF manager_send_frame [OF assms(1)]]
    by (auto simp: only_manager_def list_all_iff)
qed

lemma foldR_only_manager:
  assumes "\<And>x s s'. f x s = Inr s' \<Longrightarrow> terminated_workers s \<Longrightarrow> only_manager s s'"
  shows "foldR f xs st = Inr st' \<Longrightarrow> terminated_workers st \<Longrightarrow> only_manager st st'"
proof (induction xs arbitrary: st)
  case (Cons x xs)
  then obtain s where s: "f x st = Inr s" "foldR f xs s = Inr st'" by (auto simp: rbind_Inr_iff)
  have o: "only_manager st s" using assms s(1) Cons.prems(2) by blast
  then show ?case using Cons.IH [OF s(2)] only_manager_trans by (auto simp: only_manager_def)
qed (simp add: only_manager_same)

lemma send_statistic_only:
  assumes a: "send_statistic_to_manager env st = Inr st'" and t: "terminated_workers st"
  shows "only_manager st st'"
proof (cases "statistic_send st")
  case True
  then show ?thesis using a t by (simp add: send_statistic_to_manager_def only_manager_same)
next
  case False
  then have f: "foldR (\<lambda>t st. if reported st t then send_statistics_send env (metadata t) (statistics t) st else Inr st)
      (available_tasks st) (st\<lparr> statistic_send := True \<rparr>) = Inr st'"
    using a by (simp add: send_statistic_to_manager_def)
  have "only_manager (st\<lparr> statistic_send := True \<rparr>) st'"
    by (rule foldR_only_manager [OF _ f])
      (use t in \<open>auto simp: send_statistics_send_def only_manager_same intro: manager_send_only split: if_splits\<close>)
  then show ?thesis by (rule only_manager_cong) simp_all
qed

lemma send_termination_only: "send_termination_to_workers env st = Inr st' \<Longrightarrow> terminated_workers st \<Longrightarrow> st' = st"
  by (simp add: send_termination_to_workers_def)

fun is_request :: "'p worker_message \<Rightarrow> bool" where
  "is_request (Get_instances n) = True"
| "is_request _ = False"

lemma message_only_manager:
  assumes run: "process_worker_cmd env i s (arriving wenv m) st = Inr st'" and t: "terminated_workers st" and m: "\<not> is_request m"
  shows "only_manager st st'"
proof (cases m)
  case (Server_req_max n)
  then show ?thesis using run t
    by (auto simp: rbind_Inr_iff process_w2s_REQ_MAX_CMD_LENGTH_def renew_request_def only_manager_def)
next
  case (Found_solution info)
  let ?p = "(int (we_length wenv (serialize_solution_info info)), Some info)" and ?st = "st\<lparr> solution_found := True \<rparr>"
  obtain st1 reqs where st1: "process_w2s_FOUND_SOLUTION env i ?p st = Inr st1" "st' = st1\<lparr> work_unit_requests := reqs \<rparr>"
    using renewedE [OF run [unfolded Found_solution arriving.simps process_worker_cmd.simps]] by blast
  obtain info' where "manager_send env (serialize_solution_info info') (Solution_to_manager info') ?st = Inr st1"
    using st1(1) t by (auto simp: process_w2s_FOUND_SOLUTION_def rbind_Inr_iff Let_def found_solution_send_def
        send_termination_to_workers_def split: if_splits)
  then have "only_manager ?st st1" by (rule manager_send_only) (use t in simp_all)
  then show ?thesis by (rule only_manager_cong) (simp_all add: st1(2))
next
  case (Done_processing d)
  let ?p = "(int (we_length wenv (serialize_done_processing_info d)), Some d)"
  obtain st1 reqs where st1: "process_w2s_DONE_PROCESSING env i ?p st = Inr st1" "st' = st1\<lparr> work_unit_requests := reqs \<rparr>"
    using renewedE [OF run [unfolded Done_processing arriving.simps process_worker_cmd.simps]] by blast
  obtain v where v: "terminated_workers v" "sent v = sent st" "accepted v = accepted st"
    "st1 = v \<or> (\<exists>u. send_statistic_to_manager env v = Inr u \<and> send_termination_to_workers env u = Inr st1)"
    using report_end [OF st1(1)] t by auto
  have "only_manager v st1"
  proof (cases "st1 = v")
    case True
    then show ?thesis using v(1) by (simp add: only_manager_same)
  next
    case False
    then obtain u where u: "send_statistic_to_manager env v = Inr u" "send_termination_to_workers env u = Inr st1"
      using v(4) by blast
    have "only_manager v u" by (rule send_statistic_only [OF u(1) v(1)])
    moreover from this have "st1 = u" using send_termination_only [OF u(2)] by (simp add: only_manager_def)
    ultimately show ?thesis by simp
  qed
  then show ?thesis by (rule only_manager_cong) (use v st1(2) in simp_all)
next
  case Disconnect
  obtain reqs us sizes bufs where v:
    "let st1 = st\<lparr> work_unit_requests := reqs, work_units := us, transfer_sizes := sizes,
       worker_comm_buffers := bufs, work_units_disconnected := work_units_disconnected st + 1 \<rparr> in
     st' = st1 \<or> (\<exists>st2. send_statistic_to_manager env st1 = Inr st2 \<and> st' = st2\<lparr> running := False \<rparr>)"
    using run Disconnect by (simp add: process_w2s_DISCONNECT_def rbind_Inr_iff Let_def split: if_splits) blast+
  let ?st = "st\<lparr> work_unit_requests := reqs, work_units := us, transfer_sizes := sizes,
     worker_comm_buffers := bufs, work_units_disconnected := work_units_disconnected st + 1 \<rparr>"
  have "st' = ?st \<or> (\<exists>st2. send_statistic_to_manager env ?st = Inr st2 \<and> st' = st2\<lparr> running := False \<rparr>)"
    using v by (simp only: Let_def)
  then show ?thesis
  proof (elim disjE exE conjE)
    fix st2 assume st2: "send_statistic_to_manager env ?st = Inr st2" "st' = st2\<lparr> running := False \<rparr>"
    have "only_manager ?st st2" by (rule send_statistic_only [OF st2(1)]) (simp add: t)
    then show ?thesis by (rule only_manager_cong) (simp_all add: st2(2))
  qed (simp add: only_manager_def t)
qed (use m in simp)

section \<open>The system after the dismissal\<close>

definition winding_down :: "'p network \<Rightarrow> bool" where
  "winding_down net \<longleftrightarrow> terminated_workers (net_server net) \<and>
     (\<forall>k < length (net_workers net). told (net_workers net ! k) (to_worker net ! k))"

definition potential :: "'p network \<Rightarrow> nat" where
  "potential net = (\<Sum>k \<leftarrow> [0..<length (net_workers net)].
     worker_weight (net_workers net ! k) (to_server net ! k) (to_worker net ! k))"

text \<open>Events in which the manager sends no command.\<close>

fun unattended :: "'p net_event \<Rightarrow> bool" where
  "unattended (Server_round src cmd) = (cmd = None)"
| "unattended _ = True"

lemma potential_change:
  assumes "k < length (net_workers net)" "length (net_workers net') = length (net_workers net)"
    and "\<And>j. j < length (net_workers net) \<Longrightarrow> j \<noteq> k \<Longrightarrow> net_workers net' ! j = net_workers net ! j \<and>
      to_server net' ! j = to_server net ! j \<and> to_worker net' ! j = to_worker net ! j"
    and "worker_weight (net_workers net' ! k) (to_server net' ! k) (to_worker net' ! k) <
      worker_weight (net_workers net ! k) (to_server net ! k) (to_worker net ! k)"
  shows "potential net' < potential net"
  using sum_change [of k "length (net_workers net)"
      "\<lambda>k. worker_weight (net_workers net' ! k) (to_server net' ! k) (to_worker net' ! k)"
      "\<lambda>k. worker_weight (net_workers net ! k) (to_server net ! k) (to_worker net ! k)"] assms
  by (simp add: potential_def)

lemma worker_moves_down:
  assumes inv: "net_inv senv wenv net" and wd: "winding_down net" and k: "k < length (net_workers net)"
    and r: "reads ev (to_worker net ! k) chan" and moves: "worker_moves wenv k ev chan net = Some net'"
  shows "winding_down net' \<and> (net' = net \<or> potential net' < potential net)"
proof -
  let ?s = "net_server net" and ?ws = "net_workers net" and ?ups = "to_server net" and ?downs = "to_worker net"
  let ?w = "?ws ! k"
  obtain w' where step: "worker_step wenv ev ?w = Some (Inr w')"
    and net': "net' = net\<lparr> net_workers := ?ws[k := w'],
      to_server := ?ups[k := ?ups ! k @ drop (length (w_sent ?w)) (w_sent w')], to_worker := ?downs[k := chan] \<rparr>"
    using moves by (auto simp: worker_moves_def Let_def split: option.splits sum.splits)
  have lens: "length ?ws = accepted ?s" "length ?ups = accepted ?s" "length ?downs = accepted ?s"
    using inv by (simp_all add: net_inv_def system_inv_def)
  have "worker_ok wenv (map metadata (available_tasks ?s)) ?w (?ups ! k) (?downs ! k)"
    using inv k lens by (simp add: net_inv_def system_inv_def)
  then obtain g where g: "worker_run wenv g ?w" and prot: "protocol (w_main ?w) (?ups ! k) (?downs ! k)"
    unfolding worker_ok_def by blast
  have winv: "worker_inv ?w" using worker_run_keeps [OF g] by blast
  have told: "told ?w (?downs ! k)" using wd k by (simp add: winding_down_def)
  obtain out where out: "w_sent w' = w_sent ?w @ out" "told w' chan"
    "w' = ?w \<and> chan = ?downs ! k \<or> worker_weight w' out chan <
      main_weight (w_running ?w) (w_main ?w) (?downs ! k) + work_weight ?w + sum_list (map down_weight (?downs ! k))"
    using worker_step_paid [OF step winv r prot told] by (auto simp: paid_def)
  have net': "net' = net\<lparr> net_workers := ?ws[k := w'], to_server := ?ups[k := ?ups ! k @ out], to_worker := ?downs[k := chan] \<rparr>"
    using net' out(1) by simp
  have "told (net_workers net' ! j) (to_worker net' ! j)" if "j < length ?ws" for j
    using wd out(2) that lens unfolding net' by (cases "j = k") (simp_all add: winding_down_def)
  then have 1: "winding_down net'" using wd by (simp add: winding_down_def net')
  show ?thesis
  proof (cases "w' = ?w \<and> chan = ?downs ! k")
    case True
    then have "out = []" using out(1) by simp
    then have "net' = net" unfolding net' using True by (cases net) simp
    then show ?thesis using 1 by simp
  next
    case False
    then have "worker_weight w' (?ups ! k @ out) chan < worker_weight ?w (?ups ! k) (?downs ! k)"
      using out(3) unfolding worker_weight_def map_append sum_list_append by linarith
    then have "potential net' < potential net"
      unfolding net' using k lens by (intro potential_change [OF k]) simp_all
    then show ?thesis using 1 by simp
  qed
qed

lemma server_moves_down:
  assumes inj: "inj (accept senv)" and inv: "net_inv senv wenv net" and wd: "winding_down net"
    and moves: "server_moves senv wenv src None net = Some net'"
  shows "winding_down net' \<and> (net' = net \<or> potential net' < potential net)"
proof -
  let ?s = "net_server net" and ?ws = "net_workers net" and ?ups = "to_server net" and ?downs = "to_worker net"
  have lens: "length ?ws = accepted ?s" "length ?ups = accepted ?s" "length ?downs = accepted ?s"
    using inv by (simp_all add: net_inv_def system_inv_def)
  obtain probe chans st where t: "server_takes senv wenv src net = Some (probe, chans)" "worker_probe senv probe ?s = Inr st"
    and net': "net' = \<lparr> net_server = st,
        net_workers = ?ws @ replicate (accepted st - accepted ?s) worker_init,
        to_server = chans @ replicate (accepted st - accepted ?s) [],
        to_worker = deliver senv (drop (length (sent ?s)) (sent st)) (?downs @ replicate (accepted st - accepted ?s) []) \<rparr>"
    using moves by (auto simp: server_moves_def server_iteration_def rbind_Inr_iff Let_def split: if_splits option.splits sum.splits)
  show ?thesis
  proof (cases src)
    case None
    then have "chans = ?ups" "st = ?s"
      using t by (auto simp: server_takes_def worker_probe_def split: if_splits)
    moreover have "deliver senv [] ?downs = ?downs" by (intro nth_equalityI) (simp_all del: concat.simps, simp)
    ultimately have "net' = net" unfolding net' by (cases net) simp
    then show ?thesis using wd by simp
  next
    case (Some ik)
    obtain i k where ik: "ik = (i, k)" by force
    let ?st = "?s\<lparr> work_unit_requests := (work_unit_requests ?s)[i := False] \<rparr>"
    obtain m rest where g: "i < length (work_units ?s)" "k < length ?ws" "work_units ?s ! i = accept senv k"
      "?ups ! k = m # rest" "probe = Some (int i, 0, arriving wenv m)" "chans = ?ups[k := rest]"
      using t(1) Some ik by (auto simp: server_takes_def split: if_splits list.splits)
    have "work_unit_requests ?s \<noteq> [] \<and> i < length (work_unit_requests ?s)"
      using inv g(1) by (auto simp: net_inv_def system_inv_def server_inv_def workers_inv_def)
    then have run: "process_worker_cmd senv i 0 (arriving wenv m) ?st = Inr st"
      using t(2) g(5) by (simp add: worker_probe_def)
    have dismissed: "terminated_workers ?st" using wd by (simp add: winding_down_def)
    have sinv: "server_inv senv ?st"
      using inv system_inv_requests [of senv wenv ?s i False ?ws ?ups ?downs] by (simp add: net_inv_def system_inv_def)
    have "worker_ok wenv (map metadata (available_tasks ?s)) (?ws ! k) (?ups ! k) (?downs ! k)"
      using inv g(2) lens by (simp add: net_inv_def system_inv_def)
    then have prot: "protocol (w_main (?ws ! k)) (m # rest) (?downs ! k)" unfolding worker_ok_def using g(4) by simp
    have told: "told (?ws ! j) (?downs ! j)" if "j < length ?ws" for j using wd that by (simp add: winding_down_def)
    have e: "terminated_workers st \<and> accepted st = accepted ?s \<and> (\<exists>ms. sent st = sent ?s @ ms \<and>
        (\<forall>j. j \<noteq> k \<longrightarrow> concat (map (delivered senv (accept senv j)) ms) = []) \<and>
        worker_weight (?ws ! k) rest (?downs ! k @ concat (map (delivered senv (accept senv k)) ms)) <
        worker_weight (?ws ! k) (m # rest) (?downs ! k))"
    proof (cases "is_request m")
      case False
      then have "only_manager ?st st" using message_only_manager [OF run dismissed] by simp
      then obtain ms where o: "terminated_workers st" "accepted st = accepted ?s" "sent st = sent ?s @ ms" "list_all to_manager ms"
        by (auto simp: only_manager_def)
      have none: "concat (map (delivered senv c) ms) = []" for c by (rule to_manager_undelivered [OF o(4)])
      show ?thesis using o(1-3) up_weight_pos [of m]
        by (intro conjI exI [of _ ms]) (simp_all only: none worker_weight_def, simp_all)
    next
      case True
      then obtain n where m: "m = Get_instances n" by (cases m) auto
      obtain req jobs where get: "terminated_workers st" "accepted st = accepted ?st" "jobs_total jobs \<le> unat n"
        "sent st = sent ?st @ (case req of None \<Rightarrow> [] | Some k \<Rightarrow> [To_worker_req_max (work_units ?st ! i) 0 k]) @
          [Send_instances (work_units ?st ! i) 0 jobs]"
        using request_effect [OF sinv run [unfolded m arriving.simps]] dismissed by auto
      let ?ms = "(case req of None \<Rightarrow> [] | Some l \<Rightarrow> [To_worker_req_max (accept senv k) 0 l]) @
          [Send_instances (accept senv k) 0 jobs] :: 'a server_message list"
      let ?new = "concat (map (delivered senv (accept senv k)) ?ms)"
      have other: "concat (map (delivered senv (accept senv j)) ?ms) = []" if "j \<noteq> k" for j
        using that inj by (cases req) (auto dest: injD)
      have new: "sum_list (map down_weight ?new) \<le> 2 + 9 * unat n" using get(3) by (cases req) simp_all
      have w: "w_main (?ws ! k) = Receiving n" using prot m by (cases "w_main (?ws ! k)") (simp_all add: protocol_def)
      have "main_weight (w_running (?ws ! k)) (w_main (?ws ! k)) (?downs ! k @ ?new) =
          main_weight (w_running (?ws ! k)) (w_main (?ws ! k)) (?downs ! k)"
        using told [OF g(2)] early_append [of "?downs ! k" ?new] w by (auto simp: told_def main_weight_def)
      then have "worker_weight (?ws ! k) rest (?downs ! k @ ?new) < worker_weight (?ws ! k) (m # rest) (?downs ! k)"
        using new m unfolding worker_weight_def by (simp del: delivered.simps)
      moreover have "work_units ?st ! i = accept senv k" using g(3) by simp
      then have "sent st = sent ?s @ ?ms" using get(4) by (simp only:) simp
      moreover have "accepted st = accepted ?s" using get(2) by simp
      ultimately show ?thesis using get(1) other by blast
    qed
    then obtain ms where ms: "terminated_workers st" "accepted st = accepted ?s" "sent st = sent ?s @ ms"
      "\<And>j. j \<noteq> k \<Longrightarrow> concat (map (delivered senv (accept senv j)) ms) = []"
      "worker_weight (?ws ! k) rest (?downs ! k @ concat (map (delivered senv (accept senv k)) ms)) <
        worker_weight (?ws ! k) (m # rest) (?downs ! k)" by blast
    have net': "net' = \<lparr> net_server = st, net_workers = ?ws, to_server = ?ups[k := rest], to_worker = deliver senv ms ?downs \<rparr>"
      using net' g(6) ms(2,3) by simp
    have kk: "k < accepted ?s" using g(2) lens by simp
    have "potential net' < potential net"
      unfolding net' using kk lens ms(4,5) g(4) by (intro potential_change [OF g(2)]) simp_all
    moreover have "winding_down net'"
      using ms(1) wd lens unfolding net' winding_down_def by (auto simp: told_def)
    ultimately show ?thesis by simp
  qed
qed

theorem net_step_down:
  assumes inj: "inj (accept senv)" and inv: "net_inv senv wenv net" and wd: "winding_down net"
    and step: "net_step senv wenv ev net = Some net'" and ev: "unattended ev"
  shows "winding_down net' \<and> (net' = net \<or> potential net' < potential net)"
proof (cases ev)
  case (Server_round src cmd)
  then show ?thesis using server_moves_down [OF inj inv wd] step ev by simp
next
  case (Thread k i m)
  then show ?thesis using worker_moves_down [OF inv wd, of k "Thread_runs i m"] step by (auto simp: reads_def split: if_splits)
next
  case (Main_polls k arrived)
  then show ?thesis
    using step worker_moves_down [OF inv wd, of k "Main_round None"] worker_moves_down [OF inv wd, of k "Main_round (Some m)" for m]
    by (auto simp: reads_def split: if_splits list.splits)
next
  case (Main_takes k)
  then show ?thesis using step worker_moves_down [OF inv wd, of k "Main_receives m" for m]
    by (auto simp: reads_def split: if_splits list.splits)
qed

section \<open>The dismissal\<close>

text \<open>
  The round in which the server dismisses its workers puts the order to stop into the channel of
  every worker that has not left, if no workers are added in the same round.
\<close>

theorem dismissal_winds_down:
  assumes inj: "inj (accept senv)" and sizes: "\<forall>c. 0 < comm_size senv c" and r: "reachable senv wenv net"
    and moves: "server_moves senv wenv src cmd net = Some net'"
    and flag: "\<not> terminated_workers (net_server net)" "terminated_workers (net_server net')"
    and cmd: "\<forall>c n. cmd \<noteq> Some (M2S_ADD_WORKERS c n)"
  shows "winding_down net'"
proof -
  let ?s = "net_server net" and ?ws = "net_workers net" and ?ups = "to_server net" and ?downs = "to_worker net"
  have inv: "net_inv senv wenv net" by (rule reachable_inv [OF inj r])
  note pres = reachable_presence [OF inj r]
  note pres' = server_moves_presence [OF inj inv pres moves]
  obtain probe chans st where t: "server_takes senv wenv src net = Some (probe, chans)"
    "server_iteration senv (probe, cmd) ?s = Inr st"
    and net': "net' = \<lparr> net_server = st,
        net_workers = ?ws @ replicate (accepted st - accepted ?s) worker_init,
        to_server = chans @ replicate (accepted st - accepted ?s) [],
        to_worker = deliver senv (drop (length (sent ?s)) (sent st)) (?downs @ replicate (accepted st - accepted ?s) []) \<rparr>"
    using moves by (auto simp: server_moves_def Let_def split: if_splits option.splits sum.splits)
  obtain st1 where st1: "worker_probe senv probe ?s = Inr st1"
    "(case cmd of None \<Rightarrow> Inr st1 | Some c \<Rightarrow> process_manager_cmd senv c st1) = Inr st"
    using t(2) by (auto simp: server_iteration_def rbind_Inr_iff)
  obtain ms where p: "system_inv senv wenv st1 ?ws chans (deliver senv ms ?downs)" "accepted st1 = accepted ?s" "sent st1 = sent ?s @ ms"
    using probe_keeps [OF inj inv t(1) st1(1)] by blast
  have si: "server_inv senv ?s" "server_inv senv st1" and lens: "length ?ws = accepted ?s" "length ?downs = accepted ?s"
    using inv p(1) by (simp_all add: net_inv_def system_inv_def)
  obtain ms2 where ms2: "sent st = sent st1 @ ms2" "accepted st = accepted st1" "work_units st = work_units st1"
    "terminated_workers st1 \<or> (\<forall>c \<in> set (work_units st1). Terminate_worker c 0 \<in> set ms2)"
  proof (cases cmd)
    case None
    then show ?thesis using that [of "[]"] st1(2) flag(2) net' by simp
  next
    case (Some c)
    then have c: "process_manager_cmd senv c st1 = Inr st" using st1(2) by simp
    obtain m where m: "sent st = sent st1 @ m" using manager_cmd_effect [OF c] by (auto simp: sends_light_def)
    have u: "accepted st = accepted st1 \<and> work_units st = work_units st1 \<and> (c \<noteq> M2S_TERMINATE \<longrightarrow> terminated_workers st = terminated_workers st1)"
      using manager_units [OF c] cmd Some by auto
    have "terminated_workers st1 \<or> (\<forall>c \<in> set (work_units st1). Terminate_worker c 0 \<in> set m)"
    proof (cases "terminated_workers st1")
      case False
      then have "c = M2S_TERMINATE" using u flag(2) net' by auto
      then have "send_termination_to_workers senv st1 = Inr st" using c by simp
      then have "dismisses senv st1 st" by (rule send_termination_all) (use False si(2) in \<open>simp_all add: server_inv_def workers_inv_def\<close>)
      then show ?thesis using m sizes by (auto simp: dismisses_def)
    qed simp
    then show ?thesis using that [OF m] u by blast
  qed
  have told: "told (?ws ! k) (?downs ! k @ concat (map (delivered senv (accept senv k)) (ms @ ms2)))" if k: "k < length ?ws" for k
  proof (cases "w_main (?ws ! k) = Finished")
    case False
    have "Terminate_worker (accept senv k) 0 \<in> set (ms @ ms2)"
    proof (cases "terminated_workers st1")
      case True
      then obtain ik where "src = Some ik"
        using st1(1) t(1) flag(1) by (cases src) (auto simp: server_takes_def worker_probe_def split: if_splits)
      then obtain i k' where ik: "src = Some (i, k')" by (cases ik) auto
      obtain m rest where g: "i < length (work_units ?s)" "probe = Some (int i, 0, arriving wenv m)"
        using t(1) ik by (auto simp: server_takes_def split: if_splits list.splits)
      let ?st = "?s\<lparr> work_unit_requests := (work_unit_requests ?s)[i := False] \<rparr>"
      have "work_unit_requests ?s \<noteq> [] \<and> i < length (work_unit_requests ?s)"
        using si(1) g(1) by (auto simp: server_inv_def workers_inv_def)
      then have run: "process_worker_cmd senv i 0 (arriving wenv m) ?st = Inr st1" using st1(1) g(2) by (simp add: worker_probe_def)
      have "dismisses senv ?st st1"
        by (rule message_dismisses [OF run]) (use True flag(1) si(1) in \<open>simp_all add: requests_inv\<close>)
      moreover have "accept senv k \<in> set (work_units ?s)" using pres k False lens by (simp add: presence_def farewell_def)
      ultimately show ?thesis using p(3) sizes by (auto simp: dismisses_def)
    next
      case no: False
      have "farewell (w_main (net_workers net' ! k)) (to_server net' ! k) (accept senv k \<in> set (work_units st))"
        using pres' k lens ms2(2) p(2) net' by (simp add: presence_def)
      then have "accept senv k \<in> set (work_units st1)" using False k net' ms2(3) by (simp add: farewell_def nth_append)
      then show ?thesis using no ms2(4) by simp
    qed
    then have "S2W_TERMINATE \<in> set (concat (map (delivered senv (accept senv k)) (ms @ ms2)))" by force
    then show ?thesis by (simp add: told_def)
  qed (simp add: told_def)
  have n: "accepted st - accepted ?s = 0" using ms2(2) p(2) by simp
  have d: "drop (length (sent ?s)) (sent st) = ms @ ms2" using p(3) ms2(1) by simp
  have e: "net' = \<lparr> net_server = st, net_workers = ?ws, to_server = chans, to_worker = deliver senv (ms @ ms2) ?downs \<rparr>"
    unfolding net' n d by simp
  have "told (?ws ! k) (deliver senv (ms @ ms2) ?downs ! k)" if "k < length ?ws" for k
    using told [OF that] that lens by simp
  then show ?thesis using flag(2) unfolding winding_down_def e by simp
qed

end
