(* ===== verification/Network_Answers.thy ===== *)
theory Network_Answers
  imports Network_Leaving
begin

text \<open>
  The sizes of what the server sends to its workers, the other direction of \<open>Network_Sizes\<close>: the
  server announces an answer that is larger than all before, the announcement arrives first,
  and the buffer of the worker never shrinks.
\<close>

section \<open>The buffer of a worker\<close>

lemma set_thread_capacity [simp]: "w_capacity (set_thread i th w) = w_capacity w"
  by (simp add: set_thread_def)

lemma server_send_capacity:
  assumes grows: "\<And>c n. c \<le> we_grown env c n"
  shows "server_send env items msg w = Inr w' \<Longrightarrow> w_capacity w \<le> w_capacity w'"
    and "server_send env items msg w = Inl (e, w') \<Longrightarrow> w_capacity w \<le> w_capacity w'"
  using grows by (auto simp: server_send_def Let_def rbind_Inr_iff rbind_Inl_iff thrown_Inr thrown_Inl)

lemma return_task_capacity:
  assumes grows: "\<And>c n. c \<le> we_grown env c n" and run: "return_task env t w = r"
  shows "w_capacity w \<le> w_capacity (case r of Inr w' \<Rightarrow> w' | Inl (e, w') \<Rightarrow> w')"
proof -
  note send = server_send_capacity [of env, OF grows]
  show ?thesis
  proof (cases "if dp_solved (t_dpi t)
      then server_send env (serialize_solution_info (solution_of t)) (Found_solution (solution_of t)) w
      else Inr w")
    case (Inl x)
    then show ?thesis using run send(2) by (cases x) (auto simp: return_task_def split: if_splits)
  next
    case (Inr w1)
    then have w1: "w_capacity w \<le> w_capacity w1" using send(1) by (auto split: if_splits)
    let ?second = "server_send env (serialize_done_processing_info (t_dpi t)) (Done_processing (t_dpi t)) w1"
    have r: "r = (if 0 \<ge> dp_instances_processed (t_dpi t) then Inl (Runtime_error ''worker was unable to solve task!'', w1) else ?second)"
      using run Inr by (simp add: return_task_def)
    have "w_capacity w1 \<le> w_capacity (case ?second of Inr w' \<Rightarrow> w' | Inl (e, w') \<Rightarrow> w')"
      using send by (auto split: sum.splits)
    then show ?thesis using r w1 by (auto split: if_splits)
  qed
qed

lemma create_tasks_capacity: "create_tasks env jobs w = Some (Inr w') \<Longrightarrow> w_capacity w' = w_capacity w"
proof (induction env jobs w rule: create_tasks.induct)
  case (2 env j jobs w)
  then show ?case by (fastforce split: if_splits option.splits sum.splits)
qed simp

lemma process_capacity:
  assumes "process_server_cmd env msg w = Some (Inr w')"
  shows "w_capacity w' = (case msg of S2W_REQ_MAX_CMD_LENGTH (len, Some n) \<Rightarrow> max (w_capacity w) (nat n) | _ \<Rightarrow> w_capacity w)"
proof (cases msg)
  case (S2W_REQ_MAX_CMD_LENGTH p)
  then show ?thesis using assms
    by (cases p; cases "snd p") (auto simp: rbind_Inr_iff thrown_Inr req_max_transfer_size_process_def received_Inr split: if_splits)
next
  case (S2W_SEND_INSTANCES p)
  then show ?thesis using assms create_tasks_capacity
    by (auto simp: process_s2w_send_instances_def split: sum.splits if_splits)
qed (use assms in auto)

lemma leave_server_capacity [simp]: "w_capacity (leave_server w) = w_capacity w"
  by (simp add: leave_server_def)

lemma step_capacity:
  assumes grows: "\<And>c n. c \<le> we_grown env c n" and step: "worker_step env ev w = Some (Inr w')"
    and polled: "\<And>m. ev = Main_round (Some m) \<Longrightarrow> plain m"
    and first: "\<And>m. ev = Main_receives m \<Longrightarrow> w_main w = Awaiting_activation \<Longrightarrow> plain m"
  shows "w_capacity w \<le> w_capacity w' \<and>
    (\<forall>len n. ev = Main_receives (S2W_REQ_MAX_CMD_LENGTH (len, Some n)) \<longrightarrow> max (w_capacity w) (nat n) \<le> w_capacity w')"
proof (cases ev)
  case (Thread_runs i m)
  then have "worker_func env i m w = Some (Inr w')" using step by simp
  then have "w_capacity w' = w_capacity w" by (cases rule: worker_func_cases) simp_all
  then show ?thesis using Thread_runs by simp
next
  case (Main_round probe)
  note ret = return_task_capacity [of env, OF grows]
  consider (loop) "w_main w = Looping" "main_loop_round env probe w = Some (Inr w')"
    | (join) "w_main w = Joining" "map_option (main_catch w) (main_join env w) = Some (Inr w')"
    using step Main_round by (cases "w_main w") (auto simp: main_catch_Inr)
  then have "w_capacity w \<le> w_capacity w'"
  proof cases
    case loop
    show ?thesis
    proof (cases "w_running w")
      case False
      then show ?thesis using loop by (auto simp: main_loop_round_def)
    next
      case run: True
      show ?thesis
      proof (cases "w_tasks_done w")
        case (Cons t ts)
        then have "return_task env t (w\<lparr> w_tasks_done := ts \<rparr>) = Inr w'" using loop run by (simp add: main_loop_round_def)
        from ret [OF this] show ?thesis by simp
      next
        case Nil
        then obtain v where v: "case probe of None \<Rightarrow> v = w | Some m \<Rightarrow> process_server_cmd env m w = Some (Inr v)" "request_instances env v = Inr w'"
          using loop run by (auto simp: main_loop_round_def rbind_Inr_iff split: option.splits)
        have "w_capacity v = w_capacity w"
        proof (cases probe)
          case (Some m)
          then have "plain m" using polled Main_round by blast
          then show ?thesis using v(1) Some by (cases m) auto
        qed (use v(1) in simp)
        moreover have "w_capacity v \<le> w_capacity w'"
          using v(2) server_send_capacity(1) [of env, OF grows]
          by (fastforce simp: request_instances_def get_instances_send_def rbind_Inr_iff split: if_splits)
        ultimately show ?thesis by simp
      qed
    qed
  next
    case join
    obtain r where r: "main_join env w = Some r" "r = Inr w' \<or> (\<exists>e v. r = Inl (e, v) \<and> w' = leave_server v)"
      using join(2) by (auto simp: main_catch_Inr)
    show ?thesis
    proof (cases "w_tasks_done w")
      case Nil
      then have "w' = leave_server w" using r by (auto simp: main_join_def split: if_splits)
      then show ?thesis by simp
    next
      case (Cons t ts)
      then have "return_task env t (w\<lparr> w_tasks_done := ts \<rparr>) = r" using r(1) by (simp add: main_join_def split: if_splits)
      from ret [OF this] show ?thesis using r(2) by auto
    qed
  qed
  then show ?thesis using Main_round by simp
next
  case (Main_receives msg)
  show ?thesis
  proof (cases "w_main w = Awaiting_activation")
    case True
    then have "plain msg" using first Main_receives by blast
    then show ?thesis using step Main_receives True
      by (cases msg) (auto simp: receive_server_cmd_def main_catch_def start_threads_def)
  next
    case False
    then obtain n where n: "w_main w = Receiving n"
      using step Main_receives by (cases "w_main w") (auto simp: receive_server_cmd_def)
    then obtain v where "process_server_cmd env msg w = Some (Inr v)"
      "w' = (case msg of S2W_SEND_INSTANCES _ \<Rightarrow> v\<lparr> w_main := Looping \<rparr> | _ \<Rightarrow> v)"
      using step Main_receives by (auto simp: receive_server_cmd_def main_catch_Inr rbind_Inr_iff)
    then have "w_capacity w' = (case msg of S2W_REQ_MAX_CMD_LENGTH (len, Some n) \<Rightarrow> max (w_capacity w) (nat n) | _ \<Rightarrow> w_capacity w)"
      using process_capacity [of env msg w v] by (auto split: s2w.splits)
    then show ?thesis using Main_receives by (auto split: s2w.splits option.splits prod.splits)
  qed
qed

section \<open>Messages that fit\<close>

fun fits_worker :: "'p server_env \<Rightarrow> nat \<Rightarrow> s2w list \<Rightarrow> nat \<Rightarrow> bool" where
  "fits_worker env cap [] a \<longleftrightarrow> a \<le> cap"
| "fits_worker env cap (S2W_REQ_MAX_CMD_LENGTH (len, v) # ms) a \<longleftrightarrow> (\<exists>n. v = Some (int n) \<and> 0 < n \<and> n \<le> absolute_max_cmd_length \<and>
     len = int (encoded_length env [Value4b (of_nat n)]) \<and> fits_worker env (max cap n) ms a)"
| "fits_worker env cap (S2W_SEND_INSTANCES (len, v) # ms) a \<longleftrightarrow> (\<exists>jobs. v = Some jobs \<and> 0 \<le> len \<and> len \<le> int cap) \<and> fits_worker env cap ms a"
| "fits_worker env cap (S2W_other x # ms) a \<longleftrightarrow> False"
| "fits_worker env cap (m # ms) a \<longleftrightarrow> fits_worker env cap ms a"

lemma fits_worker_mono: "fits_worker env cap ms a \<Longrightarrow> cap \<le> cap' \<Longrightarrow> fits_worker env cap' ms a"
proof (induction env cap ms a arbitrary: cap' rule: fits_worker.induct)
  case (2 env cap len v ms a)
  then obtain n where n: "v = Some (int n)" "0 < n" "n \<le> absolute_max_cmd_length" "len = int (encoded_length env [Value4b (of_nat n)])"
    "fits_worker env (max cap n) ms a" by auto
  have "fits_worker env (max cap' n) ms a" using "2.IH" [OF n(5), of "max cap' n"] "2.prems"(2) by simp
  then show ?case using n by simp
qed auto

lemma fits_worker_plain: "fits_worker env cap ms a \<Longrightarrow> list_all plain ps \<Longrightarrow> fits_worker env cap (ms @ ps) a"
proof (induction env cap ms a rule: fits_worker.induct)
  case (1 env cap a)
  have "list_all plain ps \<Longrightarrow> fits_worker env cap ps a = (a \<le> cap)" for ps
    by (induction env cap ps a rule: fits_worker.induct) auto
  then show ?case using 1 by simp
next
  case (2 env cap len v ms a)
  then obtain n where n: "v = Some (int n)" "0 < n" "n \<le> absolute_max_cmd_length" "len = int (encoded_length env [Value4b (of_nat n)])"
    "fits_worker env (max cap n) ms a" by auto
  then show ?case using "2.IH" "2.prems"(2) by auto
qed auto

lemma fits_worker_answer:
  "fits_worker env cap ms a \<Longrightarrow> len \<le> a \<Longrightarrow> fits_worker env cap (ms @ [S2W_SEND_INSTANCES (int len, Some jobs)]) a"
proof (induction env cap ms a rule: fits_worker.induct)
  case (2 env cap l v ms a)
  then show ?case by auto
qed auto

lemma fits_worker_announced:
  "fits_worker env cap ms a \<Longrightarrow> a \<le> n \<Longrightarrow> 0 < n \<Longrightarrow> n \<le> absolute_max_cmd_length \<Longrightarrow>
   fits_worker env cap (ms @ [S2W_REQ_MAX_CMD_LENGTH (int (encoded_length env [Value4b (of_nat n)]), Some (int n)),
     S2W_SEND_INSTANCES (int n, Some jobs)]) n"
proof (induction env cap ms a rule: fits_worker.induct)
  case (2 env cap l v ms a)
  then show ?case by auto
qed auto

section \<open>The invariant\<close>

definition answers_fit ::
    "'p server_env \<Rightarrow> 'p server \<Rightarrow> 'p worker list \<Rightarrow> s2w list list \<Rightarrow> bool" where
  "answers_fit senv st ws downs \<longleftrightarrow> (\<forall>k < accepted st. \<exists>a. fits_worker senv (w_capacity (ws ! k)) (downs ! k) a \<and>
     (\<forall>i < length (work_units st). work_units st ! i = accept senv k \<longrightarrow> transfer_sizes st ! i = a))"

lemma message_light:
  assumes inv: "system_inv senv wenv st ws ups downs" and k: "k < accepted st" "ups ! k = m # rest"
    and run: "process_worker_cmd senv i 0 (arriving wenv m) st = Inr st'" and m: "\<forall>n. m \<noteq> Get_instances n"
  shows "sends_light st st'"
proof (cases "\<exists>d. m = Done_processing d")
  case True
  then obtain d where d: "m = Done_processing d" by blast
  have "server_inv senv st" using inv by (simp add: system_inv_def)
  from done_cmd_effect [OF this _ run [unfolded d arriving.simps]] report_done_ok(1) [OF inv k(1)] k(2) d
  show ?thesis by blast
next
  case False
  then have "\<not> bookkeeping (arriving wenv m)" using m by (cases m) simp_all
  from quiet_cmd_effect [OF run this] show ?thesis by blast
qed

lemma light_answers:
  assumes fit: "answers_fit senv st ws downs" and len: "length downs = accepted st" and light: "list_all light ms"
    and acc: "accepted st' = accepted st"
    and units: "\<And>j. j < length (work_units st') \<Longrightarrow> \<exists>i < length (work_units st).
      work_units st' ! j = work_units st ! i \<and> transfer_sizes st' ! j = transfer_sizes st ! i"
  shows "answers_fit senv st' ws (deliver senv ms downs)"
  unfolding answers_fit_def acc
proof (intro allI impI)
  fix k assume k: "k < accepted st"
  obtain a where a: "fits_worker senv (w_capacity (ws ! k)) (downs ! k) a"
    "\<And>i. i < length (work_units st) \<Longrightarrow> work_units st ! i = accept senv k \<Longrightarrow> transfer_sizes st ! i = a"
    using fit k by (auto simp: answers_fit_def)
  have "fits_worker senv (w_capacity (ws ! k)) (deliver senv ms downs ! k) a"
    using fits_worker_plain [OF a(1) delivered_light [OF light]] k len by simp
  moreover have "transfer_sizes st' ! j = a" if "j < length (work_units st')" "work_units st' ! j = accept senv k" for j
    using units [OF that(1)] a(2) that(2) by auto
  ultimately show "\<exists>a. fits_worker senv (w_capacity (ws ! k)) (deliver senv ms downs ! k) a \<and>
      (\<forall>i < length (work_units st'). work_units st' ! i = accept senv k \<longrightarrow> transfer_sizes st' ! i = a)" by blast
qed

lemma message_answers:
  assumes inj: "inj (accept senv)" and inv: "system_inv senv wenv st ws ups downs" and fit: "answers_fit senv st ws downs"
    and k: "k < accepted st" "ups ! k = m # rest" and i: "i < length (work_units st)" "work_units st ! i = accept senv k"
    and run: "process_worker_cmd senv i 0 (arriving wenv m) st = Inr st'" and ms: "sent st' = sent st @ ms" and acc: "accepted st' = accepted st"
  shows "answers_fit senv st' ws (deliver senv ms downs)"
proof -
  have si: "server_inv senv st" and lens: "length ws = accepted st" "length downs = accepted st" using inv by (simp_all add: system_inv_def)
  have wl: "length (transfer_sizes st) = length (work_units st)" "\<And>n. n \<in> set (transfer_sizes st) \<Longrightarrow> default_max_cmd_length \<le> n"
    and dist: "distinct (work_units st)"
    using si by (simp_all add: server_inv_def workers_inv_def)
  show ?thesis
  proof (cases "\<exists>n. m = Get_instances n")
    case False
    then have "sends_light st st'" using message_light [OF inv k run] by blast
    then have light: "list_all light ms" using ms by (auto simp: sends_light_def)
    show ?thesis
    proof (rule light_answers [OF fit lens(2) light acc])
      fix j assume j: "j < length (work_units st')"
      show "\<exists>i < length (work_units st). work_units st' ! j = work_units st ! i \<and> transfer_sizes st' ! j = transfer_sizes st ! i"
      proof (cases "m = Disconnect")
        case True
        obtain us sizes where e: "verase (work_units st) i = Some us" "verase (transfer_sizes st) i = Some sizes"
          "work_units st' = us" "transfer_sizes st' = sizes"
          using disconnect_units [OF run [unfolded True arriving.simps]] by blast
        let ?j = "if j < i then j else Suc j"
        have "length us = length (work_units st) - 1" "i < length (work_units st)" "length sizes = length us"
          using verase_entries [OF e(1)] verase_entries [OF e(2)] wl(1) by auto
        then have "?j < length (work_units st)" "j < length us" "j < length sizes" using j e(3) by auto
        then show ?thesis using verase_entries [OF e(1)] verase_entries [OF e(2)] e(3,4) by blast
      next
        case d: False
        then have "\<not> (\<exists>p. arriving wenv m = W2S_GET_INSTANCES p)" "arriving wenv m \<noteq> W2S_DISCONNECT" using False by (cases m; simp)+
        from command_units [OF run si this] show ?thesis using j by (auto simp: same_units_def)
      qed
    qed
  next
    case True
    then obtain n where m: "m = Get_instances n" by blast
    obtain a req jobs where r: "ensure_length (encoded_length senv (serialize_jobs jobs)) (transfer_sizes st ! i) = Inr (a, req)"
      "sent st' = sent st @ (case req of None \<Rightarrow> [] | Some k \<Rightarrow> [To_worker_req_max (work_units st ! i) 0 k]) @
        [Send_instances (work_units st ! i) 0 jobs]"
      "work_units st' = work_units st" "transfer_sizes st' = (transfer_sizes st)[i := a]"
      using request_effect [OF si run [unfolded m arriving.simps]] by blast
    let ?old = "transfer_sizes st ! i" and ?len = "encoded_length senv (serialize_jobs jobs)"
    have msq: "ms = (case req of None \<Rightarrow> [] | Some l \<Rightarrow> [To_worker_req_max (accept senv k) 0 l]) @ [Send_instances (accept senv k) 0 jobs]"
      using ms r(2) unfolding i(2) by simp
    have old: "default_max_cmd_length \<le> ?old" using wl i(1) by simp
    have own: "fits_worker senv cap (down @ concat (map (delivered senv (accept senv k)) ms)) a"
      if f: "fits_worker senv cap down ?old" for cap down
    proof (cases "?len \<le> ?old")
      case True
      then have "a = ?old" "req = None" using r(1) by (simp_all add: ensure_length_def)
      then show ?thesis using fits_worker_answer [OF f True] msq by simp
    next
      case False
      then have a: "a = ?len" "req = Some ?len" "?len \<le> absolute_max_cmd_length" "0 < ?len"
        using r(1) old by (auto simp: ensure_length_def req_max_transfer_size_send_def rbind_Inr_iff require_def split: if_splits)
      then show ?thesis using fits_worker_announced [OF f _ a(4,3)] False msq by simp
    qed
    have other: "concat (map (delivered senv (accept senv j)) ms) = []" if "j \<noteq> k" for j
      using that inj unfolding msq by (cases req) (auto dest: injD)
    show ?thesis
      unfolding answers_fit_def acc
    proof (intro allI impI)
      fix j assume j: "j < accepted st"
      obtain b where b: "fits_worker senv (w_capacity (ws ! j)) (downs ! j) b"
        "\<And>x. x < length (work_units st) \<Longrightarrow> work_units st ! x = accept senv j \<Longrightarrow> transfer_sizes st ! x = b"
        using fit j by (auto simp: answers_fit_def)
      show "\<exists>b. fits_worker senv (w_capacity (ws ! j)) (deliver senv ms downs ! j) b \<and>
          (\<forall>x < length (work_units st'). work_units st' ! x = accept senv j \<longrightarrow> transfer_sizes st' ! x = b)"
      proof (cases "j = k")
        case True
        then have "b = ?old" using b(2) [OF i(1)] i(2) by simp
        then have "fits_worker senv (w_capacity (ws ! j)) (deliver senv ms downs ! j) a" using own b(1) True k(1) lens by simp
        moreover have "transfer_sizes st' ! x = a" if "x < length (work_units st')" "work_units st' ! x = accept senv j" for x
        proof -
          have "work_units st ! x = work_units st ! i" "x < length (work_units st)" using that True i r(3) by simp_all
          then have "x = i" using nth_eq_iff_index_eq [OF dist] i(1) by blast
          then show ?thesis using r(4) i(1) wl(1) by simp
        qed
        ultimately show ?thesis by blast
      next
        case False
        have "j < length downs" using j lens by simp
        then have "deliver senv ms downs ! j = downs ! j"
          using deliver_nth(2) [of j downs senv ms] other [OF False] by (simp only: append_Nil2)
        then have "fits_worker senv (w_capacity (ws ! j)) (deliver senv ms downs ! j) b" using b(1) by simp
        moreover have "transfer_sizes st' ! x = b" if "x < length (work_units st')" "work_units st' ! x = accept senv j" for x
        proof -
          have "x \<noteq> i" using that(2) i(2) False r(3) injD [OF inj] by auto
          then show ?thesis using b(2) that r(3,4) by simp
        qed
        ultimately show ?thesis by blast
      qed
    qed
  qed
qed

lemma answers_fit_same:
  "answers_fit senv (st\<lparr> work_unit_requests := b \<rparr>) ws downs = answers_fit senv st ws downs"
  by (simp add: answers_fit_def)

lemma deliver_append: "deliver senv (ms @ ms2) downs = deliver senv ms2 (deliver senv ms downs)"
  by (rule nth_equalityI) simp_all

lemma server_moves_answers:
  assumes inj: "inj (accept senv)" and inv: "net_inv senv wenv net"
    and fit: "answers_fit senv (net_server net) (net_workers net) (to_worker net)"
    and moves: "server_moves senv wenv src cmd net = Some net'"
  shows "answers_fit senv (net_server net') (net_workers net') (to_worker net')"
proof -
  let ?s = "net_server net" and ?ws = "net_workers net" and ?ups = "to_server net" and ?downs = "to_worker net"
  obtain probe chans st where t: "server_takes senv wenv src net = Some (probe, chans)"
    "server_iteration senv (probe, cmd) ?s = Inr st"
    and net': "net_server net' = st" "net_workers net' = ?ws @ replicate (accepted st - accepted ?s) worker_init"
      "to_worker net' = deliver senv (drop (length (sent ?s)) (sent st)) (?downs @ replicate (accepted st - accepted ?s) [])"
    using moves by (auto simp: server_moves_def Let_def split: if_splits option.splits sum.splits)
  obtain st1 where st1: "worker_probe senv probe ?s = Inr st1"
    "(case cmd of None \<Rightarrow> Inr st1 | Some c \<Rightarrow> process_manager_cmd senv c st1) = Inr st"
    using t(2) by (auto simp: server_iteration_def rbind_Inr_iff)
  obtain ms where p: "system_inv senv wenv st1 ?ws chans (deliver senv ms ?downs)" "accepted st1 = accepted ?s" "sent st1 = sent ?s @ ms"
    "\<forall>j \<ge> accepted ?s. list_all plain (concat (map (delivered senv (accept senv j)) ms))"
    using probe_keeps [OF inj inv t(1) st1(1)] by blast
  have lens: "length ?ws = accepted ?s" "length ?downs = accepted ?s" and si: "server_inv senv ?s" "server_inv senv st1"
    using inv p(1) by (simp_all add: net_inv_def system_inv_def)
  have 1: "answers_fit senv st1 ?ws (deliver senv ms ?downs)"
  proof (cases src)
    case None
    then have "st1 = ?s" using t(1) st1(1) by (auto simp: server_takes_def worker_probe_def split: if_splits)
    moreover from this have "ms = []" using p(3) by simp
    ultimately show ?thesis using fit by (simp add: deliver_def map_nth)
  next
    case (Some ik)
    obtain i k where ik: "ik = (i, k)" by force
    let ?st = "?s\<lparr> work_unit_requests := (work_unit_requests ?s)[i := False] \<rparr>"
    obtain m rest where g: "i < length (work_units ?s)" "k < length ?ws" "work_units ?s ! i = accept senv k"
      "?ups ! k = m # rest" "probe = Some (int i, 0, arriving wenv m)"
      using t(1) Some ik by (auto simp: server_takes_def split: if_splits list.splits)
    have "work_unit_requests ?s \<noteq> [] \<and> i < length (work_unit_requests ?s)"
      using si(1) g(1) by (auto simp: server_inv_def workers_inv_def)
    then have run: "process_worker_cmd senv i 0 (arriving wenv m) ?st = Inr st1" using st1(1) g(5) by (simp add: worker_probe_def)
    have inv': "system_inv senv wenv ?st ?ws ?ups ?downs" using inv by (simp add: net_inv_def system_inv_requests)
    have fit': "answers_fit senv ?st ?ws ?downs" using fit by (simp add: answers_fit_same)
    show ?thesis
      by (rule message_answers [OF inj inv' fit' _ g(4) _ _ run]) (use g lens p in simp_all)
  qed
  obtain n ms2 where n: "accepted st = accepted st1 + n" "work_units st = work_units st1 @ map (\<lambda>i. accept senv (accepted st1 + i)) [0..<n]"
    "transfer_sizes st = transfer_sizes st1 @ replicate n default_max_cmd_length" "sent st = sent st1 @ ms2" "list_all light ms2"
  proof (cases cmd)
    case None
    then show ?thesis using that [of 0 "[]"] st1(2) by simp
  next
    case (Some c)
    then have c: "process_manager_cmd senv c st1 = Inr st" using st1(2) by simp
    show ?thesis using that manager_units [OF c] manager_cmd_effect [OF c] by (auto simp: sends_light_def)
  qed
  have wl: "length (transfer_sizes st1) = length (work_units st1)" and sub: "set (work_units st1) \<subseteq> accept senv ` {..<accepted st1}"
    using si(2) by (simp_all add: server_inv_def workers_inv_def)
  have d: "drop (length (sent ?s)) (sent st) = ms @ ms2" using p(3) n(4) by simp
  have pl: "list_all plain (concat (map (delivered senv c) ms2))" for c by (rule delivered_light [OF n(5)])
  show ?thesis unfolding answers_fit_def net' d n(1)
  proof (intro allI impI)
    fix k assume k: "k < accepted st1 + n"
    let ?w = "(?ws @ replicate (accepted st1 + n - accepted ?s) worker_init) ! k"
    let ?down = "deliver senv (ms @ ms2) (?downs @ replicate (accepted st1 + n - accepted ?s) []) ! k"
    show "\<exists>a. fits_worker senv (w_capacity ?w) ?down a \<and>
        (\<forall>i < length (work_units st). work_units st ! i = accept senv k \<longrightarrow> transfer_sizes st ! i = a)"
    proof (cases "k < accepted st1")
      case True
      obtain a where a: "fits_worker senv (w_capacity (?ws ! k)) (deliver senv ms ?downs ! k) a"
        "\<And>i. i < length (work_units st1) \<Longrightarrow> work_units st1 ! i = accept senv k \<Longrightarrow> transfer_sizes st1 ! i = a"
        using 1 True by (auto simp: answers_fit_def)
      have "?down = deliver senv ms ?downs ! k @ concat (map (delivered senv (accept senv k)) ms2)"
        using True k lens p(2) by (simp add: nth_append)
      then have "fits_worker senv (w_capacity ?w) ?down a" using fits_worker_plain [OF a(1) pl] True lens p(2) by (simp add: nth_append)
      moreover have "transfer_sizes st ! i = a" if i: "i < length (work_units st)" "work_units st ! i = accept senv k" for i
      proof (cases "i < length (work_units st1)")
        case True
        then show ?thesis using a(2) i n(2,3) wl by (simp add: nth_append)
      next
        case False
        then obtain x where x: "i = length (work_units st1) + x" using le_Suc_ex [of "length (work_units st1)" i] by auto
        then have "x < n" using i(1) n(2) by simp
        then have "accept senv (accepted st1 + x) = accept senv k" using i(2) n(2) x by (simp add: nth_append)
        then show ?thesis using injD [OF inj] \<open>k < accepted st1\<close> by fastforce
      qed
      ultimately show ?thesis by blast
    next
      case False
      have "list_all plain ?down" using False k lens p(2,4) pl by (simp add: nth_append)
      then have "fits_worker senv default_max_cmd_length ([] @ ?down) default_max_cmd_length"
        by (intro fits_worker_plain) simp_all
      moreover have "w_capacity ?w = default_max_cmd_length" using False k lens p(2) by (simp add: nth_append worker_init_def)
      moreover have "transfer_sizes st ! i = default_max_cmd_length" if i: "i < length (work_units st)" "work_units st ! i = accept senv k" for i
      proof (cases "i < length (work_units st1)")
        case True
        then have "accept senv k \<in> accept senv ` {..<accepted st1}" using i(2) n(2) sub nth_mem [OF True] by (auto simp: nth_append)
        then show ?thesis using False injD [OF inj] by fastforce
      next
        case no: False
        then show ?thesis using i(1) n(2,3) wl by (simp add: nth_append)
      qed
      ultimately show ?thesis by auto
    qed
  qed
qed

lemma worker_moves_answers:
  assumes grows: "\<And>c n. c \<le> we_grown wenv c n" and inv: "net_inv senv wenv net"
    and fit: "answers_fit senv (net_server net) (net_workers net) (to_worker net)"
    and k: "k < length (net_workers net)" and r: "reads ev (to_worker net ! k) chan"
    and moves: "worker_moves wenv k ev chan net = Some net'"
  shows "answers_fit senv (net_server net') (net_workers net') (to_worker net')"
proof -
  let ?s = "net_server net" and ?w = "net_workers net ! k" and ?down = "to_worker net ! k"
  obtain w' where step: "worker_step wenv ev ?w = Some (Inr w')"
    and net': "net_server net' = ?s" "net_workers net' = (net_workers net)[k := w']" "to_worker net' = (to_worker net)[k := chan]"
    using moves by (auto simp: worker_moves_def Let_def split: option.splits sum.splits)
  have lens: "length (net_workers net) = accepted ?s" "length (to_worker net) = accepted ?s"
    using inv by (simp_all add: net_inv_def system_inv_def)
  have "worker_ok wenv (map metadata (available_tasks ?s)) ?w (to_server net ! k) ?down"
    using inv k lens by (simp add: net_inv_def system_inv_def)
  then have prot: "protocol (w_main ?w) (to_server net ! k) ?down" unfolding worker_ok_def by blast
  have c: "w_capacity ?w \<le> w_capacity w' \<and>
      (\<forall>len n. ev = Main_receives (S2W_REQ_MAX_CMD_LENGTH (len, Some n)) \<longrightarrow> max (w_capacity ?w) (nat n) \<le> w_capacity w')"
  proof (rule step_capacity [of wenv, OF grows step])
    fix m assume m: "ev = Main_round (Some m)"
    then have "w_main ?w = Looping \<or> w_main ?w = Joining" using step by (auto split: main_thread.splits)
    then have "list_all plain ?down" using prot by (auto simp: protocol_def)
    then show "plain m" using r m by (auto simp: reads_def list_all_iff)
  next
    fix m assume "ev = Main_receives m" "w_main ?w = Awaiting_activation"
    then show "plain m" using prot r by (auto simp: protocol_def reads_def)
  qed
  have own: "fits_worker senv (w_capacity w') chan a" if f: "fits_worker senv (w_capacity ?w) ?down a" for a
  proof (cases "message_of ev")
    case None
    then have "chan = ?down" using reads_message [OF r] by simp
    then show ?thesis using fits_worker_mono [OF f] c by simp
  next
    case (Some m)
    then have ev: "ev = Main_receives m" and d: "?down = m # chan" using reads_message [OF r] by (cases ev; simp)+
    show ?thesis
    proof (cases "\<exists>len v. m = S2W_REQ_MAX_CMD_LENGTH (len, v)")
      case True
      then obtain len v where m: "m = S2W_REQ_MAX_CMD_LENGTH (len, v)" by blast
      then obtain n where n: "v = Some (int n)" "fits_worker senv (max (w_capacity ?w) n) chan a" using f d by auto
      then show ?thesis using fits_worker_mono [OF n(2)] c ev m by simp
    next
      case False
      then have "fits_worker senv (w_capacity ?w) chan a" using f d by (cases m) auto
      then show ?thesis using fits_worker_mono c by blast
    qed
  qed
  show ?thesis using fit own k lens unfolding answers_fit_def net' by (fastforce simp: nth_list_update)
qed

theorem reachable_answers:
  assumes inj: "inj (accept senv)" and grows: "\<And>c n. c \<le> we_grown wenv c n"
  shows "reachable senv wenv net \<Longrightarrow> answers_fit senv (net_server net) (net_workers net) (to_worker net)"
proof (induction rule: reachable.induct)
  case reachable_init
  show ?case by (simp add: answers_fit_def network_init_def server_init_def)
next
  case (reachable_step net ev net')
  have inv: "net_inv senv wenv net" by (rule reachable_inv [OF inj reachable_step(1)])
  note worker = worker_moves_answers [of wenv, OF grows inv reachable_step.IH]
  show ?case
  proof (cases ev)
    case (Server_round src cmd)
    then show ?thesis using server_moves_answers [OF inj inv reachable_step.IH] reachable_step(2) by simp
  next
    case (Thread k i m)
    then show ?thesis using worker [of k "Thread_runs i m"] reachable_step(2) by (auto simp: reads_def split: if_splits)
  next
    case (Main_polls k arrived)
    then show ?thesis using worker [of k "Main_round None"] worker [of k "Main_round (Some m)" for m] reachable_step(2)
      by (auto simp: reads_def split: if_splits list.splits)
  next
    case (Main_takes k)
    then show ?thesis using worker [of k "Main_receives m" for m] reachable_step(2)
      by (auto simp: reads_def split: if_splits list.splits)
  qed
qed

text \<open>So the next message of the server fits the buffer it is received in.\<close>

lemma next_answer_fits:
  assumes inj: "inj (accept senv)" and grows: "\<And>c n. c \<le> we_grown wenv c n" and r: "reachable senv wenv net"
    and k: "k < length (net_workers net)" "to_worker net ! k = m # rest"
  shows "\<exists>a. fits_worker senv (w_capacity (net_workers net ! k)) (m # rest) a"
proof -
  have "net_inv senv wenv net" by (rule reachable_inv [OF inj r])
  then have "k < accepted (net_server net)" using k(1) by (simp add: net_inv_def system_inv_def)
  then show ?thesis using reachable_answers [OF inj grows r] k(2) unfolding answers_fit_def by metis
qed

end
