(* ===== verification/Shutdown.thy ===== *)
theory Shutdown
  imports System Network_Ending Network_Answers
begin

text \<open>
  The end of the distributed program. No answer of the server is refused for its size; after the
  server has dismissed its workers only a bounded number of steps changes anything; and as long
  as a worker that has seen the order to stop has not left, the system can go on.
\<close>

section \<open>Answers\<close>

text \<open>
  C13: No message of the server is refused by a worker for its size. In every reachable state the
  next message for a worker fits the buffer the worker has, if encoding into a buffer never
  makes it smaller: an answer is read as it was sent, and an announcement has a size the worker
  accepts and makes its buffer at least that large; commands that do not exist are never sent.
\<close>

theorem answers_accepted:
  assumes "inj (accept senv)" and "\<forall>c n. c \<le> we_grown wenv c n" and "reachable senv wenv net"
    and "k < length (net_workers net)" and "to_worker net ! k = m # rest"
  shows "case m of
      S2W_REQ_MAX_CMD_LENGTH p \<Rightarrow> 1 \<le> fst p \<and> fst p \<le> int int_max \<longrightarrow>
        (\<exists>n. fst p = int (encoded_length senv [Value4b (of_nat n)]) \<and> snd p = Some (int n) \<and>
          req_max_transfer_size_process worker_header p (w_capacity (net_workers net ! k)) =
            Inr (max (w_capacity (net_workers net ! k)) n))
    | S2W_SEND_INSTANCES p \<Rightarrow> (\<exists>jobs. snd p = Some jobs \<and>
        send_instances_process (w_capacity (net_workers net ! k)) p = Inr jobs)
    | S2W_other x \<Rightarrow> False
    | _ \<Rightarrow> True"
proof -
  have "\<And>c n. c \<le> we_grown wenv c n" using assms(2) by blast
  then obtain a where "fits_worker senv (w_capacity (net_workers net ! k)) (m # rest) a"
    using next_answer_fits [OF assms(1) _ assms(3-5)] by blast
  then show ?thesis
  proof (cases m)
    case (S2W_REQ_MAX_CMD_LENGTH p)
    then obtain n where n: "p = (int (encoded_length senv [Value4b (of_nat n)]), Some (int n))" "0 < n" "n \<le> absolute_max_cmd_length"
      using \<open>fits_worker _ _ _ _\<close> by (cases p) auto
    have "req_max_transfer_size_process worker_header p (w_capacity (net_workers net ! k)) = Inr (max (w_capacity (net_workers net ! k)) n)"
      if "1 \<le> fst p" "fst p \<le> int int_max"
    proof -
      have "received worker_header ''REQ_MAX_CMD_LENGTH'' 1 int_max p = Inr (int n)" using that n(1) by (simp add: received_Inr)
      then show ?thesis using n(2,3) by (simp add: req_max_transfer_size_process_def)
    qed
    then show ?thesis using S2W_REQ_MAX_CMD_LENGTH n(1) by simp
  next
    case (S2W_SEND_INSTANCES p)
    then show ?thesis using \<open>fits_worker _ _ _ _\<close> by (cases p) (auto simp: received_Inr)
  qed auto
qed

theorem answers_accepted_witness:
  "\<exists>(net :: real network) p jobs. reachable double_server_env small_worker_env net \<and> to_worker net = [[S2W_SEND_INSTANCES p]] \<and>
     send_instances_process (w_capacity (net_workers net ! 0)) p = Inr jobs"
proof -
  obtain net :: "real network" and len where n: "net_run double_server_env small_worker_env first_events network_init = Some net"
    "net_workers net = [asking_worker]"
    "to_worker net = [[S2W_SEND_INSTANCES (len, Some [\<lparr> job_metadata = small_metadata, num_instances_to_start = 1, job_task_id = 0 \<rparr>])]]"
    using answered_net_run by (elim exE conjE) (rule that)
  have r: "reachable double_server_env small_worker_env net" by (rule net_run_reachable [OF reachable_init n(1)])
  have g: "\<forall>c n. c \<le> we_grown small_worker_env c n" by (simp add: example_worker_env_def)
  have k: "0 < length (net_workers net)" "to_worker net ! 0 = S2W_SEND_INSTANCES (len, Some [\<lparr> job_metadata = small_metadata,
      num_instances_to_start = 1, job_task_id = 0 \<rparr>]) # []"
    using n(2,3) by simp_all
  show ?thesis using answers_accepted [OF double_server_inj g r k] r n(3) by fastforce
qed

section \<open>The steps after the dismissal\<close>

text \<open>How many of the steps of a run change the state; a round of polling need not.\<close>

fun changes :: "'p server_env \<Rightarrow> 'p worker_env \<Rightarrow> 'p net_event list \<Rightarrow> 'p network \<Rightarrow> nat" where
  "changes senv wenv [] net = 0"
| "changes senv wenv (ev # evs) net = (case net_step senv wenv ev net of
     None \<Rightarrow> 0
   | Some net' \<Rightarrow> of_bool (net' \<noteq> net) + changes senv wenv evs net')"

lemma unattended_tasks:
  assumes inj: "inj (accept senv)" and inv: "net_inv senv wenv net" and step: "net_step senv wenv ev net = Some net'" and ev: "unattended ev"
  shows "map metadata (available_tasks (net_server net')) = map metadata (available_tasks (net_server net)) \<and>
    length (available_tasks (net_server net')) = length (available_tasks (net_server net))"
proof (cases "\<exists>src cmd. ev = Server_round src cmd")
  case True
  then obtain src where src: "ev = Server_round src None" using ev by (cases ev) auto
  have moves: "server_moves senv wenv src None net = Some net'" using step src by simp
  obtain probe chans st where t: "server_takes senv wenv src net = Some (probe, chans)" "worker_probe senv probe (net_server net) = Inr st"
    and net': "net_server net' = st" "net_workers net' = net_workers net @ replicate (accepted st - accepted (net_server net)) worker_init"
    using moves by (auto simp: server_moves_def server_iteration_def rbind_Inr_iff Let_def split: if_splits option.splits sum.splits)
  show ?thesis using probe_keeps [OF inj inv t] net' by auto
next
  case False
  then show ?thesis using step
    by (cases ev) (auto simp: worker_moves_def Let_def split: if_splits list.splits option.splits sum.splits)
qed

lemma changes_bound:
  assumes inj: "inj (accept senv)"
  shows "net_inv senv wenv net \<Longrightarrow> winding_down net \<Longrightarrow> length (available_tasks (net_server net)) < 2 ^ 32 \<Longrightarrow>
    list_all unattended evs \<Longrightarrow> changes senv wenv evs net \<le> potential net"
proof (induction evs arbitrary: net)
  case (Cons ev evs)
  show ?case
  proof (cases "net_step senv wenv ev net")
    case (Some net1)
    have ev: "unattended ev" using Cons.prems(4) by simp
    have d: "winding_down net1" "net1 = net \<or> potential net1 < potential net"
      using net_step_down [OF inj Cons.prems(1,2) Some ev] by blast+
    have i: "net_inv senv wenv net1" by (rule net_step_keeps [OF inj Cons.prems(1) Some Cons.prems(3)])
    have "changes senv wenv evs net1 \<le> potential net1"
      using Cons.IH [OF i d(1)] unattended_tasks [OF inj Cons.prems(1) Some ev] Cons.prems(3,4) by simp
    then show ?thesis using Some d(2) by auto
  qed simp
qed simp

text \<open>What the potential amounts to.\<close>

lemma threads_weight: "length ths \<le> 2 \<or> list_all (\<lambda>th. th = Ended) ths \<Longrightarrow> sum_list (map thread_weight ths) \<le> 16"
proof (elim disjE)
  have c: "thread_weight th \<le> 8" for th :: "'a thread" by (cases th) auto
  have "sum_list (map thread_weight xs) \<le> 8 * length xs" for xs :: "'a thread list"
    by (induction xs) (use c in \<open>auto intro: add_mono\<close>)
  from this [of ths] show "length ths \<le> 2 \<Longrightarrow> sum_list (map thread_weight ths) \<le> 16" by linarith
next
  show "list_all (\<lambda>th. th = Ended) ths \<Longrightarrow> sum_list (map thread_weight ths) \<le> 16"
    by (induction ths) auto
qed

lemma up_weights: "sum_list (map up_weight up) = length up + sum_list (map (\<lambda>n. 2 + 9 * unat n) (requests up))"
  by (induction up rule: requests.induct) simp_all

lemma down_weights:
  "list_all (\<lambda>m. \<not> sends_instances m) down \<Longrightarrow> sum_list (map down_weight down) = length down"
proof (induction down)
  case (Cons m down)
  then show ?case by (cases m) simp_all
qed simp

lemma protocol_weights:
  assumes p: "protocol (w_main w) up down" and inv: "worker_inv w"
  shows "sum_list (map up_weight up) + sum_list (map down_weight down) \<le> length up + length down + 20"
proof (cases "\<exists>n. w_main w = Receiving n")
  case False
  then have "requests up = []" "list_all plain down" using p by (auto simp: protocol_def split: main_thread.splits)
  then show ?thesis using up_weights [of up] down_weights [OF plain_list(3)] by simp
next
  case True
  then obtain n where n: "w_main w = Receiving n" by blast
  then have n2: "unat n \<le> 2" using inv by (auto simp: worker_inv_def threads_up_def accounted_def)
  consider "requests up = [n]" "list_all plain down" | "requests up = []" "answer_coming n down"
    using p n by (auto simp: protocol_def)
  then show ?thesis
  proof cases
    case 1
    then show ?thesis using up_weights [of up] down_weights [OF plain_list(3)] n2 by simp
  next
    case 2
    obtain pre len jobs post where d: "down = pre @ S2W_SEND_INSTANCES (len, Some jobs) # post"
      "list_all (\<lambda>m. \<not> sends_instances m) pre" "list_all plain post" "jobs_total jobs \<le> unat n"
      using 2(2) by (auto simp: answer_coming_def)
    then show ?thesis using up_weights [of up] 2(1) down_weights [OF d(2)] down_weights [OF plain_list(3) [OF d(3)]] n2 by simp
  qed
qed

lemma worker_weight_bound:
  assumes p: "protocol (w_main w) up down" and inv: "worker_inv w"
  shows "worker_weight w up down \<le> 67 + 9 * length (w_tasks w) + 5 * length (w_tasks_done w) + length up + length down"
proof -
  have "length (w_threads w) \<le> 2 \<or> list_all (\<lambda>th. th = Ended) (w_threads w)"
    using inv by (auto simp: worker_inv_def threads_up_def split: main_thread.splits)
  then have "sum_list (map thread_weight (w_threads w)) \<le> 16" by (rule threads_weight)
  moreover have "main_weight (w_running w) (w_main w) down \<le> 31" by (simp add: main_weight_def split: main_thread.splits)
  ultimately show ?thesis using protocol_weights [OF p inv] by (simp add: worker_weight_def work_weight_def)
qed

lemma potential_bound:
  assumes inv: "net_inv senv wenv net"
  shows "potential net \<le> (\<Sum>k \<leftarrow> [0..<length (net_workers net)]. 67 + 9 * length (w_tasks (net_workers net ! k)) +
    5 * length (w_tasks_done (net_workers net ! k)) + length (to_server net ! k) + length (to_worker net ! k))"
  unfolding potential_def
proof (rule sum_list_mono)
  fix k assume "k \<in> set [0..<length (net_workers net)]"
  then have "worker_ok wenv (map metadata (available_tasks (net_server net))) (net_workers net ! k) (to_server net ! k) (to_worker net ! k)"
    using inv by (simp add: net_inv_def system_inv_def)
  then obtain g where "worker_run wenv g (net_workers net ! k)"
    "protocol (w_main (net_workers net ! k)) (to_server net ! k) (to_worker net ! k)"
    unfolding worker_ok_def by blast
  then show "worker_weight (net_workers net ! k) (to_server net ! k) (to_worker net ! k) \<le>
      67 + 9 * length (w_tasks (net_workers net ! k)) + 5 * length (w_tasks_done (net_workers net ! k)) +
      length (to_server net ! k) + length (to_worker net ! k)"
    using worker_weight_bound worker_run_keeps by blast
qed

text \<open>
  C12: After the dismissal the system comes to rest. Take the round of the server's loop in which it
  dismisses its workers, for whatever reason, with no workers added in the same round. From then
  on, without further commands of the manager and in whatever order the processes and threads
  run, the number of steps that change anything is bounded by what was under way: at most 67
  steps for every worker, nine for every task in its queue, five for every result that waits,
  and one for every message to or from it.
\<close>

theorem system_winds_down:
  assumes "inj (accept senv)" and "\<forall>c. 0 < comm_size senv c" and "reachable senv wenv net"
    and "net_step senv wenv (Server_round src cmd) net = Some net'"
    and "\<not> terminated_workers (net_server net)" and "terminated_workers (net_server net')"
    and "\<forall>c n. cmd \<noteq> Some (M2S_ADD_WORKERS c n)"
    and "length (available_tasks (net_server net)) < 2 ^ 32" and "length (available_tasks (net_server net')) < 2 ^ 32"
    and "list_all unattended evs"
  shows "changes senv wenv evs net' \<le> (\<Sum>k \<leftarrow> [0..<length (net_workers net')]. 67 +
    9 * length (w_tasks (net_workers net' ! k)) + 5 * length (w_tasks_done (net_workers net' ! k)) +
    length (to_server net' ! k) + length (to_worker net' ! k))"
proof -
  have "winding_down net'"
    by (rule dismissal_winds_down [OF assms(1-3) _ assms(5-7), of src]) (use assms(4) in simp)
  moreover have inv: "net_inv senv wenv net'"
    by (rule net_step_keeps [OF assms(1) reachable_inv [OF assms(1,3)] assms(4,8)])
  ultimately show ?thesis
    using changes_bound [OF assms(1) inv _ assms(9,10)] potential_bound [OF inv] by simp
qed

text \<open>The manager tells the server to terminate while the worker waits for its answer.\<close>

lemma dismissed_net:
  "\<exists>net net'. reachable double_server_env small_worker_env net \<and>
     net_step double_server_env small_worker_env (Server_round None (Some M2S_TERMINATE)) net = Some net' \<and>
     \<not> terminated_workers (net_server net) \<and> terminated_workers (net_server net') \<and>
     length (available_tasks (net_server net)) = 1 \<and> length (available_tasks (net_server net')) = 1 \<and>
     net_workers net' = [asking_worker] \<and> to_server net' = [[]] \<and>
     (\<exists>m. to_worker net' = [[m, S2W_TERMINATE]])"
proof -
  let ?events = "first_events"
  have "\<exists>net net'. net_run double_server_env small_worker_env first_events network_init = Some net \<and>
     net_step double_server_env small_worker_env (Server_round None (Some M2S_TERMINATE)) net = Some net' \<and>
     \<not> terminated_workers (net_server net) \<and> terminated_workers (net_server net') \<and>
     length (available_tasks (net_server net)) = 1 \<and> length (available_tasks (net_server net')) = 1 \<and>
     net_workers net' = [asking_worker] \<and> to_server net' = [[]] \<and>
     (\<exists>m. to_worker net' = [[m, S2W_TERMINATE]])"
    by (simp add: first_events_def net_exec asking_step activating_step terminate_loop.simps skip_run.simps unit_at_def
        send_termination_to_workers_def terminate_send_def require_def emit_def del: worker_step.simps)
  then show ?thesis using net_run_reachable [OF reachable_init] by blast
qed

theorem system_winds_down_witness:
  "\<exists>net :: real network. net_workers net = [asking_worker] \<and> terminated_workers (net_server net) \<and>
     changes double_server_env small_worker_env [Main_takes 0, Main_takes 0, Main_polls 0 False, Thread 0 0 measured_once] net \<le> 69"
proof -
  obtain net net' :: "real network" where n: "reachable double_server_env small_worker_env net"
    "net_step double_server_env small_worker_env (Server_round None (Some M2S_TERMINATE)) net = Some net'"
    "\<not> terminated_workers (net_server net)" "terminated_workers (net_server net')"
    "length (available_tasks (net_server net)) = 1" "length (available_tasks (net_server net')) = 1"
    "net_workers net' = [asking_worker]" "to_server net' = [[]]" "\<exists>m. to_worker net' = [[m, S2W_TERMINATE]]"
    using dismissed_net by blast
  have "changes double_server_env small_worker_env [Main_takes 0, Main_takes 0, Main_polls 0 False, Thread 0 0 measured_once] net' \<le>
      (\<Sum>k \<leftarrow> [0..<length (net_workers net')]. 67 + 9 * length (w_tasks (net_workers net' ! k)) +
        5 * length (w_tasks_done (net_workers net' ! k)) + length (to_server net' ! k) + length (to_worker net' ! k))"
    by (rule system_winds_down [OF double_server_inj _ n(1-4)]) (use n(5,6) in \<open>simp_all add: double_server_env_def\<close>)
  also have "\<dots> = 69"
    using n(7-9) by (auto simp: asking_worker_def activated_worker_eq worker_init_def simp del: changes.simps)
  finally show ?thesis using n(4,7) by blast
qed

section \<open>The end\<close>

text \<open>
  The messages about the files \<open>mds\<close> of the server are at most as long as the largest buffer, and
  the announcements of sizes fit every buffer. An answer has at most one job for each of the two
  threads of a worker.
\<close>

definition lengths_fit :: "'p server_env \<Rightarrow> 'p worker_env \<Rightarrow> problem_instance_metadata list \<Rightarrow> bool" where
  "lengths_fit senv wenv mds \<longleftrightarrow>
     (\<forall>n. 1 \<le> encoded_length senv [Value4b n] \<and> encoded_length senv [Value4b n] \<le> int_max \<and>
        1 \<le> we_length wenv [Value4b n] \<and> we_length wenv [Value4b n] \<le> int_max) \<and>
     (\<forall>jobs. length jobs \<le> 2 \<and> job_metadata ` set jobs \<subseteq> set mds \<longrightarrow>
        encoded_length senv (serialize_jobs jobs) \<le> absolute_max_cmd_length) \<and>
     (\<forall>m \<in> set mds. \<forall>s. encoded_length senv (serialize_report_entry m s) \<le> absolute_max_cmd_length) \<and>
     (\<forall>info. si_filename info \<in> filename ` set mds \<longrightarrow>
        encoded_length senv (serialize_solution_info info) \<le> absolute_max_cmd_length \<and>
        we_length wenv (serialize_solution_info info) \<le> absolute_max_cmd_length) \<and>
     (\<forall>info. we_length wenv (serialize_done_processing_info info) \<le> absolute_max_cmd_length)"

lemma ensure_length_defined: "len \<le> absolute_max_cmd_length \<Longrightarrow> \<exists>a req. ensure_length len announced = Inr (a, req)"
  by (auto simp: ensure_length_def req_max_transfer_size_send_def)

lemma server_send_defined:
  assumes "we_length env items \<le> absolute_max_cmd_length"
  shows "\<exists>w'. server_send env items msg w = Inr w'"
proof -
  obtain a req where "ensure_length (we_length env items) (current_server_max_cmd_length w) = Inr (a, req)"
    using ensure_length_defined [OF assms] by blast
  then show ?thesis by (simp add: server_send_def Let_def thrown_def)
qed

lemma return_task_defined:
  assumes "lengths_fit senv wenv mds" and "t_name t \<in> filename ` set mds"
  shows "\<exists>w'. w_tasks_done w' = w_tasks_done w \<and>
    (return_task wenv t w = Inr w' \<or> return_task wenv t w = Inl (Runtime_error ''worker was unable to solve task!'', w'))"
proof -
  have len: "we_length wenv (serialize_solution_info (solution_of t)) \<le> absolute_max_cmd_length"
    "we_length wenv (serialize_done_processing_info d) \<le> absolute_max_cmd_length" for d
    using assms by (simp_all add: lengths_fit_def solution_of_def)
  have "\<exists>w1. (if dp_solved (t_dpi t)
      then server_send wenv (serialize_solution_info (solution_of t)) (Found_solution (solution_of t)) w
      else Inr w) = Inr w1"
    using server_send_defined [OF len(1)] by simp
  then obtain w1 where w1: "(if dp_solved (t_dpi t)
      then server_send wenv (serialize_solution_info (solution_of t)) (Found_solution (solution_of t)) w
      else Inr w) = Inr w1" by blast
  obtain w2 where w2: "server_send wenv (serialize_done_processing_info (t_dpi t)) (Done_processing (t_dpi t)) w1 = Inr w2"
    using server_send_defined [OF len(2)] by blast
  have "w_tasks_done w1 = w_tasks_done w" "w_tasks_done w2 = w_tasks_done w1"
    using solution_send_reports [OF w1] server_send_frame [OF w2] by (simp_all add: same_books_def)
  then show ?thesis using w1 w2 by (cases "0 \<ge> dp_instances_processed (t_dpi t)") (auto simp: return_task_def)
qed

text \<open>A worker that was told to stop can take a step, unless it waits for an answer that has not been sent.\<close>

lemma stopped_step:
  assumes lens: "lengths_fit senv wenv mds" and stop: "\<not> w_running w" and inv: "worker_inv w"
    and main: "w_main w \<in> {Looping, Joining}" and fits: "worker_fits wenv mds w"
  shows "\<exists>ev w'. (ev = Main_round None \<or> (\<exists>i. ev = Thread_runs i m)) \<and> worker_step wenv ev w = Some (Inr w') \<and> w' \<noteq> w"
proof (cases "w_main w = Looping")
  case True
  then have "worker_step wenv (Main_round None) w = Some (Inr (w\<lparr> w_main := Joining \<rparr>))"
    using stop by (simp add: main_loop_round_def main_catch_def)
  moreover have "w\<lparr> w_main := Joining \<rparr> \<noteq> w" using True by (metis main_thread.distinct(11) worker.simps(7) worker.surjective worker.update_convs(7))
  ultimately show ?thesis by blast
next
  case False
  then have j: "w_main w = Joining" using main by simp
  show ?thesis
  proof (cases "list_all (\<lambda>th. th = Ended) (w_threads w)")
    case e: True
    show ?thesis
    proof (cases "w_tasks_done w")
      case Nil
      then have "worker_step wenv (Main_round None) w = Some (Inr (leave_server w))"
        using j e by (simp add: main_join_def main_catch_def)
      moreover have "w_main (leave_server w) \<noteq> w_main w" using j by simp
      ultimately show ?thesis by metis
    next
      case (Cons t ts)
      have "task_fits wenv mds (w_formulas w) t" using fits Cons by (simp add: worker_fits_def tasks_of_def)
      then have "t_name t \<in> filename ` set mds" by (auto simp: task_fits_def)
      then obtain v where v: "w_tasks_done v = ts" "return_task wenv t (w\<lparr> w_tasks_done := ts \<rparr>) = Inr v \<or>
          return_task wenv t (w\<lparr> w_tasks_done := ts \<rparr>) = Inl (Runtime_error ''worker was unable to solve task!'', v)"
        using return_task_defined [OF lens, of t "w\<lparr> w_tasks_done := ts \<rparr>"] by auto
      then have "worker_step wenv (Main_round None) w = Some (Inr v) \<or> worker_step wenv (Main_round None) w = Some (Inr (leave_server v))"
        using j e Cons by (auto simp: main_join_def main_catch_def)
      moreover have "w_tasks_done v \<noteq> w_tasks_done w" "w_tasks_done (leave_server v) \<noteq> w_tasks_done w" using v(1) Cons by auto
      ultimately show ?thesis by metis
    qed
  next
    case False
    then obtain i where i: "i < length (w_threads w)" "w_threads w ! i \<noteq> Ended" by (auto simp: list_all_length)
    have "\<exists>w'. worker_func wenv i m w = Some (Inr w') \<and> w_threads w' ! i \<noteq> w_threads w ! i"
      using i stop by (cases "w_threads w ! i") (auto simp: worker_func_def get_task_def)
    then have "\<exists>w'. worker_step wenv (Thread_runs i m) w = Some (Inr w') \<and> w' \<noteq> w" by auto
    then show ?thesis by blast
  qed
qed

lemma stopped_receives:
  assumes lens: "lengths_fit senv wenv mds" and stop: "\<not> w_running w" and main: "w_main w = Receiving n"
    and fit: "fits_worker senv (w_capacity w) (m # rest) a"
  shows "\<exists>w'. worker_step wenv (Main_receives m) w = Some (Inr w')"
proof -
  have "\<exists>v. process_server_cmd wenv m w = Some (Inr v)"
  proof (cases m)
    case (S2W_REQ_MAX_CMD_LENGTH p)
    obtain l v where p: "p = (l, v)" by (cases p)
    obtain n where n: "v = Some (int n)" "0 < n" "n \<le> absolute_max_cmd_length" "l = int (encoded_length senv [Value4b (of_nat n)])"
      using fit S2W_REQ_MAX_CMD_LENGTH p by auto
    have "1 \<le> l" "nat l \<le> int_max" using lens n(4) by (simp_all add: lengths_fit_def)
    then have "received worker_header ''REQ_MAX_CMD_LENGTH'' 1 int_max p = Inr (int n)" using p n(1) by (simp add: received_Inr)
    then show ?thesis using n(2,3) S2W_REQ_MAX_CMD_LENGTH by (simp add: req_max_transfer_size_process_def thrown_def)
  next
    case (S2W_SEND_INSTANCES p)
    obtain l v where p: "p = (l, v)" by (cases p)
    obtain jobs where "v = Some jobs" "0 \<le> l" "l \<le> int (w_capacity w)" using fit S2W_SEND_INSTANCES p by auto
    then have "send_instances_process (w_capacity w) p = Inr jobs" using p by (simp add: received_Inr)
    then show ?thesis using stop S2W_SEND_INSTANCES by (simp add: process_s2w_send_instances_def)
  qed (use fit in simp_all)
  then obtain v where "process_server_cmd wenv m w = Some (Inr v)" by blast
  then show ?thesis using main by (auto simp: receive_server_cmd_def main_catch_def)
qed

text \<open>The server takes every message that arrives.\<close>

lemma send_statistic_possible:
  assumes "lengths_fit senv wenv (map metadata (available_tasks st))"
  shows "\<exists>st'. send_statistic_to_manager senv st = Inr st' \<and> terminated_workers st' = terminated_workers st"
proof (cases "statistic_send st")
  case True
  then show ?thesis by (simp add: send_statistic_to_manager_def)
next
  case False
  have "reports_fit senv st" using assms by (simp add: reports_fit_def lengths_fit_def)
  then obtain st' where "send_statistic_to_manager senv st = Inr st'" using send_statistic_defined [OF _ False] by blast
  then show ?thesis using books_eqD [OF send_statistic_frame] by fastforce
qed

lemma take_back_metadata:
  "unat (dp_task_id d) < length (available_tasks st) \<Longrightarrow>
   map metadata (available_tasks (take_back st d s)) = map metadata (available_tasks st)"
  by (simp add: take_back_def Let_def map_update) (metis length_map list_update_id nth_map)

lemma jobs_count: "\<forall>j \<in> set jobs. 0 < num_instances_to_start j \<Longrightarrow> length jobs \<le> jobs_total jobs"
proof (induction jobs)
  case (Cons j jobs)
  then have "0 < unat (num_instances_to_start j)" by (simp add: unat_gt_0 word_neq_0_conv)
  then show ?case using Cons by (simp add: jobs_total_def)
qed simp

lemma renew_possible: "i < length (work_unit_requests st) \<Longrightarrow> \<exists>st'. renew_request i st = Inr st'"
  by (simp add: renew_request_def vset_def defined_def)

lemma renewed_possible:
  assumes "m = Inr st1" "i < length (work_unit_requests st1)"
  shows "\<exists>st'. rbind m (renew_request i) = Inr st'"
  using renew_possible [OF assms(2)] assms(1) by simp

lemma message_possible:
  assumes inv: "system_inv senv wenv st ws ups downs"
    and lens: "lengths_fit senv wenv (map metadata (available_tasks st))" and dismissed: "terminated_workers st"
    and k: "k < accepted st" "ups ! k = m # rest" and i: "i < length (work_units st)"
    and fit: "case m of Server_req_max n \<Rightarrow> 0 < n \<and> n \<le> absolute_max_cmd_length
      | _ \<Rightarrow> message_size wenv m \<le> worker_comm_buffers st ! i"
  shows "\<exists>st'. process_worker_cmd senv i 0 (arriving wenv m) st = Inr st'"
proof -
  have si: "schedule_inv st" and l: "length (work_unit_requests st) = length (work_units st)"
    "length (transfer_sizes st) = length (work_units st)" "length (worker_comm_buffers st) = length (work_units st)"
    and sinv: "server_inv senv st"
    using inv by (simp_all add: system_inv_def server_inv_def workers_inv_def)
  have cap: "vget (worker_comm_buffers st) (int i) = Some (worker_comm_buffers st ! i)" using i l by simp
  have ok: "worker_ok wenv (map metadata (available_tasks st)) (ws ! k) (m # rest) (downs ! k)"
    using inv k by (metis system_inv_def)
  show ?thesis
  proof (cases m)
    case (Server_req_max n)
    let ?p = "(int (we_length wenv [Value4b (of_nat n)]), Some (int n))"
    have "received server_header ''REQ_MAX_CMD_LENGTH'' 1 int_max ?p = Inr (int n)"
      using lens by (simp add: received_Inr lengths_fit_def)
    then have "req_max_transfer_size_process server_header ?p (worker_comm_buffers st ! i) = Inr (max (worker_comm_buffers st ! i) n)"
      using fit Server_req_max by (simp add: req_max_transfer_size_process_def)
    then show ?thesis using i l Server_req_max
      by (simp add: process_w2s_REQ_MAX_CMD_LENGTH_def renew_request_def vset_def defined_def)
  next
    case (Found_solution info)
    let ?p = "(int (we_length wenv (serialize_solution_info info)), Some info)" and ?st = "st\<lparr> solution_found := True \<rparr>"
    have r: "w2s_found_solution_process (worker_comm_buffers st ! i) ?p = Inr info" using fit Found_solution by (simp add: received_Inr)
    have "si_filename info \<in> filename ` set (map metadata (available_tasks st))"
      using ok Found_solution unfolding worker_ok_def by (metis list.set_intros(1) report_fits.simps(2))
    then have "encoded_length senv (serialize_solution_info info) \<le> absolute_max_cmd_length"
      using lens unfolding lengths_fit_def by blast
    then obtain st1 where st1: "found_solution_send senv info ?st = Inr st1"
      unfolding found_solution_send_def using manager_send_defined by blast
    have "(if terminate_after_solution_was_found ?st then send_termination_to_workers senv ?st else Inr ?st) = Inr ?st"
      using dismissed by (simp add: send_termination_to_workers_def)
    then have "process_w2s_FOUND_SOLUTION senv i ?p st = Inr st1"
      using r cap st1 unfolding process_w2s_FOUND_SOLUTION_def Let_def by (simp add: defined_def)
    moreover have "work_unit_requests st1 = work_unit_requests st"
      using books_eqD [OF manager_send_frame [OF st1 [unfolded found_solution_send_def]]] by simp
    ultimately show ?thesis using renewed_possible [of _ st1 i] i l Found_solution by simp
  next
    case (Done_processing d)
    let ?p = "(int (we_length wenv (serialize_done_processing_info d)), Some d)"
    have r: "received server_header ''DONE_PROCESSING'' 0 (worker_comm_buffers st ! i) ?p = Inr d"
      using fit Done_processing by (simp add: received_Inr)
    have dok: "done_ok st d" using report_done_ok(1) [OF inv k(1)] k(2) Done_processing by simp
    have "i < length (worker_comm_buffers st)" using i l by simp
    from done_processing_eq [OF si dok this r, of senv] obtain s where s:
      "process_w2s_DONE_PROCESSING senv i ?p st = (if all_returned (take_back st d s)
        then rbind (send_statistic_to_manager senv (take_back st d s)) (send_termination_to_workers senv)
        else Inr (take_back st d s))" by blast
    have "lengths_fit senv wenv (map metadata (available_tasks (take_back st d s)))"
      using lens take_back_metadata [of d st s] dok by (simp add: done_ok_def)
    then obtain u where u: "send_statistic_to_manager senv (take_back st d s) = Inr u" "terminated_workers u"
      using send_statistic_possible [of senv wenv "take_back st d s"] dismissed by (auto simp: take_back_def Let_def)
    have q: "work_unit_requests (take_back st d s) = work_unit_requests st" by (simp add: take_back_def Let_def)
    moreover have "work_unit_requests u = work_unit_requests st"
      using send_statistic_units [OF u(1)] q by (simp add: same_units_def)
    ultimately have "\<exists>v. process_w2s_DONE_PROCESSING senv i ?p st = Inr v \<and> work_unit_requests v = work_unit_requests st"
      using s u by (simp add: send_termination_to_workers_def)
    then show ?thesis using renewed_possible i l Done_processing by (metis arriving.simps(3) process_worker_cmd.simps(3))
  next
    case (Get_instances n)
    let ?p = "(int (we_length wenv [Value4b n]), Some n)"
    have r: "get_instances_process (worker_comm_buffers st ! i) ?p = Inr n" using fit Get_instances by (simp add: received_Inr)
    obtain rest' jobs st1 where l1: "(if \<not> solution_found st then get_instances_loop n [] st else Inr (n, [], st)) = Inr (rest', jobs, st1)"
      and d: "dispatched st jobs st1" and few: "jobs_total jobs \<le> unat n"
    proof (cases "solution_found st")
      case True
      then show ?thesis using that [of n "[]" st] dispatched_refl [of st] by (simp add: jobs_total_def)
    next
      case False
      obtain rest' jobs st1 where "get_instances_loop n [] st = Inr (rest', [] @ jobs, st1)" "dispatched st jobs st1"
        "jobs_total jobs + unat rest' = unat n"
        using get_instances_loop_correct [OF si, of n "[]"] by blast
      then show ?thesis using that [of rest' jobs st1] False by simp
    qed
    obtain g where "worker_run wenv g (ws ! k)" "protocol (w_main (ws ! k)) (m # rest) (downs ! k)"
      using ok unfolding worker_ok_def by blast
    then have "w_main (ws ! k) = Receiving n" "worker_inv (ws ! k)"
      using Get_instances worker_run_keeps by (auto simp: protocol_def split: main_thread.splits)
    then have "unat n \<le> 2" by (auto simp: worker_inv_def threads_up_def accounted_def)
    then have "length jobs \<le> 2" using jobs_count [of jobs] few d by (fastforce simp: dispatched_def)
    moreover have "job_metadata ` set jobs \<subseteq> set (map metadata (available_tasks st))" using d by (auto simp: dispatched_def)
    ultimately have "encoded_length senv (serialize_jobs jobs) \<le> absolute_max_cmd_length"
      using lens unfolding lengths_fit_def by blast
    note short = this
    have same: "work_units st1 = work_units st" "work_unit_requests st1 = work_unit_requests st"
      "transfer_sizes st1 = transfer_sizes st" "worker_comm_buffers st1 = worker_comm_buffers st"
      using d by (cases st; cases st1; simp add: dispatched_def)+
    obtain a req where e: "ensure_length (encoded_length senv (serialize_jobs jobs)) (transfer_sizes st1 ! i) = Inr (a, req)"
      using ensure_length_defined [OF short] by blast
    let ?v = "reply_sent senv i 0 jobs a req st1"
    have "send_instances_send senv i 0 jobs st1 = Inr ?v" using e same i l by (auto simp: send_instances_Inr)
    then have "process_w2s_GET_INSTANCES senv i 0 ?p st = Inr ?v"
      using r cap l1 by (simp add: process_w2s_GET_INSTANCES_def defined_def)
    moreover have "work_unit_requests ?v = work_unit_requests st" by (simp add: reply_sent_def same emit_def)
    ultimately show ?thesis using renewed_possible [of _ ?v i] i l Get_instances by simp
  next
    case Disconnect
    obtain reqs us sizes bufs where e: "verase (work_unit_requests st) i = Some reqs" "verase (work_units st) i = Some us"
      "verase (transfer_sizes st) i = Some sizes" "verase (worker_comm_buffers st) i = Some bufs"
      using i l by (simp add: verase_def)
    let ?st = "st\<lparr> work_unit_requests := reqs, work_units := us, transfer_sizes := sizes,
       worker_comm_buffers := bufs, work_units_disconnected := work_units_disconnected st + 1 \<rparr>"
    obtain u where "send_statistic_to_manager senv ?st = Inr u" using send_statistic_possible [of senv wenv ?st] lens by auto
    then have "\<exists>st'. process_w2s_DISCONNECT senv i st = Inr st'"
      unfolding process_w2s_DISCONNECT_def e defined_def Let_def by (auto split: if_splits)
    then show ?thesis using Disconnect by simp
  qed
qed

lemma server_goes_on:
  assumes inj: "inj (accept senv)" and grows: "\<And>c n. c \<le> grown senv c n"
    and lens: "lengths_fit senv wenv (map metadata (available_tasks (net_server net)))" and r: "reachable senv wenv net" and dismissed: "terminated_workers (net_server net)" and run: "running (net_server net)"
    and k: "k < length (net_workers net)" "to_server net ! k = m # rest"
  shows "\<exists>src net'. net_step senv wenv (Server_round src None) net = Some net' \<and> net' \<noteq> net"
proof -
  let ?s = "net_server net"
  have inv: "net_inv senv wenv net" by (rule reachable_inv [OF inj r])
  have pres: "presence senv ?s (net_workers net) (to_server net)" by (rule reachable_presence [OF inj r])
  have acc: "length (net_workers net) = accepted ?s" "length (to_server net) = accepted ?s"
    and wl: "length (work_unit_requests ?s) = length (work_units ?s)"
    using inv by (simp_all add: net_inv_def system_inv_def server_inv_def workers_inv_def)
  have "farewell (w_main (net_workers net ! k)) (m # rest) (accept senv k \<in> set (work_units ?s))"
    using pres k acc by (metis presence_def)
  then have "accept senv k \<in> set (work_units ?s)" by (auto simp: farewell_def split: if_splits)
  then obtain i where i: "i < length (work_units ?s)" "work_units ?s ! i = accept senv k" by (auto simp: in_set_conv_nth)
  have req: "work_unit_requests ?s ! i" using pres i(1) by (simp add: presence_def)
  let ?st = "?s\<lparr> work_unit_requests := (work_unit_requests ?s)[i := False] \<rparr>"
  have inv': "system_inv senv wenv ?st (net_workers net) (to_server net) (to_worker net)"
    using inv by (simp add: net_inv_def system_inv_requests)
  have fit: "case m of Server_req_max n \<Rightarrow> 0 < n \<and> n \<le> absolute_max_cmd_length
      | _ \<Rightarrow> message_size wenv m \<le> worker_comm_buffers ?st ! i"
    using next_message_fits [of senv, OF inj grows r k i] by (simp split: worker_message.splits)
  have "k < accepted ?st" "i < length (work_units ?st)" using k(1) acc(1) i(1) by simp_all
  then obtain st where st: "process_worker_cmd senv i 0 (arriving wenv m) ?st = Inr st"
    using message_possible [OF inv' _ _ _ k(2) _ fit] lens dismissed by auto
  have "server_takes senv wenv (Some (i, k)) net = Some (Some (int i, 0, arriving wenv m), (to_server net)[k := rest])"
    using i k req by (simp add: server_takes_def)
  moreover have "server_iteration senv (Some (int i, 0, arriving wenv m), None) ?s = Inr st"
    using st i(1) wl by (auto simp: server_iteration_def worker_probe_def)
  ultimately obtain net' where n: "net_step senv wenv (Server_round (Some (i, k)) None) net = Some net'"
    "to_server net' = (to_server net)[k := rest] @ replicate (accepted st - accepted ?s) []"
    using run by (simp add: server_moves_def Let_def)
  have "to_server net' ! k = rest" using n(2) k(1) acc by (simp add: nth_append)
  then have "net' \<noteq> net" using k(2) by (metis not_Cons_self2)
  then show ?thesis using n(1) by blast
qed

text \<open>Every worker has left, or has seen the order to stop and was activated before.\<close>

definition stopped :: "'p worker \<Rightarrow> bool" where
  "stopped w \<longleftrightarrow> w_main w = Finished \<or> \<not> w_running w \<and> w_main w \<noteq> Awaiting_activation"

definition resting :: "'p network \<Rightarrow> bool" where
  "resting net \<longleftrightarrow> terminated_workers (net_server net) \<and> (\<forall>w \<in> set (net_workers net). stopped w) \<and>
     (running (net_server net) \<or> work_units (net_server net) = [])"

definition all_left :: "'p network \<Rightarrow> bool" where
  "all_left net \<longleftrightarrow> work_units (net_server net) = [] \<and> (\<forall>w \<in> set (net_workers net). w_main w = Finished) \<and>
     (\<forall>up \<in> set (to_server net). up = [])"

lemma resting_winding: "resting net \<Longrightarrow> winding_down net"
  by (auto simp: resting_def winding_down_def told_def stopped_def)

lemma stopped_keeps:
  assumes step: "worker_step env ev w = Some (Inr w')" and inv: "worker_inv w" and stop: "stopped w"
  shows "stopped w'"
proof (cases "w_main w' = Finished")
  case False
  have nf: "w_main w \<noteq> Finished"
  proof
    assume f: "w_main w = Finished"
    then have e: "list_all (\<lambda>th. th = Ended) (w_threads w)" using inv by (simp add: worker_inv_def)
    show False using step f e by (cases ev) (auto simp: worker_func_def receive_server_cmd_def list_all_length split: if_splits)
  qed
  then have s: "\<not> w_running w" "w_main w \<noteq> Awaiting_activation" using stop by (simp_all add: stopped_def)
  show ?thesis
  proof (cases ev)
    case (Thread_runs i m)
    then have "worker_func env i m w = Some (Inr w')" using step by simp
    then have "w_running w' = w_running w \<and> w_main w' = w_main w" by (cases rule: worker_func_cases) simp_all
    then show ?thesis using s by (simp add: stopped_def)
  next
    case (Main_round probe)
    show ?thesis
    proof (cases "w_main w = Looping")
      case True
      then have "w' = w\<lparr> w_main := Joining \<rparr>" using step s Main_round by (auto simp: main_loop_round_def main_catch_def)
      then show ?thesis using s by (simp add: stopped_def)
    next
      case no: False
      then have j: "w_main w = Joining" "map_option (main_catch w) (main_join env w) = Some (Inr w')"
        using step Main_round by (cases "w_main w"; simp)+
      then obtain t ts where t: "w_tasks_done w = t # ts" "return_task env t (w\<lparr> w_tasks_done := ts \<rparr>) = Inr w'"
        using False by (auto simp: main_join_def main_catch_Inr split: if_splits list.splits)
      have "w_running w' = w_running w \<and> w_main w' = w_main w" using return_task_frame [OF t(2)] by (simp add: same_books_def)
      then show ?thesis using s by (simp add: stopped_def)
    qed
  next
    case (Main_receives msg)
    then obtain n where n: "w_main w = Receiving n"
      using step s by (cases "w_main w") (auto simp: receive_server_cmd_def)
    then obtain v where v: "process_server_cmd env msg w = Some (Inr v)" "w' = (case msg of S2W_SEND_INSTANCES _ \<Rightarrow> v\<lparr> w_main := Looping \<rparr> | _ \<Rightarrow> v)"
      using step Main_receives by (auto simp: receive_server_cmd_def main_catch_Inr rbind_Inr_iff)
    show ?thesis
    proof (cases "sends_instances msg")
      case True
      then obtain p where p: "msg = S2W_SEND_INSTANCES p" by (cases msg) auto
      then have "v = w" using v(1) s by (auto simp: process_s2w_send_instances_def split: sum.splits)
      then show ?thesis using v(2) p s by (simp add: stopped_def)
    next
      case False
      then have "w' = v" using v(2) by (cases msg) simp_all
      then show ?thesis using process_other_keeps [OF False v(1)] s n by (auto simp: stopped_def)
    qed
  qed
qed (simp add: stopped_def)

lemma resting_keeps:
  assumes inj: "inj (accept senv)" and inv: "net_inv senv wenv net" and rest: "resting net"
    and step: "net_step senv wenv ev net = Some net'" and ev: "unattended ev"
  shows "resting net'"
proof (cases "\<exists>src cmd. ev = Server_round src cmd")
  case True
  then obtain src where src: "ev = Server_round src None" using ev by (cases ev) auto
  have moves: "server_moves senv wenv src None net = Some net'" using step src by simp
  let ?s = "net_server net"
  obtain probe chans st where t: "server_takes senv wenv src net = Some (probe, chans)" "worker_probe senv probe ?s = Inr st"
    and net': "net_server net' = st" "net_workers net' = net_workers net @ replicate (accepted st - accepted ?s) worker_init"
    and run: "running ?s"
    using moves by (auto simp: server_moves_def server_iteration_def rbind_Inr_iff Let_def split: if_splits option.splits sum.splits)
  have ws: "net_workers net' = net_workers net" using probe_keeps [OF inj inv t] net'(2) by auto
  have wd: "terminated_workers st"
    using net_step_down [OF inj inv resting_winding [OF rest] step ev] net'(1) by (simp add: winding_down_def)
  have "running st \<or> work_units st = []"
  proof (cases src)
    case None
    then have "st = ?s" using t by (auto simp: server_takes_def worker_probe_def split: if_splits)
    then show ?thesis using run by simp
  next
    case (Some ik)
    obtain i k where ik: "ik = (i, k)" by force
    let ?st = "?s\<lparr> work_unit_requests := (work_unit_requests ?s)[i := False] \<rparr>"
    obtain m rest where g: "i < length (work_units ?s)" "probe = Some (int i, 0, arriving wenv m)"
      using t(1) Some ik by (auto simp: server_takes_def split: if_splits list.splits)
    have si: "server_inv senv ?s" using inv by (simp add: net_inv_def system_inv_def)
    then have "work_unit_requests ?s \<noteq> [] \<and> i < length (work_unit_requests ?s)"
      using g(1) by (auto simp: server_inv_def workers_inv_def)
    then have p: "process_worker_cmd senv i 0 (arriving wenv m) ?st = Inr st" using t(2) g(2) by (simp add: worker_probe_def)
    have si': "server_inv senv ?st" using si by (simp add: requests_inv)
    consider (get) n where "m = Get_instances n" | (dis) "m = Disconnect"
      | (other) "\<not> (\<exists>p. arriving wenv m = W2S_GET_INSTANCES p)" "arriving wenv m \<noteq> W2S_DISCONNECT"
      by (cases m) auto
    then show ?thesis
    proof cases
      case get
      from request_effect [OF si' p [unfolded get arriving.simps]] show ?thesis using run by auto
    next
      case dis
      from disconnect_units [OF p [unfolded dis arriving.simps]] show ?thesis using run by auto
    next
      case other
      from command_units [OF p si' other] show ?thesis using run by (simp add: same_units_def)
    qed
  qed
  then show ?thesis using rest wd ws net'(1) by (simp add: resting_def)
next
  case False
  have w: "resting net'" if k: "k < length (net_workers net)" and m: "worker_moves wenv k e chan net = Some net'" for k e chan
  proof -
    obtain w' where w': "worker_step wenv e (net_workers net ! k) = Some (Inr w')" "net_workers net' = (net_workers net)[k := w']"
      "net_server net' = net_server net"
      using m by (auto simp: worker_moves_def Let_def split: option.splits sum.splits)
    have "worker_ok wenv (map metadata (available_tasks (net_server net))) (net_workers net ! k) (to_server net ! k) (to_worker net ! k)"
      using inv k by (simp add: net_inv_def system_inv_def)
    then obtain g where "worker_run wenv g (net_workers net ! k)" unfolding worker_ok_def by blast
    then have "worker_inv (net_workers net ! k)" using worker_run_keeps by blast
    then have "stopped w'" using stopped_keeps [OF w'(1)] rest k by (simp add: resting_def)
    then show ?thesis using rest w'(2,3) set_update_subset_insert [of "net_workers net" k w'] by (auto simp: resting_def)
  qed
  show ?thesis using step False w by (cases ev) (auto split: if_splits list.splits)
qed

lemma worker_goes_on:
  assumes k: "k < length (net_workers net)" and lens: "length (to_worker net) = length (net_workers net)"
    and step: "worker_step wenv e (net_workers net ! k) = Some (Inr w')"
    and new: "w' \<noteq> net_workers net ! k \<or> chan \<noteq> to_worker net ! k"
  shows "\<exists>net'. worker_moves wenv k e chan net = Some net' \<and> net' \<noteq> net"
proof -
  let ?net = "net\<lparr> net_workers := (net_workers net)[k := w'],
    to_server := (to_server net)[k := to_server net ! k @ drop (length (w_sent (net_workers net ! k))) (w_sent w')],
    to_worker := (to_worker net)[k := chan] \<rparr>"
  have "worker_moves wenv k e chan net = Some ?net" using step by (simp add: worker_moves_def Let_def)
  moreover have "net_workers ?net ! k = w'" "to_worker ?net ! k = chan" using k lens by simp_all
  then have "?net \<noteq> net" using new by metis
  ultimately show ?thesis by blast
qed

lemma resting_goes_on:
  assumes inj: "inj (accept senv)" and grows: "\<And>c n. c \<le> grown senv c n" "\<And>c n. c \<le> we_grown wenv c n"
    and lens: "lengths_fit senv wenv (map metadata (available_tasks (net_server net)))"
    and r: "reachable senv wenv net" and rest: "resting net" and here: "\<not> all_left net"
  shows "\<exists>ev net'. unattended ev \<and> net_step senv wenv ev net = Some net' \<and> net' \<noteq> net"
proof -
  let ?s = "net_server net" and ?ws = "net_workers net" and ?ups = "to_server net" and ?downs = "to_worker net"
  have inv: "net_inv senv wenv net" by (rule reachable_inv [OF inj r])
  have pres: "presence senv ?s ?ws ?ups" by (rule reachable_presence [OF inj r])
  have acc: "length ?ws = accepted ?s" "length ?ups = accepted ?s" "length ?downs = accepted ?s"
    and sub: "set (work_units ?s) \<subseteq> accept senv ` {..<accepted ?s}"
    using inv by (simp_all add: net_inv_def system_inv_def server_inv_def workers_inv_def)
  have fw: "farewell (w_main (?ws ! k)) (?ups ! k) (accept senv k \<in> set (work_units ?s))" if "k < accepted ?s" for k
    using pres that by (simp add: presence_def)
  have "\<exists>k < accepted ?s. w_main (?ws ! k) \<noteq> Finished \<or> ?ups ! k \<noteq> []"
  proof (rule ccontr)
    assume "\<not> ?thesis"
    then have all: "w_main (?ws ! k) = Finished" "?ups ! k = []" if "k < accepted ?s" for k using that by auto
    then have "accept senv k \<notin> set (work_units ?s)" if "k < accepted ?s" for k
      using fw [OF that] that by (auto simp: farewell_def split: if_splits)
    then have "work_units ?s = []" using sub by (cases "work_units ?s") auto
    then show False using here all acc by (auto simp: all_left_def in_set_conv_nth)
  qed
  then obtain k where k: "k < accepted ?s" "w_main (?ws ! k) \<noteq> Finished \<or> ?ups ! k \<noteq> []" by blast
  have kw: "k < length ?ws" using k(1) acc by simp
  show ?thesis
  proof (cases "?ups ! k")
    case (Cons m ms)
    have "running ?s"
    proof (rule ccontr)
      assume "\<not> running ?s"
      then have "work_units ?s = []" using rest by (simp add: resting_def)
      then show False using fw [OF k(1)] Cons k(2) by (auto simp: farewell_def split: if_splits)
    qed
    then obtain src net' where "net_step senv wenv (Server_round src None) net = Some net'" "net' \<noteq> net"
      using server_goes_on [of senv, OF inj grows(1) lens r _ _ kw Cons] rest by (auto simp: resting_def)
    moreover have "unattended (Server_round src None)" by simp
    ultimately show ?thesis by blast
  next
    case Nil
    let ?w = "?ws ! k"
    have nf: "w_main ?w \<noteq> Finished" using k(2) Nil by simp
    then have stop: "\<not> w_running ?w" "w_main ?w \<noteq> Awaiting_activation" using rest kw by (auto simp: resting_def stopped_def)
    have "worker_ok wenv (map metadata (available_tasks ?s)) ?w (?ups ! k) (?downs ! k)"
      using inv k(1) by (simp add: net_inv_def system_inv_def)
    then obtain g where g: "worker_run wenv g ?w" and prot: "protocol (w_main ?w) (?ups ! k) (?downs ! k)"
      and fits: "worker_fits wenv (map metadata (available_tasks ?s)) ?w"
      unfolding worker_ok_def by blast
    have winv: "worker_inv ?w" using worker_run_keeps [OF g] by blast
    have ld: "length ?downs = length ?ws" using acc by simp
    show ?thesis
    proof (cases "\<exists>n. w_main ?w = Receiving n")
      case False
      then have main: "w_main ?w \<in> {Looping, Joining}" using nf stop(2) by (cases "w_main ?w") auto
      obtain ev w' where ev: "ev = Main_round None \<or> (\<exists>i. ev = Thread_runs i undefined)" "worker_step wenv ev ?w = Some (Inr w')" "w' \<noteq> ?w"
        using stopped_step [OF lens stop(1) winv main fits] by blast
      obtain net' where n: "worker_moves wenv k ev (?downs ! k) net = Some net'" "net' \<noteq> net"
        using worker_goes_on [OF kw ld ev(2)] ev(3) by blast
      from ev(1) show ?thesis
      proof (elim disjE exE)
        assume "ev = Main_round None"
        then have "net_step senv wenv (Main_polls k False) net = Some net'" using n(1) kw by simp
        moreover have "unattended (Main_polls k False)" by simp
        ultimately show ?thesis using n(2) by blast
      next
        fix i assume "ev = Thread_runs i undefined"
        then have "net_step senv wenv (Thread k i undefined) net = Some net'" using n(1) kw by simp
        moreover have "unattended (Thread k i undefined)" by simp
        ultimately show ?thesis using n(2) by blast
      qed
    next
      case True
      then obtain n where n: "w_main ?w = Receiving n" by blast
      then have "answer_coming n (?downs ! k)" using prot Nil by (simp add: protocol_def)
      then obtain m ms where down: "?downs ! k = m # ms" by (cases "?downs ! k") (auto simp: answer_coming_def)
      obtain a where "fits_worker senv (w_capacity ?w) (m # ms) a"
        using next_answer_fits [of senv, OF inj grows(2) r kw down] by blast
      then obtain w' where w': "worker_step wenv (Main_receives m) ?w = Some (Inr w')"
        using stopped_receives [OF lens stop(1) n] by blast
      obtain net' where "worker_moves wenv k (Main_receives m) ms net = Some net'" "net' \<noteq> net"
        using worker_goes_on [OF kw ld w', of ms] down by auto
      then have "net_step senv wenv (Main_takes k) net = Some net'" "net' \<noteq> net" using kw down by simp_all
      moreover have "unattended (Main_takes k)" by simp
      ultimately show ?thesis by blast
    qed
  qed
qed

lemma resting_run:
  assumes inj: "inj (accept senv)"
  shows "reachable senv wenv net \<Longrightarrow> resting net \<Longrightarrow> list_all unattended evs \<Longrightarrow> net_run senv wenv evs net = Some net' \<Longrightarrow>
    reachable senv wenv net' \<and> resting net' \<and>
    map metadata (available_tasks (net_server net')) = map metadata (available_tasks (net_server net))"
proof (induction evs arbitrary: net)
  case (Cons ev evs)
  obtain net1 where net1: "net_step senv wenv ev net = Some net1" "net_run senv wenv evs net1 = Some net'"
    "length (available_tasks (net_server net)) < 2 ^ 32"
    using Cons.prems(4) by (auto simp: bind_eq_Some_conv split: if_splits)
  have ev: "unattended ev" using Cons.prems(3) by simp
  have "reachable senv wenv net1" by (rule reachable_step [OF Cons.prems(1) net1(1,3)])
  moreover have "resting net1" by (rule resting_keeps [OF inj reachable_inv [OF inj Cons.prems(1)] Cons.prems(2) net1(1) ev])
  ultimately show ?case
    using Cons.IH [OF _ _ _ net1(2)] Cons.prems(3) unattended_tasks [OF inj reachable_inv [OF inj Cons.prems(1)] net1(1) ev] by simp
qed simp

lemma resting_ends:
  assumes inj: "inj (accept senv)" and grows: "\<And>c n. c \<le> grown senv c n" "\<And>c n. c \<le> we_grown wenv c n"
  shows "reachable senv wenv net \<Longrightarrow> resting net \<Longrightarrow> length (available_tasks (net_server net)) < 2 ^ 32 \<Longrightarrow>
    lengths_fit senv wenv (map metadata (available_tasks (net_server net))) \<Longrightarrow>
    \<exists>evs net'. list_all unattended evs \<and> net_run senv wenv evs net = Some net' \<and> all_left net' \<and> length evs \<le> potential net"
proof (induction "potential net" arbitrary: net rule: less_induct)
  case less
  show ?case
  proof (cases "all_left net")
    case True
    then show ?thesis by (intro exI [of _ "[]"] exI [of _ net]) simp
  next
    case False
    obtain ev net1 where ev: "unattended ev" "net_step senv wenv ev net = Some net1" "net1 \<noteq> net"
      using resting_goes_on [of senv wenv, OF inj grows less.prems(4,1,2) False] by blast
    note inv = reachable_inv [OF inj less.prems(1)]
    have p: "potential net1 < potential net"
      using net_step_down [OF inj inv resting_winding [OF less.prems(2)] ev(2,1)] ev(3) by blast
    have r: "reachable senv wenv net1" by (rule reachable_step [OF less.prems(1) ev(2) less.prems(3)])
    have q: "resting net1" by (rule resting_keeps [OF inj inv less.prems(2) ev(2,1)])
    have t: "length (available_tasks (net_server net1)) < 2 ^ 32"
      and l: "lengths_fit senv wenv (map metadata (available_tasks (net_server net1)))"
      using unattended_tasks [OF inj inv ev(2,1)] less.prems(3,4) by simp_all
    obtain evs net' where e: "list_all unattended evs" "net_run senv wenv evs net1 = Some net'" "all_left net'" "length evs \<le> potential net1"
      using less.hyps [OF p r q t l] by blast
    then show ?thesis using ev(1,2) p less.prems(3) by (intro exI [of _ "ev # evs"] exI [of _ net']) simp
  qed
qed

text \<open>
  C11: The system ends. Take a state in which the server has dismissed its workers and every
  worker was activated and has seen the order to stop, or has left. If no message about
  the files of the server is longer than the largest buffer, then however the processes and threads run on without commands of the
  manager, at most \<open>potential net\<close> steps change anything, and in every state they reach either
  all workers have left, all their messages are taken and the server has no communicator any
  more, or some step that changes the state is possible; so the former is reached.
\<close>

theorem system_ends:
  assumes "inj (accept senv)" and "\<forall>c n. c \<le> grown senv c n" and "\<forall>c n. c \<le> we_grown wenv c n"
    and "lengths_fit senv wenv (map metadata (available_tasks (net_server net)))" and "reachable senv wenv net" and "resting net"
    and "length (available_tasks (net_server net)) < 2 ^ 32"
  shows "(\<forall>evs net'. list_all unattended evs \<and> net_run senv wenv evs net = Some net' \<longrightarrow>
      changes senv wenv evs net \<le> potential net \<and>
      (all_left net' \<or> (\<exists>ev net''. unattended ev \<and> net_step senv wenv ev net' = Some net'' \<and> net'' \<noteq> net'))) \<and>
    (\<exists>evs net'. list_all unattended evs \<and> net_run senv wenv evs net = Some net' \<and> all_left net' \<and> length evs \<le> potential net)"
proof -
  have g: "\<And>c n. c \<le> grown senv c n" "\<And>c n. c \<le> we_grown wenv c n" using assms(2,3) by blast+
  have "changes senv wenv evs net \<le> potential net" if "list_all unattended evs" for evs
    by (rule changes_bound [OF assms(1) reachable_inv [OF assms(1,5)] resting_winding [OF assms(6)] assms(7) that])
  moreover have "all_left net' \<or> (\<exists>ev net''. unattended ev \<and> net_step senv wenv ev net' = Some net'' \<and> net'' \<noteq> net')"
    if "list_all unattended evs" "net_run senv wenv evs net = Some net'" for evs net'
    using resting_run [OF assms(1,5,6) that] resting_goes_on [of senv wenv net', OF assms(1) g] assms(4) by metis
  ultimately show ?thesis using resting_ends [of senv wenv, OF assms(1) g assms(5-7,4)] by blast
qed

text \<open>A worker that is activated, is told to stop before it asks for instances, and sees the order.\<close>

definition short_server_env :: "real server_env" where
  "short_server_env = double_server_env\<lparr> encoded_length := (\<lambda>_. 40) \<rparr>"

definition short_events :: "real net_event list" where
  "short_events = [Server_round None (Some (M2S_ADD_FILE (12, Some small_metadata))),
     Server_round None (Some (M2S_ADD_WORKERS 1 1)), Main_takes 0, Server_round None (Some M2S_TERMINATE), Main_polls 0 True]"

lemma seeing_step:
  "worker_step (example_worker_env content) (Main_round (Some S2W_TERMINATE)) activated_worker =
   Some (Inr (activated_worker\<lparr> w_running := False \<rparr>))"
  by (simp add: activated_worker_def start_threads_def worker_init_def main_loop_round_def request_instances_def main_catch_def)

lemma activated_looping: "w_main activated_worker = Looping"
  by (simp add: activated_worker_def start_threads_def)

lemma short_lengths: "lengths_fit short_server_env small_worker_env mds"
  by (simp add: lengths_fit_def short_server_env_def example_worker_env_def int_max_def absolute_max_cmd_length_def)

lemma short_run:
  "\<exists>net. net_run short_server_env small_worker_env short_events network_init = Some net \<and> resting net \<and>
     length (available_tasks (net_server net)) = 1 \<and> w_main (net_workers net ! 0) = Looping"
  by (simp add: short_events_def short_server_env_def net_exec activating_step seeing_step terminate_loop.simps skip_run.simps unit_at_def
      send_termination_to_workers_def terminate_send_def require_def emit_def resting_def stopped_def activated_looping
      del: worker_step.simps)

theorem system_ends_witness:
  "\<exists>(net :: real network) evs net'. w_main (net_workers net ! 0) = Looping \<and>
     net_run short_server_env small_worker_env evs net = Some net' \<and> all_left net'"
proof -
  obtain net where n: "net_run short_server_env small_worker_env short_events network_init = Some net" "resting net"
    "length (available_tasks (net_server net)) = 1" "w_main (net_workers net ! 0) = Looping"
    using short_run by blast
  have r: "reachable short_server_env small_worker_env net" by (rule net_run_reachable [OF reachable_init n(1)])
  have "inj (accept short_server_env)" "\<forall>c n. c \<le> grown short_server_env c n" "\<forall>c n. c \<le> we_grown small_worker_env c n"
    by (simp_all add: short_server_env_def double_server_env_def example_worker_env_def)
  from system_ends [OF this short_lengths r n(2)] n(3,4) show ?thesis by auto
qed

end
