(* ===== verification/Spec2Isabelle.thy ===== *)
theory Spec2Isabelle
  imports Input_Limits Occurrence_Lists Probsat_Properties Processes_Correct Shutdown
begin

text \<open>
  Parallel ProbSAT, a stochastic local search for satisfying assignments of a formula in
  conjunctive normal form, as a sequential program and as a distributed one.

  The program. \<open>probsat\<close> (\<open>probsat.cpp\<close>, \<open>probsat.hpp\<close>) reads its options and one formula in
  DIMACS format, and runs the solver (\<open>sat/\<close>) from random start assignments until one
  satisfies the formula or the limits are reached. The distributed program consists of three
  executables that exchange messages over MPI: a manager (\<open>manager.cpp\<close>), a command line
  that starts one server and any number of workers and passes file names on; the server
  (\<open>server.cpp\<close>), which hands out instances of the files to the workers on their requests,
  adds up their reports, and sends statistics and solutions to the manager; and the workers
  (\<open>worker.cpp\<close>), whose threads run the solver on one instance each while the main thread
  talks to the server.

  Conventions (\<open>Prelude\<close>). An access to a vector or a string outside its bounds is undefined
  behaviour in C++ and \<open>None\<close> (or the error \<open>Undefined_behaviour\<close>) here; a theorem that says
  that a result is \<open>Some\<close> or \<open>Inr\<close> says that no container is left. An exception or a failed
  assertion is the left side of a sum with the error. Numbers of type \<open>int32_t\<close> and
  \<open>int16_t\<close> are integers that are narrowed (\<open>int32\<close>, \<open>int16\<close>) where the program stores them;
  the counters of the messages are words of 32 and 64 bits. A loop that may not end is a
  \<open>partial_function\<close> or runs over a list of events, so a theorem about its result says that
  it returns. No fuel is used.

  Which theory models which part:

  \<^item> \<open>Bitfield\<close>: \<open>util/bitfield.hpp\<close>, the packed assignment, with the pending write its
    reference operator leaves behind. \<open>Assignment_Store\<close> is the interface the solver uses,
    a locale that \<open>Bitfield\<close> (and a plain vector) interprets.
  \<^item> \<open>Random_Generator\<close>: \<open>sat/random_generator.hpp\<close>, both generators; locale \<open>random_source\<close>.
  \<^item> \<open>Prob_Functions\<close>: \<open>sat/probability_functions/\<close>, over an arithmetic \<open>prec_ops\<close>; locale
    \<open>prob_func\<close>. \<open>Sampling\<close> states what the choice of a literal needs of the arithmetic
    (locale \<open>sampling\<close>) and shows it for \<open>double_ops\<close>, which rounds to 53 significant bits and
    has an unbounded exponent.
  \<^item> \<open>Clause\<close>, \<open>Cnf_Formula\<close>: \<open>sat/clause.hpp\<close>, \<open>sat/3sat-clause.hpp\<close>, \<open>sat/cnf_formula.hpp\<close>.
    \<open>Cnf_Constructor\<close> proves the layout of the occurrence lists, \<open>Occurrence_Lists\<close> models
    the other layout with the checks of \<open>ADDITIONAL_CHECKS\<close> and shows that both agree.
  \<^item> \<open>Strings\<close>, \<open>Input\<close>: \<open>util/util.hpp\<close>, the strings and streams of the C++ library as the
    program uses them, and the reader \<open>sat/input.hpp\<close>. \<open>Input_Correct\<close>, \<open>Dimacs\<close> and
    \<open>Input_Limits\<close> show that it returns, what it guarantees of every file, the round trip
    with a printer, and the malformed inputs it accepts.
  \<^item> \<open>Instance\<close>: \<open>sat/instance.hpp\<close>, the state of one solver run and all its operations.
    \<open>Instance_Invariant\<close>, \<open>Instance_Step\<close>, \<open>Instance_Correct\<close> and \<open>Instance_Search\<close> hold
    the invariant that ties the cached data to the assignment, its establishment and
    preservation, and the search step; \<open>Search\<close> proves the step once in a locale over the
    three interfaces and interprets it for the cached polynomial; \<open>Solver_Run\<close> adds the
    loop the program and the workers share.
  \<^item> \<open>Params\<close>, \<open>Probsat\<close>: \<open>util/parse_params.hpp\<close>, \<open>probsat.hpp\<close>, \<open>probsat.cpp\<close>, from the
    command line to the lines printed; \<open>Probsat_Correct\<close> and \<open>Probsat_Properties\<close>.
  \<^item> \<open>Messages\<close>: \<open>communication/common.hpp\<close> and the records and checks of
    \<open>communication/cmd/\<close>; the remaining files of \<open>cmd/\<close> are the \<open>_send\<close> and \<open>_process\<close>
    definitions of the process that runs them.
  \<^item> \<open>Server\<close>: \<open>communication/server.hpp\<close> and \<open>server.cpp\<close>. The global variables are a
    record, a handler maps a state and a message to a state or an error, and the main loop
    runs over what the two probes of each round report. \<open>Server_Invariant\<close>,
    \<open>Server_Schedule\<close>, \<open>Server_Correct\<close>, \<open>Server_Ending\<close>, \<open>Server_Limits\<close> and
    \<open>Server_Properties\<close>.
  \<^item> \<open>Worker_Task\<close>, \<open>Worker\<close>: \<open>worker_task.hpp\<close>, \<open>communication/worker.hpp\<close>, \<open>worker.cpp\<close>. A
    step is what one thread does inside one critical section or between two of them, the
    control point of every thread is part of the state, and a run interleaves the steps of
    the threads in any order. \<open>Worker_Correct\<close> and \<open>Worker_Properties\<close>.
  \<^item> \<open>Manager\<close>: \<open>communication/manager.hpp\<close> and \<open>manager.cpp\<close>. \<open>Manager_Correct\<close> and
    \<open>Manager_Properties\<close>.
  \<^item> \<open>Processes\<close>: the three \<open>main\<close> functions from their arguments to their last call of MPI, around
    the loops above, and \<open>print_exception\<close>. \<open>Processes_Correct\<close> shows how the connections
    between the processes begin and end.
  \<^item> \<open>Network\<close>: the server and all its workers as one system. Its state are the process
    states and the messages in each direction, its steps are the rounds of \<open>Server\<close> and the
    steps of \<open>Worker\<close> in any order, and \<open>reachable\<close> are the states of its runs.
    \<open>Network_Worker\<close> and \<open>Network_Server\<close> say what a step sends and how it moves the instances
    of the tasks, \<open>Network_Correct\<close> has the invariant (requests and answers alternate,
    everything under way belongs to a task of the server and fits its file, nothing is under
    way that the server does not count) and that every step keeps it, \<open>Network_Sizes\<close> the
    invariant of the buffer sizes, and \<open>System\<close> what follows for the program, with a run of
    the system. \<open>Network_Answers\<close> has the sizes in the other direction, \<open>Network_Leaving\<close> who
    is still present and that the order to stop is sent to every worker, \<open>Network_Ending\<close> the
    potential that every step after that order lowers unless it changes nothing, and \<open>Shutdown\<close>
    what follows for the end of the program.

  What is proved. For the solver: every operation keeps the cached data consistent and stays
  inside its containers, a step takes an unsatisfied clause and satisfies it, which literal
  it takes in terms of the weights, and the run stops at satisfying assignments only; the
  sequential program ends when the flips are bounded and prints SATISFIABLE only for
  satisfiable formulas. For the reader: termination, the clauses it stores, the round trip.
  For the server: an invariant of every run with well-behaved workers, from which the bounds
  on what is handed out and the end of a run follow. For a worker: the accounts of its
  threads and instances in every reachable state, and the end of every schedule. For the
  server with its workers: the counters of the server are the instances under way, what the
  theorems about the server assume of reports, and those about a worker of answers, holds in
  every reachable state, and no message in either direction is refused for its size; after the
  dismissal the number of steps that change anything is bounded by what was under way, and the
  system goes on until all workers have left, provided that the messages about the files of the
  server fit the largest buffer (\<open>lengths_fit\<close>) and every worker has seen the order to stop
  (\<open>resting\<close>). Not covered is a worker that the server accepts after the dismissal: it is never
  told to stop. For the manager:
  what its commands send and in which order, and its statistic. Several theorems state what
  the program does outside its intended course: they are the ones that name an input after
  which it hangs, dies or prints a wrong result.

  Parameters. The arithmetic of \<open>double\<close> with its power function, the contents of fresh
  memory, the seed of the device, measured durations, the outcome of \<open>try_lock\<close>, the number
  of bytes of an encoded message, the growth of a buffer, the communicators and the arrival
  of messages are arguments of the definitions; what a theorem needs of them is a hypothesis.
  For the system of server and workers the transport is assumed to keep the order and the
  content of the messages between two processes, as MPI promises.

  Not modelled. The byte encoding and the transport of messages belong to the serialization
  library and to MPI; of the calls around the main loops the model has the order and the arguments,
  not when they return. The durations \<open>probsat\<close> prints, \<open>print_buffer\<close> and everything that is
  compiled only with the debug switches of \<open>config.hpp\<close> are output only. The other settings of
  \<open>config.hpp\<close> that exclude code (\<open>ALLOW_UNCLEAN_CLAUSES\<close>, a vector of Booleans for the bit
  field) are not modelled, except for the layout of the occurrence lists. Variables two
  threads access without a lock are read and written in one step; the model has the
  interleavings of these steps and no torn or delayed accesses.
\<close>

end
